(* ===== verification/Bloch_Prelude.thy ===== *)
theory Bloch_Prelude
  imports Main "HOL-Library.Monad_Syntax" "HOL-Library.Multiset" "HOL-Library.Word"
    "HOL-Library.List_Lexorder" "HOL-Library.AList" "HOL-Library.Code_Target_Numeral"
begin

text \<open>
  Shared ground of the development: the Rust integers and byte strings the components use, the
  arithmetic operations the sources call on them, the two generic locales for folded state
  machines, and the list and sum lemmas the component theories rely on.

  Unsigned Rust integers are natural numbers; the width is written out wherever the source can
  leave it.  The release profile of the workspace sets \<^verbatim>\<open>overflow-checks = true\<close>, so an
  overflowing \<open>+\<close>, \<open>-\<close> or \<open>*\<close> panics: a definition whose source may panic has
  an \<open>option\<close> result in which \<^term>\<open>None\<close> is the panic, computed by the same
  \<open>checked_\<close> operations that model the library methods of that name.
\<close>

section \<open>Machine integers\<close>

type_synonym u16 = nat
type_synonym u32 = nat
type_synonym u64 = nat
type_synonym u128 = nat
type_synonym usize = nat
type_synonym byte = "8 word"
type_synonym bytes = "byte list"

text \<open>A \<^verbatim>\<open>[u8; 32]\<close> digest or root; Rust compares arrays lexicographically, as the
  order of \<open>HOL-Library.List_Lexorder\<close> does.\<close>

type_synonym hash32 = bytes

text \<open>The digest SHA3-256 is a parameter; its results have 32 bytes, and a claim that rests on collision
  resistance names the inputs among which a collision would be found.\<close>

type_synonym digest = "bytes \<Rightarrow> hash32"

definition digest32 :: "digest \<Rightarrow> bool" where
  "digest32 sha3 = (\<forall>x. length (sha3 x) = 32)"

definition collides_in :: "digest \<Rightarrow> bytes list \<Rightarrow> bool" where
  "collides_in sha3 xs \<longleftrightarrow> (\<exists>x \<in> set xs. \<exists>y \<in> set xs. x \<noteq> y \<and> sha3 x = sha3 y)"

lemma collides_step: "sha3 x = sha3 y \<or> collides_in sha3 (xs @ ys) \<Longrightarrow> x = y \<or> collides_in sha3 ((x # xs) @ (y # ys))"
  unfolding collides_in_def by (cases "x = y") auto

definition u32_max :: nat where
  "u32_max = 4294967295"

definition u64_max :: nat where
  "u64_max = 18446744073709551615"

definition u128_max :: nat where
  "u128_max = 340282366920938463463374607431768211455"

definition checked_add :: "nat \<Rightarrow> nat \<Rightarrow> nat \<Rightarrow> nat option" where
  "checked_add m a b = (if a + b \<le> m then Some (a + b) else None)"

definition checked_sub :: "nat \<Rightarrow> nat \<Rightarrow> nat option" where
  "checked_sub a b = (if b \<le> a then Some (a - b) else None)"

definition checked_mul :: "nat \<Rightarrow> nat \<Rightarrow> nat \<Rightarrow> nat option" where
  "checked_mul m a b = (if a * b \<le> m then Some (a * b) else None)"

definition saturating_add :: "nat \<Rightarrow> nat \<Rightarrow> nat \<Rightarrow> nat" where
  "saturating_add m a b = min m (a + b)"

definition saturating_mul :: "nat \<Rightarrow> nat \<Rightarrow> nat \<Rightarrow> nat" where
  "saturating_mul m a b = min m (a * b)"

text \<open>\<open>saturating_sub\<close> on unsigned integers is the truncating subtraction of \<^typ>\<open>nat\<close>.\<close>

abbreviation (input) saturating_sub :: "nat \<Rightarrow> nat \<Rightarrow> nat" where
  "saturating_sub a b \<equiv> a - b"

text \<open>\<open>Iterator::sum\<close> on an unsigned type of maximum \<open>m\<close>: it panics on overflow.\<close>

fun checked_sum :: "nat \<Rightarrow> nat list \<Rightarrow> nat option" where
  "checked_sum m [] = Some 0"
| "checked_sum m (x # xs) = do { s \<leftarrow> checked_sum m xs; checked_add m x s }"

text \<open>Little-endian bytes of an unsigned integer of \<open>w\<close> bytes (\<open>to_le_bytes\<close>) and their
  value (\<open>from_le_bytes\<close>).\<close>

fun le_bytes :: "nat \<Rightarrow> nat \<Rightarrow> bytes" where
  "le_bytes 0 n = []"
| "le_bytes (Suc w) n = of_nat (n mod 256) # le_bytes w (n div 256)"

fun le_value :: "bytes \<Rightarrow> nat" where
  "le_value [] = 0"
| "le_value (b # bs) = unat b + 256 * le_value bs"

named_theorems machine_int \<open>evaluation and inversion of the machine arithmetic\<close>

lemma u_max_values [machine_int]:
  "u32_max = 4294967295" "u64_max = 18446744073709551615"
  "u128_max = 340282366920938463463374607431768211455"
  by (simp_all add: u32_max_def u64_max_def u128_max_def)

lemma checked_add_eq_Some [machine_int]: "checked_add m a b = Some c \<longleftrightarrow> c = a + b \<and> a + b \<le> m"
  by (auto simp: checked_add_def)

lemma checked_sub_eq_Some [machine_int]: "checked_sub a b = Some c \<longleftrightarrow> b \<le> a \<and> c = a - b"
  by (auto simp: checked_sub_def)

lemma checked_mul_eq_Some [machine_int]: "checked_mul m a b = Some c \<longleftrightarrow> c = a * b \<and> a * b \<le> m"
  by (auto simp: checked_mul_def)

lemma checked_eq_None [machine_int]:
  "checked_add m a b = None \<longleftrightarrow> m < a + b"
  "checked_sub a b = None \<longleftrightarrow> a < b"
  "checked_mul m a b = None \<longleftrightarrow> m < a * b"
  by (auto simp: checked_add_def checked_sub_def checked_mul_def)

lemma checked_fits:
  "a + b \<le> m \<Longrightarrow> checked_add m a b = Some (a + b)"
  "b \<le> a \<Longrightarrow> checked_sub a b = Some (a - b)"
  "a * b \<le> m \<Longrightarrow> checked_mul m a b = Some (a * b)"
  by (simp_all add: checked_add_def checked_sub_def checked_mul_def)

lemma checked_sum_eq: "checked_sum m xs = (if sum_list xs \<le> m then Some (sum_list xs) else None)"
  by (induction xs) (auto simp: checked_add_def bind_eq_None_conv split: if_splits)

lemma length_le_bytes [simp]: "length (le_bytes w n) = w"
  by (induction w arbitrary: n) auto

lemma le_value_le_bytes: "le_value (le_bytes w n) = n mod 256 ^ w"
proof (induction w arbitrary: n)
  case (Suc w)
  have "unat (of_nat (n mod 256) :: byte) = n mod 256"
    by (simp add: unat_of_nat)
  then show ?case
    by (simp add: Suc.IH mod_mult2_eq)
qed simp

lemma le_bytes_roundtrip: "n < 256 ^ w \<Longrightarrow> le_value (le_bytes w n) = n"
  by (simp add: le_value_le_bytes)

lemma le_bytes_inject: "a < 256 ^ w \<Longrightarrow> b < 256 ^ w \<Longrightarrow> le_bytes w a = le_bytes w b \<longleftrightarrow> a = b"
  by (metis le_bytes_roundtrip)

lemma le_value_bound: "le_value bs < 256 ^ length bs"
proof (induction bs)
  case (Cons b bs)
  have "unat b < 256"
    using unsigned_less [of b] by simp
  with Cons.IH show ?case
    by simp
qed simp

lemma le_bytes_le_value: "length bs = w \<Longrightarrow> le_bytes w (le_value bs) = bs"
proof (induction bs arbitrary: w)
  case (Cons b bs)
  then obtain w' where w: "w = Suc w'" "length bs = w'"
    by auto
  have lt: "unat b < 256"
    using unsigned_less [of b] by simp
  then have "(unat b + 256 * le_value bs) mod 256 = unat b"
    and "(unat b + 256 * le_value bs) div 256 = le_value bs"
    by simp_all
  then show ?case
    using w Cons.IH [of w'] by simp
qed simp

section \<open>Folded state machines\<close>

text \<open>Most components are driven as a fold of one operation over a sequence of inputs.  A machine
  is such an operation with an invariant it keeps; a progress machine also never moves back in a
  preorder on its states.\<close>

locale machine =
  fixes step :: "'s \<Rightarrow> 'e \<Rightarrow> 's" and inv :: "'s \<Rightarrow> bool"
  assumes step_inv: "inv s \<Longrightarrow> inv (step s e)"
begin

lemma run_inv: "inv s \<Longrightarrow> inv (foldl step s es)"
  by (induction es arbitrary: s) (simp_all add: step_inv)

end

locale progress_machine = machine step inv for step :: "'s \<Rightarrow> 'e \<Rightarrow> 's" and inv +
  fixes before :: "'s \<Rightarrow> 's \<Rightarrow> bool"
  assumes before_refl: "before s s"
    and before_trans: "before s t \<Longrightarrow> before t u \<Longrightarrow> before s u"
    and step_before: "inv s \<Longrightarrow> before s (step s e)"
begin

lemma run_before: "inv s \<Longrightarrow> before s (foldl step s es)"
proof (induction es arbitrary: s)
  case (Cons e es)
  have "before s (step s e)" "before (step s e) (foldl step (step s e) es)"
    using Cons step_inv step_before by auto
  then show ?case
    using before_trans by auto
qed (simp add: before_refl)

end

text \<open>A machine whose step may fail stops at the first error, as \<open>?\<close> does in a Rust loop.\<close>

fun run_until_error :: "('s \<Rightarrow> 'i \<Rightarrow> 'e + 's) \<Rightarrow> 's \<Rightarrow> 'i list \<Rightarrow> 'e + 's" where
  "run_until_error f s [] = Inr s"
| "run_until_error f s (i # is) = (case f s i of Inl e \<Rightarrow> Inl e | Inr s' \<Rightarrow> run_until_error f s' is)"

lemma run_until_error_append: "run_until_error f s (xs @ ys) =
    (case run_until_error f s xs of Inl e \<Rightarrow> Inl e | Inr s' \<Rightarrow> run_until_error f s' ys)"
  by (induction xs arbitrary: s) (auto split: sum.splits)

locale fallible_machine =
  fixes step :: "'s \<Rightarrow> 'i \<Rightarrow> 'e + 's" and inv :: "'s \<Rightarrow> bool"
  assumes step_inv: "inv s \<Longrightarrow> step s i = Inr s' \<Longrightarrow> inv s'"
begin

lemma run_inv: "inv s \<Longrightarrow> run_until_error step s is = Inr s' \<Longrightarrow> inv s'"
  by (induction "is" arbitrary: s) (auto split: sum.splits dest: step_inv)

end

locale fallible_progress = fallible_machine step inv for step :: "'s \<Rightarrow> 'i \<Rightarrow> 'e + 's" and inv +
  fixes before :: "'s \<Rightarrow> 's \<Rightarrow> bool"
  assumes before_refl: "before s s"
    and before_trans: "before s t \<Longrightarrow> before t u \<Longrightarrow> before s u"
    and step_before: "inv s \<Longrightarrow> step s i = Inr s' \<Longrightarrow> before s s'"
begin

lemma run_before: "inv s \<Longrightarrow> run_until_error step s is = Inr s' \<Longrightarrow> before s s'"
proof (induction "is" arbitrary: s)
  case (Cons i "is")
  then obtain t where "step s i = Inr t" "run_until_error step t is = Inr s'"
    by (auto split: sum.splits)
  then show ?case
    using Cons step_inv step_before before_trans by blast
qed (simp add: before_refl)

end

lemma Inr_projr: "\<not> isl x \<Longrightarrow> x = Inr (projr x)"
  by (cases x) simp_all

lemma Some_the: "x \<noteq> None \<Longrightarrow> x = Some (the x)"
  by (cases x) simp_all

section \<open>Lists and sums\<close>

lemma sum_list_map_le:
  fixes f g :: "'a \<Rightarrow> nat"
  shows "(\<And>x. x \<in> set xs \<Longrightarrow> f x \<le> g x) \<Longrightarrow> sum_list (map f xs) \<le> sum_list (map g xs)"
  by (induction xs) (auto intro: add_mono)

lemma sum_list_perm: "mset xs = mset ys \<Longrightarrow> sum_list xs = (sum_list ys :: nat)"
  by (metis sum_mset_sum_list)

lemma sum_list_filter_le:
  fixes f :: "'a \<Rightarrow> nat"
  shows "sum_list (map f (filter P xs)) \<le> sum_list (map f xs)"
  by (induction xs) auto

lemma sum_list_split_filter:
  fixes f :: "'a \<Rightarrow> nat"
  shows "sum_list (map f (filter P xs)) + sum_list (map f (filter (\<lambda>x. \<not> P x) xs))
    = sum_list (map f xs)"
  by (induction xs) auto

lemma sum_list_disjoint_filters:
  fixes f :: "'a \<Rightarrow> nat"
  assumes "\<And>x. x \<in> set xs \<Longrightarrow> \<not> (P x \<and> Q x)"
  shows "sum_list (map f (filter P xs)) + sum_list (map f (filter Q xs)) \<le> sum_list (map f xs)"
  using assms by (induction xs) auto

lemma div_mul_share_le: "(b::nat) \<le> c \<Longrightarrow> a * b div c \<le> a"
  by (cases "c = 0") (auto simp: div_le_mono2 intro: order_trans [OF div_le_mono [OF mult_le_mono2]])

lemma distinct_sorted_perm_eq:
  fixes xs ys :: "'a::linorder list"
  shows "set xs = set ys \<Longrightarrow> distinct xs \<Longrightarrow> distinct ys \<Longrightarrow> sort xs = sort ys"
  by (metis sorted_list_of_set_sort_remdups distinct_remdups_id)

lemma find_SomeD: "find P xs = Some x \<Longrightarrow> x \<in> set xs \<and> P x"
  by (induction xs) (auto split: if_splits)

lemma map_sort_key: "map f (sort_key f xs) = sort (map f xs)"
  by (rule properties_for_sort [symmetric]) (simp_all add: mset_map)

end
