(* ===== verification/Params.thy ===== *)
theory Params
  imports Bloch_Prelude
begin

text \<open>
  Consensus constants of \<^verbatim>\<open>bloch-pos-committee/src/params.rs\<close> used by the modelled components,
  and the activation gates of the finality fold.  The gates are constants in the source; the
  fold takes them as a record so that its theorems also cover the rules that are scheduled but
  not armed, and \<open>shipped_gates\<close> is the record with the values of the source.
\<close>

section \<open>Constants\<close>

definition SLOTS_PER_EPOCH :: u64 where
  "SLOTS_PER_EPOCH = 32"

definition SLOT_DURATION_SECS :: u64 where
  "SLOT_DURATION_SECS = 30"

definition MAX_DRAWS_PER_SLOT :: usize where
  "MAX_DRAWS_PER_SLOT = 4096"

definition RANDAO_CHAIN_LENGTH :: u32 where
  "RANDAO_CHAIN_LENGTH = 8192"

definition INACTIVITY_LEAK_THRESHOLD_EPOCHS :: u64 where
  "INACTIVITY_LEAK_THRESHOLD_EPOCHS = 4"

definition INACTIVITY_LEAK_QUOTIENT :: u128 where
  "INACTIVITY_LEAK_QUOTIENT = 64"

definition INACTIVITY_LEAK_QUOTIENT_ETH_PACED :: u128 where
  "INACTIVITY_LEAK_QUOTIENT_ETH_PACED = 2684355"

definition INACTIVITY_LEAK_RECOVERY_QUOTIENT :: u64 where
  "INACTIVITY_LEAK_RECOVERY_QUOTIENT = 16"

definition MIN_QUORUM_DENOMINATOR_NUM :: u128 where
  "MIN_QUORUM_DENOMINATOR_NUM = 1"

definition MIN_QUORUM_DENOMINATOR_DEN :: u128 where
  "MIN_QUORUM_DENOMINATOR_DEN = 2"

definition NATIVE_FINALITY_SET_PRUNE_AFTER_EPOCHS :: u64 where
  "NATIVE_FINALITY_SET_PRUNE_AFTER_EPOCHS = 90"

text \<open>A 16-byte domain tag: the ASCII text padded with zero bytes.\<close>

definition ascii :: "string \<Rightarrow> bytes" where
  "ascii s = map of_char s"

definition domain_tag :: "string \<Rightarrow> bytes" where
  "domain_tag s = ascii s @ replicate (16 - length s) 0"

definition DS_SORTITION :: bytes where
  "DS_SORTITION = domain_tag ''BLCH4:SORTIT''"

definition DS_ATTEST :: bytes where
  "DS_ATTEST = domain_tag ''BLCH4:ATTEST''"

definition DS_RANDAO :: bytes where
  "DS_RANDAO = domain_tag ''BLCH4:RANDAO''"

definition DS_NETSIG2 :: bytes where
  "DS_NETSIG2 = domain_tag ''BLCH4:NETSIG2''"

lemma length_domain_tags [simp]:
  "length DS_SORTITION = 16" "length DS_ATTEST = 16" "length DS_RANDAO = 16" "length DS_NETSIG2 = 16"
  by (simp_all add: DS_SORTITION_def DS_ATTEST_def DS_RANDAO_def DS_NETSIG2_def domain_tag_def ascii_def)

section \<open>Gates\<close>

text \<open>\<open>u64::MAX\<close> is the value of a gate that is not armed.\<close>

definition epoch_gate_active :: "u64 \<Rightarrow> u64 \<Rightarrow> bool" where
  "epoch_gate_active epoch activation = (activation \<noteq> u64_max \<and> activation \<le> epoch)"

record gates =
  leak_recovery_activation_epoch :: u64
  eth_paced_leak_activation_epoch :: u64
  frozen_finality_set_epoch :: u64
  own_target_votes_epoch :: u64
  finality_set_recovery_epochs :: "u64 list"

definition shipped_gates :: gates where
  "shipped_gates = \<lparr> leak_recovery_activation_epoch = 2880, eth_paced_leak_activation_epoch = 5700,
     frozen_finality_set_epoch = u64_max, own_target_votes_epoch = u64_max,
     finality_set_recovery_epochs = [] \<rparr>"

definition inactivity_leak_quotient :: "gates \<Rightarrow> u64 \<Rightarrow> u128" where
  "inactivity_leak_quotient g epoch =
     (if epoch_gate_active epoch (eth_paced_leak_activation_epoch g)
      then INACTIVITY_LEAK_QUOTIENT_ETH_PACED else INACTIVITY_LEAK_QUOTIENT)"

definition native_finality_set_active :: "gates \<Rightarrow> u64 \<Rightarrow> bool" where
  "native_finality_set_active g epoch = epoch_gate_active epoch (frozen_finality_set_epoch g)"

definition native_finality_set_recovery_at :: "gates \<Rightarrow> u64 \<Rightarrow> bool" where
  "native_finality_set_recovery_at g epoch = (epoch \<in> set (finality_set_recovery_epochs g))"

definition own_target_votes_active :: "gates \<Rightarrow> u64 \<Rightarrow> bool" where
  "own_target_votes_active g epoch = epoch_gate_active epoch (own_target_votes_epoch g)"

lemma inactivity_leak_quotient_ge: "64 \<le> inactivity_leak_quotient g epoch"
  by (simp add: inactivity_leak_quotient_def INACTIVITY_LEAK_QUOTIENT_def
      INACTIVITY_LEAK_QUOTIENT_ETH_PACED_def)

lemma shipped_rules_inert:
  "\<not> native_finality_set_active shipped_gates epoch" "\<not> own_target_votes_active shipped_gates epoch"
  by (simp_all add: native_finality_set_active_def own_target_votes_active_def
      epoch_gate_active_def shipped_gates_def)

end
