(* ===== verification/Attestation.thy ===== *)
theory Attestation
  imports Params
begin

text \<open>
  The vote a validator signs (\<^verbatim>\<open>bloch-pos-committee/src/attestation.rs\<close>), its signing root and
  the two slashable relations between votes.  SHA3-256 comes from the \<^verbatim>\<open>sha3\<close> crate and is the
  parameter \<open>sha3\<close> of the signing roots.
\<close>

section \<open>Data\<close>

record validator =
  index :: u32
  effective_stake :: u64

record attestation_data =
  slot :: u64
  head :: hash32
  source_epoch :: u64
  source_root :: hash32
  target_epoch :: u64
  target_root :: hash32

text \<open>The value ranges the Rust types impose on the fields.\<close>

definition attestation_data_ok :: "attestation_data \<Rightarrow> bool" where
  "attestation_data_ok d =
     (slot d \<le> u64_max \<and> source_epoch d \<le> u64_max \<and> target_epoch d \<le> u64_max
      \<and> length (head d) = 32 \<and> length (source_root d) = 32 \<and> length (target_root d) = 32)"

section \<open>Operations\<close>

definition attestation_preimage :: "attestation_data \<Rightarrow> bytes" where
  "attestation_preimage d =
     DS_ATTEST @ le_bytes 8 (slot d) @ head d @ le_bytes 8 (source_epoch d) @ source_root d
     @ le_bytes 8 (target_epoch d) @ target_root d"

definition signing_root :: "(bytes \<Rightarrow> hash32) \<Rightarrow> attestation_data \<Rightarrow> hash32" where
  "signing_root sha3 d = sha3 (attestation_preimage d)"

definition network_bound_signing_root :: "(bytes \<Rightarrow> hash32) \<Rightarrow> attestation_data \<Rightarrow> hash32 \<Rightarrow> hash32" where
  "network_bound_signing_root sha3 d network_domain =
     sha3 (DS_NETSIG2 @ network_domain @ signing_root sha3 d)"

definition surrounds :: "attestation_data \<Rightarrow> attestation_data \<Rightarrow> bool" where
  "surrounds a b = (source_epoch a < source_epoch b \<and> target_epoch b < target_epoch a)"

definition is_double_vote :: "attestation_data \<Rightarrow> attestation_data \<Rightarrow> bool" where
  "is_double_vote a b = (target_epoch a = target_epoch b \<and> a \<noteq> b)"

section \<open>Lemmas\<close>

lemma attestation_preimage_inject:
  assumes "attestation_data_ok a" "attestation_data_ok b"
    and "attestation_preimage a = attestation_preimage b"
  shows "a = b"
proof -
  have w: "n \<le> u64_max \<Longrightarrow> n < 256 ^ 8" for n
    by (simp add: u64_max_def)
  from assms have
    "le_bytes 8 (slot a) = le_bytes 8 (slot b)" "head a = head b"
    "le_bytes 8 (source_epoch a) = le_bytes 8 (source_epoch b)" "source_root a = source_root b"
    "le_bytes 8 (target_epoch a) = le_bytes 8 (target_epoch b)" "target_root a = target_root b"
    by (simp_all add: attestation_preimage_def attestation_data_ok_def)
  moreover from this assms(1,2) have
    "slot a = slot b" "source_epoch a = source_epoch b" "target_epoch a = target_epoch b"
    unfolding attestation_data_ok_def using w le_bytes_inject by blast+
  ultimately show ?thesis
    by simp
qed

text \<open>Neither relation can hold between a vote and itself; a surround is never a double vote, so an
  evidence pair has one offence.\<close>

lemma slashable_irrefl: "\<not> surrounds d d" "\<not> is_double_vote d d"
  by (simp_all add: surrounds_def is_double_vote_def)

lemma surround_not_double: "surrounds a b \<Longrightarrow> \<not> is_double_vote a b \<and> \<not> surrounds b a"
  by (auto simp: surrounds_def is_double_vote_def)

end
