(* ===== verification/Ordered_Map.thy ===== *)
theory Ordered_Map
  imports Bloch_Prelude
begin

text \<open>
  The map types of the Rust standard library as association lists.

  A \<^verbatim>\<open>BTreeMap\<close> is an association list kept strictly sorted by key: iteration is in
  key order, as in Rust, and two maps with the same bindings are the same list.  A
  \<^verbatim>\<open>HashMap\<close> is an association list with distinct keys in an arbitrary order, so a
  theorem about one speaks about every iteration order the hasher may produce.  Both satisfy the
  interface \<open>key_store\<close>, in which the lemmas the components use are proved once.
\<close>

section \<open>The sorted map\<close>

type_synonym ('k, 'v) btree_map = "('k \<times> 'v) list"

abbreviation keys_of :: "('k \<times> 'v) list \<Rightarrow> 'k list" where
  "keys_of m \<equiv> map fst m"

abbreviation values_of :: "('k \<times> 'v) list \<Rightarrow> 'v list" where
  "values_of m \<equiv> map snd m"

definition om_wf :: "('k::linorder, 'v) btree_map \<Rightarrow> bool" where
  "om_wf m = sorted_wrt (<) (keys_of m)"

fun om_insert :: "'k::linorder \<Rightarrow> 'v \<Rightarrow> ('k, 'v) btree_map \<Rightarrow> ('k, 'v) btree_map" where
  "om_insert k v [] = [(k, v)]"
| "om_insert k v (e # m) =
     (if fst e < k then e # om_insert k v m
      else if fst e = k then (k, v) # m
      else (k, v) # e # m)"

definition om_remove :: "'k::linorder \<Rightarrow> ('k, 'v) btree_map \<Rightarrow> ('k, 'v) btree_map" where
  "om_remove k m = filter (\<lambda>e. fst e \<noteq> k) m"

text \<open>\<open>get(..).copied().unwrap_or(d)\<close>\<close>

definition get_or :: "'v \<Rightarrow> ('k \<times> 'v) list \<Rightarrow> 'k \<Rightarrow> 'v" where
  "get_or d m k = (case map_of m k of None \<Rightarrow> d | Some v \<Rightarrow> v)"

text \<open>\<open>*entry(k).or_insert(d) = f(..)\<close>\<close>

definition om_entry :: "'k::linorder \<Rightarrow> 'v \<Rightarrow> ('v \<Rightarrow> 'v) \<Rightarrow> ('k, 'v) btree_map \<Rightarrow> ('k, 'v) btree_map" where
  "om_entry k d f m = om_insert k (f (get_or d m k)) m"

definition contains_key :: "('k \<times> 'v) list \<Rightarrow> 'k \<Rightarrow> bool" where
  "contains_key m k = (map_of m k \<noteq> None)"

text \<open>\<open>collect()\<close> into a map: later bindings of a key replace earlier ones.\<close>

definition om_collect :: "('k::linorder \<times> 'v) list \<Rightarrow> ('k, 'v) btree_map" where
  "om_collect xs = foldl (\<lambda>m e. om_insert (fst e) (snd e) m) [] xs"

text \<open>A \<^verbatim>\<open>BTreeSet\<close> is a strictly sorted list.\<close>

definition bs_insert :: "'k::linorder \<Rightarrow> 'k list \<Rightarrow> 'k list" where
  "bs_insert k s = (if k \<in> set s then s else insort k s)"

section \<open>Lists with distinct keys\<close>

lemma map_of_filter_distinct:
  "distinct (keys_of m) \<Longrightarrow> map_of (filter P m) k
     = (case map_of m k of None \<Rightarrow> None | Some v \<Rightarrow> if P (k, v) then Some v else None)"
proof (induction m)
  case (Cons e m)
  then have "map_of m (fst e) = None"
    by (simp add: map_of_eq_None_iff)
  with Cons show ?case
    by (auto split: option.splits)
qed simp

lemma sum_list_values_distinct:
  fixes f :: "'k \<Rightarrow> 'v \<Rightarrow> nat"
  shows "distinct (keys_of m) \<Longrightarrow>
    sum_list (map (\<lambda>e. f (fst e) (snd e)) m) = (\<Sum>k \<in> set (keys_of m). f k (the (map_of m k)))"
proof (induction m)
  case (Cons e m)
  have "(\<Sum>k \<in> set (keys_of m). f k (the (map_of (e # m) k)))
      = (\<Sum>k \<in> set (keys_of m). f k (the (map_of m k)))"
    using Cons.prems by (intro sum.cong) (auto, metis image_eqI fst_conv)
  then show ?case
    using Cons by simp
qed simp

lemma map_of_eqD:
  assumes "distinct (keys_of m)" "distinct (keys_of m')" "map_of m = map_of m'"
  shows "set m = set m'"
  using assms by (metis set_map_of_compr)

lemma get_or_simps [simp]: "get_or d [] k = d"
  by (simp add: get_or_def)

lemma contains_key_iff: "contains_key m k \<longleftrightarrow> k \<in> set (keys_of m)"
  by (simp add: contains_key_def map_of_eq_None_iff)

lemma map_of_key: "map_of m k = Some v \<Longrightarrow> k \<in> fst ` set m"
  by (force dest: map_of_SomeD)

section \<open>The interface\<close>

locale key_store =
  fixes ins :: "'k \<Rightarrow> 'v \<Rightarrow> ('k \<times> 'v) list \<Rightarrow> ('k \<times> 'v) list"
    and del :: "'k \<Rightarrow> ('k \<times> 'v) list \<Rightarrow> ('k \<times> 'v) list"
    and wf :: "('k \<times> 'v) list \<Rightarrow> bool"
  assumes wf_empty: "wf []"
    and wf_ins: "wf m \<Longrightarrow> wf (ins k v m)"
    and wf_del: "wf m \<Longrightarrow> wf (del k m)"
    and wf_filter: "wf m \<Longrightarrow> wf (filter P m)"
    and wf_distinct: "wf m \<Longrightarrow> distinct (map fst m)"
    and ins_lookup: "map_of (ins k v m) = (map_of m)(k \<mapsto> v)"
    and del_lookup: "map_of (del k m) = (map_of m)(k := None)"
begin

lemma wf_fold: "wf m \<Longrightarrow> wf (foldl (\<lambda>m e. ins (f e) (g m e) m) m xs)"
  by (induction xs arbitrary: m) (simp_all add: wf_ins)

lemma wf_del_fold: "wf m \<Longrightarrow> wf (foldl (\<lambda>m k. del k m) m ks)"
  by (induction ks arbitrary: m) (simp_all add: wf_del)

lemma del_fold_lookup:
  "map_of (foldl (\<lambda>m k. del k m) m ks) k = (if k \<in> set ks then None else map_of m k)"
  by (induction ks arbitrary: m) (auto simp: del_lookup)

lemma ins_fold_lookup:
  "map_of (foldl (\<lambda>m e. ins (fst e) (snd e) m) m xs) = map_of m ++ map_of (rev xs)"
  by (induction xs arbitrary: m) (simp_all add: ins_lookup)

lemma filter_lookup:
  "wf m \<Longrightarrow> map_of (filter P m) k
     = (case map_of m k of None \<Rightarrow> None | Some v \<Rightarrow> if P (k, v) then Some v else None)"
  by (simp add: map_of_filter_distinct wf_distinct)

lemma sum_ins:
  fixes w :: "'k \<Rightarrow> 'v \<Rightarrow> nat"
  assumes "wf m"
  shows "sum_list (map (\<lambda>e. w (fst e) (snd e)) (ins k v m)) + (case map_of m k of None \<Rightarrow> 0 | Some x \<Rightarrow> w k x)
    = sum_list (map (\<lambda>e. w (fst e) (snd e)) m) + w k v"
proof -
  let ?K = "set (map fst m)"
  let ?g = "\<lambda>x. w x (the (map_of m x))"
  have dom: "set (map fst (ins k v m)) = insert k ?K"
    using ins_lookup [of k v m] by (metis dom_map_of_conv_image_fst dom_fun_upd list.set_map option.distinct(1))
  have new: "sum_list (map (\<lambda>e. w (fst e) (snd e)) (ins k v m)) = (\<Sum>x \<in> insert k ?K. if x = k then w k v else ?g x)"
    unfolding sum_list_values_distinct [OF wf_distinct [OF wf_ins [OF assms]]] dom
    by (rule sum.cong) (auto simp: ins_lookup)
  have rest: "(\<Sum>x \<in> insert k ?K. if x = k then w k v else ?g x) = w k v + sum ?g (?K - {k})"
    by (subst sum.insert_remove) (auto intro: sum.cong)
  note old = sum_list_values_distinct [OF wf_distinct [OF assms], of w]
  show ?thesis
  proof (cases "k \<in> ?K")
    case True
    then obtain x where "map_of m k = Some x"
      by (metis map_of_eq_None_iff not_Some_eq list.set_map)
    then show ?thesis
      using True sum.remove [of ?K k ?g] unfolding new old rest by simp
  next
    case False
    then have "map_of m k = None"
      by (simp add: map_of_eq_None_iff)
    then show ?thesis
      using False unfolding new old rest by simp
  qed
qed

end

section \<open>The sorted map provides it\<close>

lemma om_insert_lookup: "map_of (om_insert k v m) = (map_of m)(k \<mapsto> v)"
  by (induction m) (auto simp: fun_eq_iff)

lemma om_remove_lookup: "map_of (om_remove k m) = (map_of m)(k := None)"
  unfolding om_remove_def by (induction m) (auto simp: fun_eq_iff)

lemma om_insert_keys: "set (keys_of (om_insert k v m)) = insert k (set (keys_of m))"
  by (induction m) auto

lemma om_wf_insert: "om_wf m \<Longrightarrow> om_wf (om_insert k v m)"
  unfolding om_wf_def
proof (induction m)
  case (Cons e m)
  then show ?case
    using om_insert_keys [of k v m] by (auto simp del: set_map)
qed simp

lemma om_wf_filter: "om_wf m \<Longrightarrow> om_wf (filter P m)"
  unfolding om_wf_def by (induction m) auto

interpretation om: key_store om_insert om_remove "om_wf :: ('k::linorder \<times> 'v) list \<Rightarrow> bool"
proof
  show "om_wf m \<Longrightarrow> om_wf (om_remove k m)" for k and m :: "('k \<times> 'v) list"
    by (simp add: om_remove_def om_wf_filter)
  show "om_wf m \<Longrightarrow> distinct (keys_of m)" for m :: "('k \<times> 'v) list"
    using strict_sorted_iff by (auto simp: om_wf_def)
qed (simp_all add: om_wf_insert om_wf_filter om_insert_lookup om_remove_lookup, simp add: om_wf_def)

text \<open>The \<^verbatim>\<open>HashMap\<close> operations are those of \<open>HOL-Library.AList\<close>.\<close>

definition hm_wf :: "('k \<times> 'v) list \<Rightarrow> bool" where
  "hm_wf m = distinct (keys_of m)"

interpretation hm: key_store AList.update AList.delete hm_wf
proof
  show "hm_wf m \<Longrightarrow> hm_wf (filter P m)" for P and m :: "('k \<times> 'v) list"
    by (simp add: hm_wf_def distinct_map_filter)
  show "hm_wf m \<Longrightarrow> hm_wf (AList.delete k m)" for k and m :: "('k \<times> 'v) list"
    by (simp add: hm_wf_def distinct_delete)
qed (auto simp: hm_wf_def distinct_update update_conv' delete_conv')

text \<open>A sorted map is determined by its bindings: this is what makes results computed from it
  independent of the order in which the bindings arrived.\<close>

lemma rebuild_from_keys: "distinct (keys_of m) \<Longrightarrow> map (\<lambda>k. (k, the (map_of m k))) (keys_of m) = m"
  unfolding map_map by (rule map_idI) auto

lemma om_ext:
  assumes "om_wf m" "om_wf m'" "map_of m = map_of m'"
  shows "m = m'"
proof -
  have "set (keys_of m) = set (keys_of m')"
    using arg_cong [OF assms(3), of dom] by (simp add: dom_map_of_conv_image_fst)
  then have "keys_of m = keys_of m'"
    using assms(1,2) strict_sorted_equal unfolding om_wf_def by blast
  then show ?thesis
    using rebuild_from_keys [OF om.wf_distinct [OF assms(1)]]
      rebuild_from_keys [OF om.wf_distinct [OF assms(2)]] assms(3) by metis
qed

lemma om_wf_collect: "om_wf (om_collect xs)"
  unfolding om_collect_def by (rule om.wf_fold) (simp add: om.wf_empty)

lemma om_collect_lookup: "map_of (om_collect xs) = map_of (rev xs)"
  unfolding om_collect_def by (simp add: om.ins_fold_lookup)

lemma om_entry_lookup: "map_of (om_entry k d f m) = (map_of m)(k \<mapsto> f (get_or d m k))"
  by (simp add: om_entry_def om_insert_lookup)

lemma get_or_entry: "get_or d (om_entry k d' f m) r = (if r = k then f (get_or d' m k) else get_or d m r)"
  by (simp add: get_or_def om_entry_lookup)

lemma get_or_insert: "get_or d (om_insert k v m) r = (if r = k then v else get_or d m r)"
  by (simp add: get_or_def om_insert_lookup)

lemma om_wf_entry: "om_wf m \<Longrightarrow> om_wf (om_entry k d f m)"
  by (simp add: om_entry_def om_wf_insert)

lemma set_bs_insert [simp]: "set (bs_insert k s) = insert k (set s)"
  by (auto simp: bs_insert_def set_insort_key)

lemma bs_insert_strict: "sorted_wrt (<) s \<Longrightarrow> sorted_wrt (<) (bs_insert k s)"
  by (auto simp: bs_insert_def strict_sorted_iff sorted_insort distinct_insort)

lemma om_fold_sum_le:
  fixes w :: "'v \<Rightarrow> nat"
  shows "om_wf m \<Longrightarrow> sum_list (map w (values_of (foldl (\<lambda>m e. om_insert (fst e) (snd e) m) m xs)))
    \<le> sum_list (map w (values_of m)) + sum_list (map (\<lambda>e. w (snd e)) xs)"
proof (induction xs arbitrary: m)
  case (Cons e xs)
  have "sum_list (map w (values_of (om_insert (fst e) (snd e) m))) \<le> sum_list (map w (values_of m)) + w (snd e)"
    using om.sum_ins [OF Cons.prems, of "\<lambda>_. w" "fst e" "snd e"] by (simp add: o_def)
  then show ?case
    using Cons.IH [OF om_wf_insert [OF Cons.prems, of "fst e" "snd e"]] by simp
qed simp

lemma om_collect_sum_le:
  fixes w :: "'v \<Rightarrow> nat"
  shows "sum_list (map w (values_of (om_collect xs))) \<le> sum_list (map (\<lambda>e. w (snd e)) xs)"
  unfolding om_collect_def using om_fold_sum_le [OF om.wf_empty, of w xs] by simp

lemma om_collect_keys: "set (keys_of (om_collect xs)) = fst ` set xs"
  using arg_cong [OF om_collect_lookup [of xs], of dom] by (simp add: dom_map_of_conv_image_fst)

lemma om_collect_contains: "contains_key (om_collect xs) k \<longleftrightarrow> k \<in> fst ` set xs"
  using om_collect_keys [of xs] by (simp add: contains_key_iff)

lemma om_collect_mem: "map_of (om_collect xs) k = Some v \<Longrightarrow> (k, v) \<in> set xs"
  by (auto simp: om_collect_lookup dest: map_of_SomeD)

text \<open>Weights looked up through a map never exceed the sum of its values.\<close>

lemma sum_get_or_le: "(\<Sum>k \<in> set (keys_of m). get_or 0 m k) \<le> sum_list (values_of m :: nat list)"
proof (induction m)
  case (Cons e m)
  have "(\<Sum>k \<in> set (keys_of (e # m)). get_or 0 (e # m) k)
      = snd e + (\<Sum>k \<in> set (keys_of m) - {fst e}. get_or 0 (e # m) k)"
    by (simp add: sum.insert_remove get_or_def)
  also have "\<dots> = snd e + (\<Sum>k \<in> set (keys_of m) - {fst e}. get_or 0 m k)"
    by (intro arg_cong2 [where f = "(+)"] sum.cong) (auto simp: get_or_def)
  also have "\<dots> \<le> snd e + (\<Sum>k \<in> set (keys_of m). get_or 0 m k)"
    by (simp add: sum_mono2)
  finally show ?case
    using Cons.IH by simp
qed simp

lemma sum_values_distinct:
  "distinct (keys_of m) \<Longrightarrow> sum_list (values_of m) = (\<Sum>k \<in> set (keys_of m). get_or 0 m k :: nat)"
  using sum_list_values_distinct [of m "\<lambda>_ v. v"]
  by (simp add: get_or_def) (intro sum.cong, auto simp: map_of_eq_None_iff split: option.splits)

lemmas om_wf_intros = om.wf_empty om_wf_insert om_wf_entry om_wf_collect om_wf_filter om.wf_del
  om.wf_del_fold

end
