(* ===== verification/Quorum.thy ===== *)
theory Quorum
  imports Bloch_Prelude
begin

text \<open>
  The interface every voting rule of the program offers: weights over a finite set of members and
  a test that only weights of at least two thirds of the total pass.  What consensus needs of it
  is that two passing sets of voters overlap, in at least a third of the total weight.
\<close>

locale two_thirds_quorum =
  fixes members :: "'a set" and weight :: "'a \<Rightarrow> nat" and enough :: "nat \<Rightarrow> bool"
  assumes finite_members: "finite members"
    and enough_two_thirds: "enough w \<Longrightarrow> 2 * sum weight members \<le> 3 * w"
    and enough_positive: "enough w \<Longrightarrow> 0 < w"
begin

lemma overlap_weight:
  assumes "A \<subseteq> members" "B \<subseteq> members"
    and "enough (sum weight A)" "enough (sum weight B)"
  shows "sum weight members \<le> 3 * sum weight (A \<inter> B)"
proof -
  have fin: "finite A" "finite B"
    using assms finite_members by (auto dest: finite_subset)
  have "sum weight A + sum weight B = sum weight (A \<union> B) + sum weight (A \<inter> B)"
    using fin by (simp add: sum.union_inter)
  moreover have "sum weight (A \<union> B) \<le> sum weight members"
    using assms finite_members by (intro sum_mono2) auto
  ultimately show ?thesis
    using enough_two_thirds [OF assms(3)] enough_two_thirds [OF assms(4)] by linarith
qed

lemma overlap_nonempty:
  assumes "A \<subseteq> members" "B \<subseteq> members"
    and "enough (sum weight A)" "enough (sum weight B)"
  shows "A \<inter> B \<noteq> {}"
proof
  assume "A \<inter> B = {}"
  then have "sum weight members = 0"
    using overlap_weight [OF assms] by simp
  moreover have "sum weight A \<le> sum weight members"
    using assms finite_members by (intro sum_mono2) auto
  ultimately show False
    using enough_positive [OF assms(3)] by simp
qed

end

end
