(* ===== verification/Finality.thy ===== *)
theory Finality
  imports Attestation Ordered_Map Quorum
begin

text \<open>
  Justification and finality: the Casper-style gadget of
  \<^verbatim>\<open>bloch-pos-committee/src/finality.rs\<close>.  The state is a record with the fields of
  \<^verbatim>\<open>FinalityState\<close>; \<open>process_epoch\<close> is the fold step, written as the composition of the phases
  the source marks (stakes and denominator, vote collection, tally, justification, the frozen
  finality set, leak, recovery).  The mutation switches of test builds are constants of the
  release build and do not appear.
\<close>

section \<open>Data\<close>

record checkpoint =
  epoch :: u64
  root :: hash32

record epoch_votes =
  votes_epoch :: u64
  active_set :: "validator list"
  attestations :: "(u32 \<times> attestation_data) list"

record epoch_outcome =
  outcome_justified :: "checkpoint option"
  outcome_finalized :: "checkpoint option"
  outcome_equivocators :: "u32 list"

text \<open>\<open>Panic\<close> is the overflow panic of the release build; the other constructor is the variant of
  the source.\<close>

datatype finality_error = OutOfOrderEpoch u64 u64 | Panic

record finality_set =
  set_epoch :: u64
  members :: "(u32, u64) btree_map"

definition total :: "finality_set \<Rightarrow> u128" where
  "total fs = sum_list (values_of (members fs))"

record finality_set_state =
  current :: finality_set
  pending :: "finality_set option"
  last_seen :: "(u32, u64) btree_map"

record finality_state =
  justified :: "(u64, hash32) btree_map"
  current_justified :: checkpoint
  finalized :: checkpoint
  leaked :: "(u32, u64) btree_map"
  next_epoch :: u64
  frozen_set :: "finality_set_state option"
  own_checkpoints :: "(u64, hash32) btree_map"

section \<open>Construction and accessors\<close>

definition new_state :: "checkpoint \<Rightarrow> finality_error + finality_state" where
  "new_state genesis =
     (case checked_add u64_max (epoch genesis) 1 of
        None \<Rightarrow> Inl Panic
      | Some n \<Rightarrow> Inr \<lparr> justified = [(epoch genesis, root genesis)], current_justified = genesis,
          finalized = genesis, leaked = [], next_epoch = n, frozen_set = None, own_checkpoints = [] \<rparr>)"

definition is_justified :: "finality_state \<Rightarrow> checkpoint \<Rightarrow> bool" where
  "is_justified st cp = (map_of (justified st) (epoch cp) = Some (root cp))"

definition leaked_of :: "finality_state \<Rightarrow> u32 \<Rightarrow> u64" where
  "leaked_of st v = get_or 0 (leaked st) v"

definition record_own_checkpoint :: "finality_state \<Rightarrow> u64 \<Rightarrow> hash32 \<Rightarrow> finality_state" where
  "record_own_checkpoint st e r =
     st\<lparr>own_checkpoints := filter (\<lambda>(k, _). k = e \<or> k = epoch (current_justified st))
          (om_insert e r (own_checkpoints st))\<rparr>"

section \<open>The phases of an epoch\<close>

text \<open>Leak-adjusted stake per member of the active set.\<close>

definition adjusted_stake :: "finality_state \<Rightarrow> epoch_votes \<Rightarrow> (u32, u64) btree_map" where
  "adjusted_stake st votes =
     om_collect (map (\<lambda>v. (index v, saturating_sub (effective_stake v) (leaked_of st (index v))))
       (active_set votes))"

definition unleaked_total :: "epoch_votes \<Rightarrow> u128" where
  "unleaked_total votes = sum_list (map effective_stake (active_set votes))"

definition quorum_denominator :: "gates \<Rightarrow> epoch_votes \<Rightarrow> (u32, u64) btree_map \<Rightarrow> u128" where
  "quorum_denominator g votes stake =
     (let leak_adjusted = sum_list (values_of stake) in
      if votes_epoch votes < leak_recovery_activation_epoch g then leak_adjusted
      else max leak_adjusted
        (unleaked_total votes * MIN_QUORUM_DENOMINATOR_NUM div MIN_QUORUM_DENOMINATOR_DEN))"

text \<open>The frozen finality set (gated).\<close>

definition snapshot :: "epoch_votes \<Rightarrow> (u32, u64) btree_map \<Rightarrow> finality_set" where
  "snapshot votes seen =
     \<lparr> set_epoch = votes_epoch votes,
       members = om_collect (map (\<lambda>v. (index v, effective_stake v))
         (filter (\<lambda>v. 0 < effective_stake v \<and>
            saturating_sub (votes_epoch votes) (get_or (votes_epoch votes) seen (index v))
              < NATIVE_FINALITY_SET_PRUNE_AFTER_EPOCHS)
          (active_set votes))) \<rparr>"

definition open_finality_set :: "gates \<Rightarrow> epoch_votes \<Rightarrow> finality_state \<Rightarrow> finality_state" where
  "open_finality_set g votes st =
     (case frozen_set st of
        None \<Rightarrow> st\<lparr>frozen_set := Some \<lparr> current = snapshot votes [], pending = None, last_seen = [] \<rparr>\<rparr>
      | Some fs \<Rightarrow>
          if native_finality_set_recovery_at g (votes_epoch votes)
          then st\<lparr>frozen_set := Some (fs\<lparr>current := snapshot votes (last_seen fs), pending := None\<rparr>)\<rparr>
          else st)"

definition note_presence :: "u64 \<Rightarrow> u32 list \<Rightarrow> u32 list \<Rightarrow> (u32, u64) btree_map \<Rightarrow> (u32, u64) btree_map" where
  "note_presence e roster present seen =
     foldl (\<lambda>m v. if v \<in> set present then om_insert v e m else om_entry v e id m)
       (filter (\<lambda>(v, _). v \<in> set roster) seen) roster"

definition close_finality_set ::
  "epoch_votes \<Rightarrow> checkpoint option \<Rightarrow> u32 list \<Rightarrow> finality_state \<Rightarrow> finality_state" where
  "close_finality_set votes finalized_now present st =
     (case frozen_set st of
        None \<Rightarrow> st
      | Some fs \<Rightarrow>
          let cur = (case (finalized_now, pending fs) of
                (Some f, Some p) \<Rightarrow> if set_epoch p = epoch f then p else current fs
              | _ \<Rightarrow> current fs);
              roster = foldl (\<lambda>s v. bs_insert (index v) s) [] (active_set votes);
              seen = note_presence (votes_epoch votes) roster present (last_seen fs)
          in st\<lparr>frozen_set := Some \<lparr> current = cur, pending = Some (snapshot votes seen),
                   last_seen = seen \<rparr>\<rparr>)"

text \<open>Vote collection.  A second, different vote for the target epoch makes its author an
  equivocator, who is dropped from the votes.\<close>

definition collect_vote ::
  "u64 \<Rightarrow> (u32, u64) btree_map \<Rightarrow> (u32, attestation_data) btree_map \<times> u32 list
    \<Rightarrow> u32 \<times> attestation_data \<Rightarrow> (u32, attestation_data) btree_map \<times> u32 list" where
  "collect_vote e stake acc va =
     (let (first_vote, equivocators) = acc; (v, data) = va in
      if \<not> contains_key stake v then acc
      else if target_epoch data \<noteq> e then acc
      else (case map_of first_vote v of
              None \<Rightarrow> (om_insert v data first_vote, equivocators)
            | Some prev \<Rightarrow>
                if prev \<noteq> data then (first_vote, bs_insert v equivocators) else acc))"

definition collect_votes ::
  "epoch_votes \<Rightarrow> (u32, u64) btree_map \<Rightarrow> (u32, attestation_data) btree_map \<times> u32 list" where
  "collect_votes votes stake =
     (let (first_vote, equivocators) =
            foldl (collect_vote (votes_epoch votes) stake) ([], []) (attestations votes)
      in (foldl (\<lambda>m v. om_remove v m) first_vote equivocators, equivocators))"

definition valid_votes ::
  "gates \<Rightarrow> finality_state \<Rightarrow> epoch_votes \<Rightarrow> (u32, attestation_data) btree_map
    \<Rightarrow> (u32, attestation_data) btree_map" where
  "valid_votes g st votes first_vote =
     (let source = current_justified st;
          linked = filter (\<lambda>(_, d). source_epoch d = epoch source \<and> source_root d = root source
                     \<and> source_epoch d < target_epoch d) first_vote;
          own_target = map_of (own_checkpoints st) (votes_epoch votes);
          own_source = map_of (own_checkpoints st) (epoch source)
      in if own_target_votes_active g (votes_epoch votes)
         then filter (\<lambda>(_, d). Some (target_root d) = own_target
                \<and> (case own_source of None \<Rightarrow> True | Some r \<Rightarrow> r = source_root d)) linked
         else linked)"

definition source_is_own :: "gates \<Rightarrow> finality_state \<Rightarrow> epoch_votes \<Rightarrow> bool" where
  "source_is_own g st votes =
     (\<not> own_target_votes_active g (votes_epoch votes)
      \<or> map_of (own_checkpoints st) (epoch (current_justified st)) = Some (root (current_justified st)))"

text \<open>Tally and quorum.  A voter outside the frozen set weighs zero.\<close>

definition vote_weight :: "bool \<Rightarrow> finality_state \<Rightarrow> (u32, u64) btree_map \<Rightarrow> u32 \<Rightarrow> u64" where
  "vote_weight frozen st stake v =
     (case frozen_set st of
        Some fs \<Rightarrow> if frozen then get_or 0 (members (current fs)) v else get_or 0 stake v
      | None \<Rightarrow> get_or 0 stake v)"

definition tally_votes ::
  "(u32 \<Rightarrow> u64) \<Rightarrow> (u32, attestation_data) btree_map \<Rightarrow> (hash32, u128) btree_map" where
  "tally_votes w valid =
     foldl (\<lambda>t (v, d). om_entry (target_root d) 0 (\<lambda>x. x + w v) t) [] valid"

definition reaches_quorum :: "u128 \<Rightarrow> u128 \<Rightarrow> bool" where
  "reaches_quorum total_active w = (0 < total_active \<and> total_active * 2 \<le> w * 3)"

definition find_justified :: "u64 \<Rightarrow> u128 \<Rightarrow> (hash32, u128) btree_map \<Rightarrow> checkpoint option" where
  "find_justified e total_active tally =
     map_option (\<lambda>(r, _). \<lparr> epoch = e, root = r \<rparr>)
       (find (\<lambda>(_, w). reaches_quorum total_active w) tally)"

text \<open>Justification and the consecutive-link finality rule.\<close>

definition apply_justification ::
  "bool \<Rightarrow> checkpoint option \<Rightarrow> finality_state \<Rightarrow> finality_state \<times> checkpoint option" where
  "apply_justification src_own justified_now st =
     (case justified_now of
        None \<Rightarrow> (st, None)
      | Some cp \<Rightarrow>
          let source = current_justified st;
              st1 = st\<lparr>justified := om_insert (epoch cp) (root cp) (justified st)\<rparr>;
              st2 = (if epoch (current_justified st1) < epoch cp
                     then st1\<lparr>current_justified := cp\<rparr> else st1)
          in if checked_add u64_max (epoch source) 1 = Some (epoch cp)
                \<and> epoch (finalized st2) < epoch source \<and> src_own
             then (st2\<lparr>finalized := source\<rparr>, Some source) else (st2, None))"

text \<open>The inactivity leak.  \<open>as u64\<close> keeps the low 64 bits of the quotient.\<close>

definition leak_bite :: "gates \<Rightarrow> u64 \<Rightarrow> u128 \<Rightarrow> u64 \<Rightarrow> u64" where
  "leak_bite g e t remaining =
     min (max (remaining * t div inactivity_leak_quotient g e) 1 mod (u64_max + 1)) remaining"

definition leak_one ::
  "gates \<Rightarrow> u64 \<Rightarrow> u128 \<Rightarrow> (u32, u64) btree_map \<Rightarrow> (u32, attestation_data) btree_map
    \<Rightarrow> (u32, u64) btree_map option \<Rightarrow> validator \<Rightarrow> (u32, u64) btree_map option" where
  "leak_one g e t stake valid acc v = do {
     lk \<leftarrow> acc;
     if contains_key valid (index v) then Some lk
     else do {
       remaining \<leftarrow> map_of stake (index v);
       if remaining = 0 then Some lk
       else do {
         x \<leftarrow> checked_add u64_max (get_or 0 lk (index v)) (leak_bite g e t remaining);
         Some (om_insert (index v) x lk)
       }
     }
   }"

definition is_leaking :: "finality_state \<Rightarrow> u64 \<Rightarrow> bool" where
  "is_leaking st e = (INACTIVITY_LEAK_THRESHOLD_EPOCHS < saturating_sub e (epoch (finalized st)))"

definition leak_phase ::
  "gates \<Rightarrow> epoch_votes \<Rightarrow> (u32, u64) btree_map \<Rightarrow> (u32, attestation_data) btree_map
    \<Rightarrow> finality_state \<Rightarrow> (u32, u64) btree_map option" where
  "leak_phase g votes stake valid st =
     (let e = votes_epoch votes in
      if is_leaking st e
      then foldl (leak_one g e (e - epoch (finalized st) - INACTIVITY_LEAK_THRESHOLD_EPOCHS) stake valid)
             (Some (leaked st)) (active_set votes)
      else Some (leaked st))"

text \<open>Leak recovery (gated): drained entries are removed, not kept at zero.\<close>

definition recovery_step :: "u64 \<Rightarrow> u64" where
  "recovery_step l = l - min (max (l div INACTIVITY_LEAK_RECOVERY_QUOTIENT) 1) l"

definition recover_one ::
  "bool \<Rightarrow> (u32, attestation_data) btree_map \<Rightarrow> (u32, u64) btree_map \<times> u32 list \<Rightarrow> validator
    \<Rightarrow> (u32, u64) btree_map \<times> u32 list" where
  "recover_one leaking valid acc v =
     (let (lk, drained) = acc; i = index v in
      if leaking \<and> \<not> contains_key valid i then acc
      else (case map_of lk i of
              None \<Rightarrow> acc
            | Some l \<Rightarrow> (om_insert i (recovery_step l) lk,
                         if recovery_step l = 0 then drained @ [i] else drained)))"

definition recovery_phase ::
  "gates \<Rightarrow> epoch_votes \<Rightarrow> bool \<Rightarrow> (u32, attestation_data) btree_map
    \<Rightarrow> (u32, u64) btree_map \<Rightarrow> (u32, u64) btree_map" where
  "recovery_phase g votes leaking valid lk =
     (if leak_recovery_activation_epoch g \<le> votes_epoch votes
      then (let (lk', drained) = foldl (recover_one leaking valid) (lk, []) (active_set votes)
            in foldl (\<lambda>m i. om_remove i m) lk' drained)
      else lk)"

section \<open>The fold step and the fold\<close>

definition epoch_opened :: "gates \<Rightarrow> finality_state \<Rightarrow> epoch_votes \<Rightarrow> finality_state" where
  "epoch_opened g st votes =
     (if native_finality_set_active g (votes_epoch votes) then open_finality_set g votes st else st)"

definition epoch_denominator ::
  "gates \<Rightarrow> finality_state \<Rightarrow> epoch_votes \<Rightarrow> (u32, u64) btree_map \<Rightarrow> u128" where
  "epoch_denominator g st votes stake =
     (case (frozen_set st, native_finality_set_active g (votes_epoch votes)) of
        (Some fs, True) \<Rightarrow> total (current fs)
      | _ \<Rightarrow> quorum_denominator g votes stake)"

definition epoch_body ::
  "gates \<Rightarrow> finality_state \<Rightarrow> epoch_votes \<Rightarrow> finality_error + finality_state \<times> epoch_outcome" where
  "epoch_body g st votes =
     (let stake = adjusted_stake st votes;
          frozen = native_finality_set_active g (votes_epoch votes);
          st1 = epoch_opened g st votes;
          (first_vote, equivocators) = collect_votes votes stake;
          present = (if frozen then keys_of first_vote else []);
          valid = valid_votes g st1 votes first_vote;
          justified_now = find_justified (votes_epoch votes) (epoch_denominator g st1 votes stake)
              (tally_votes (vote_weight frozen st1 stake) valid);
          (st2, finalized_now) = apply_justification (source_is_own g st1 votes) justified_now st1;
          st3 = (if frozen then close_finality_set votes finalized_now present st2 else st2)
      in case leak_phase g votes stake valid st3 of
           None \<Rightarrow> Inl Panic
         | Some lk \<Rightarrow>
             Inr (st3\<lparr>leaked := recovery_phase g votes (is_leaking st3 (votes_epoch votes)) valid lk\<rparr>,
               \<lparr> outcome_justified = justified_now, outcome_finalized = finalized_now,
                 outcome_equivocators = equivocators \<rparr>))"

definition process_epoch ::
  "gates \<Rightarrow> finality_state \<Rightarrow> epoch_votes \<Rightarrow> finality_error + finality_state \<times> epoch_outcome" where
  "process_epoch g st votes =
     (if votes_epoch votes \<noteq> next_epoch st
      then Inl (OutOfOrderEpoch (votes_epoch votes) (next_epoch st))
      else (case checked_add u64_max (next_epoch st) 1 of
              None \<Rightarrow> Inl Panic
            | Some n \<Rightarrow> epoch_body g (st\<lparr>next_epoch := n\<rparr>) votes))"

definition fold_step :: "gates \<Rightarrow> finality_state \<Rightarrow> epoch_votes \<Rightarrow> finality_error + finality_state" where
  "fold_step g st votes = map_sum id fst (process_epoch g st votes)"

definition from_history ::
  "gates \<Rightarrow> checkpoint \<Rightarrow> epoch_votes list \<Rightarrow> finality_error + finality_state" where
  "from_history g genesis history =
     (case new_state genesis of Inl e \<Rightarrow> Inl e | Inr st \<Rightarrow> run_until_error (fold_step g) st history)"

section \<open>Stakes and votes\<close>

definition epoch_indices :: "epoch_votes \<Rightarrow> u32 set" where
  "epoch_indices votes = index ` set (active_set votes)"

lemma om_wf_adjusted_stake [simp]: "om_wf (adjusted_stake st votes)"
  by (simp add: adjusted_stake_def om_wf_collect)

lemma adjusted_stake_contains: "contains_key (adjusted_stake st votes) v \<longleftrightarrow> v \<in> epoch_indices votes"
  by (auto simp: adjusted_stake_def om_collect_contains epoch_indices_def image_iff)

lemma adjusted_stake_le:
  "map_of (adjusted_stake st votes) i = Some r \<Longrightarrow>
     \<exists>v \<in> set (active_set votes). index v = i \<and> r = effective_stake v - leaked_of st i"
  unfolding adjusted_stake_def by (auto dest!: om_collect_mem)

lemma adjusted_total_le: "sum_list (values_of (adjusted_stake st votes)) \<le> unleaked_total votes"
proof -
  have "sum_list (values_of (adjusted_stake st votes))
      \<le> sum_list (map (\<lambda>v. effective_stake v - leaked_of st (index v)) (active_set votes))"
    unfolding adjusted_stake_def
    using om_collect_sum_le [of "\<lambda>x. x" "map (\<lambda>v. (index v, effective_stake v - leaked_of st (index v))) (active_set votes)"]
    by (simp add: o_def)
  also have "\<dots> \<le> unleaked_total votes"
    unfolding unleaked_total_def by (rule sum_list_map_le) simp
  finally show ?thesis .
qed

lemma adjusted_le_denominator: "sum_list (values_of stake) \<le> quorum_denominator g votes stake"
  by (simp add: quorum_denominator_def Let_def)

text \<open>The votes of one validator that are about the epoch: no other vote can matter.\<close>

definition votes_about :: "u64 \<Rightarrow> (u32 \<times> attestation_data) set \<Rightarrow> u32 \<Rightarrow> attestation_data set" where
  "votes_about e A v = {d. (v, d) \<in> A \<and> target_epoch d = e}"

lemma votes_about_empty [simp]: "votes_about e {} v = {}"
  by (simp add: votes_about_def)

lemma votes_about_insert:
  "votes_about e (insert (u, d) A) v
     = (if v = u \<and> target_epoch d = e then insert d (votes_about e A v) else votes_about e A v)"
  by (auto simp: votes_about_def)

text \<open>What vote collection knows of one validator whose votes about the epoch are \<open>R\<close>.\<close>

definition collected_of :: "bool \<Rightarrow> attestation_data set \<Rightarrow> attestation_data option \<Rightarrow> bool \<Rightarrow> bool" where
  "collected_of member R vote barred \<longleftrightarrow>
     (vote = None \<longleftrightarrow> \<not> member \<or> R = {}) \<and> (\<forall>d. vote = Some d \<longrightarrow> d \<in> R) \<and>
     (barred \<longleftrightarrow> member \<and> (\<exists>d \<in> R. \<exists>d' \<in> R. d \<noteq> d'))"

definition collected ::
  "u64 \<Rightarrow> (u32, u64) btree_map \<Rightarrow> (u32 \<times> attestation_data) set
    \<Rightarrow> (u32, attestation_data) btree_map \<Rightarrow> u32 list \<Rightarrow> bool" where
  "collected e stake A fv eq \<longleftrightarrow> om_wf fv \<and> sorted_wrt (<) eq \<and>
     (\<forall>v. collected_of (contains_key stake v) (votes_about e A v) (map_of fv v) (v \<in> set eq))"

lemma collected_of_first: "collected_of True {} None b \<Longrightarrow> collected_of True {d} (Some d) b"
  by (auto simp: collected_of_def)

lemma collected_of_again:
  "collected_of True R (Some p) b \<Longrightarrow> collected_of True (insert d R) (Some p) (b \<or> p \<noteq> d)"
  unfolding collected_of_def by (metis insert_iff insert_not_empty option.distinct(1) option.inject)

lemma collected_of_single:
  assumes "collected_of member R vote barred"
  shows "(if barred then None else vote) = Some d \<longleftrightarrow> member \<and> R = {d}"
proof (cases vote)
  case None
  then show ?thesis
    using assms by (auto simp: collected_of_def)
next
  case (Some p)
  then have "member" "p \<in> R" "barred \<longleftrightarrow> (\<exists>d \<in> R. \<exists>d' \<in> R. d \<noteq> d')"
    using assms by (auto simp: collected_of_def)
  then show ?thesis
    using Some by (cases barred) auto
qed

lemma collected_step:
  assumes inv: "collected e stake A fv eq"
    and step: "collect_vote e stake (fv, eq) (u, d) = (fv', eq')"
  shows "collected e stake (insert (u, d) A) fv' eq'"
proof (cases "contains_key stake u \<and> target_epoch d = e")
  case False
  then have "fv' = fv" "eq' = eq"
    using step by (auto simp: collect_vote_def split: if_splits)
  moreover have "collected_of (contains_key stake v) (votes_about e (insert (u, d) A) v) (map_of fv v) (v \<in> set eq)" for v
    using inv False by (cases "v = u") (auto simp: collected_def collected_of_def votes_about_insert)
  ultimately show ?thesis
    using inv by (simp add: collected_def)
next
  case rel: True
  have at: "collected_of True (votes_about e A u) (map_of fv u) (u \<in> set eq)"
    using inv rel unfolding collected_def by metis
  have other: "collected_of (contains_key stake v) (votes_about e (insert (u, d) A) v) (map_of fv v) (v \<in> set eq)"
    if "v \<noteq> u" for v
    using inv that by (simp add: collected_def votes_about_insert)
  show ?thesis
  proof (cases "map_of fv u")
    case None
    then have "fv' = om_insert u d fv" "eq' = eq" "votes_about e A u = {}"
      using step rel at by (auto simp: collect_vote_def collected_of_def)
    then show ?thesis
      using inv other rel at None collected_of_first
      by (auto simp: collected_def om_insert_lookup om_wf_insert votes_about_insert)
  next
    case (Some p)
    then have "fv' = fv" "eq' = (if p \<noteq> d then bs_insert u eq else eq)"
      using step rel by (auto simp: collect_vote_def split: if_splits)
    moreover have "collected_of True (insert d (votes_about e A u)) (Some p) (u \<in> set eq \<or> p \<noteq> d)"
      using at Some by (intro collected_of_again) simp
    ultimately show ?thesis
      using inv other rel Some
      by (auto simp: collected_def bs_insert_strict votes_about_insert)
  qed
qed

lemma collected_fold: "collected e stake A fv eq \<Longrightarrow>
  foldl (collect_vote e stake) (fv, eq) atts = (fv', eq') \<Longrightarrow> collected e stake (A \<union> set atts) fv' eq'"
proof (induction atts arbitrary: A fv eq)
  case (Cons va atts)
  obtain u d where va: "va = (u, d)"
    by (cases va)
  obtain fv1 eq1 where one: "collect_vote e stake (fv, eq) (u, d) = (fv1, eq1)"
    by fastforce
  show ?case
    using Cons.IH [OF collected_step [OF Cons.prems(1) one]] Cons.prems(2) one va by simp
qed simp

lemma collect_votes_spec:
  assumes "collect_votes votes stake = (fv, eq)"
  shows "om_wf fv" "sorted_wrt (<) eq"
    and "map_of fv v = Some d \<longleftrightarrow>
      contains_key stake v \<and> votes_about (votes_epoch votes) (set (attestations votes)) v = {d}"
    and "v \<in> set eq \<longleftrightarrow> contains_key stake v \<and>
      (\<exists>d \<in> votes_about (votes_epoch votes) (set (attestations votes)) v.
       \<exists>d' \<in> votes_about (votes_epoch votes) (set (attestations votes)) v. is_double_vote d d')"
proof -
  let ?R = "votes_about (votes_epoch votes) (set (attestations votes))"
  obtain fv0 where fold: "foldl (collect_vote (votes_epoch votes) stake) ([], []) (attestations votes) = (fv0, eq)"
    and fv: "fv = foldl (\<lambda>m v. om_remove v m) fv0 eq"
    using assms by (auto simp: collect_votes_def split: prod.splits)
  have "collected (votes_epoch votes) stake {} [] []"
    by (simp add: collected_def collected_of_def om.wf_empty)
  from collected_fold [OF this fold]
  have col: "om_wf fv0" "sorted_wrt (<) eq"
    "\<And>v. collected_of (contains_key stake v) (?R v) (map_of fv0 v) (v \<in> set eq)"
    by (simp_all add: collected_def)
  then show "om_wf fv" "sorted_wrt (<) eq"
    by (simp_all add: fv om.wf_del_fold)
  have target: "d \<in> ?R v \<Longrightarrow> target_epoch d = votes_epoch votes" for d
    by (simp add: votes_about_def)
  show "v \<in> set eq \<longleftrightarrow> contains_key stake v \<and> (\<exists>d \<in> ?R v. \<exists>d' \<in> ?R v. is_double_vote d d')"
    using col(3) [of v] target by (auto simp: collected_of_def is_double_vote_def)
  have "map_of fv v = (if v \<in> set eq then None else map_of fv0 v)"
    by (simp add: fv om.del_fold_lookup)
  then show "map_of fv v = Some d \<longleftrightarrow> contains_key stake v \<and> ?R v = {d}"
    using collected_of_single [OF col(3) [of v]] by simp
qed

lemma collect_votes_cong:
  assumes "set (attestations a) = set (attestations b)" "votes_epoch a = votes_epoch b"
  shows "collect_votes a stake = collect_votes b stake"
proof -
  obtain fa ea fb eb where ab: "collect_votes a stake = (fa, ea)" "collect_votes b stake = (fb, eb)"
    by fastforce
  note A = collect_votes_spec [OF ab(1)] and B = collect_votes_spec [OF ab(2)]
  have "map_of fa v = map_of fb v" for v
  proof (cases "map_of fa v")
    case None
    then show ?thesis
      using A(3) [of v] B(3) [of v] assms by (cases "map_of fb v") auto
  next
    case (Some d)
    then show ?thesis
      using A(3) [of v d] B(3) [of v d] assms by auto
  qed
  then have "fa = fb"
    using A(1) B(1) by (intro om_ext) auto
  moreover have "set ea = set eb"
    using A(4) B(4) assms by auto
  then have "ea = eb"
    using A(2) B(2) strict_sorted_equal by blast
  ultimately show ?thesis
    by (simp add: ab)
qed

section \<open>Tally and quorum\<close>

text \<open>The stake behind one root: the weights of the voters for it.\<close>

definition support :: "(u32 \<Rightarrow> u64) \<Rightarrow> (u32, attestation_data) btree_map \<Rightarrow> hash32 \<Rightarrow> nat" where
  "support w valid r = (\<Sum>v \<in> {v. \<exists>d. (v, d) \<in> set valid \<and> target_root d = r}. w v)"

lemma support_list:
  assumes "distinct (keys_of valid)"
  shows "support w valid r = sum_list (map (\<lambda>e. w (fst e)) (filter (\<lambda>e. target_root (snd e) = r) valid))"
proof -
  let ?f = "filter (\<lambda>e. target_root (snd e) = r) valid"
  have "{v. \<exists>d. (v, d) \<in> set valid \<and> target_root d = r} = set (keys_of ?f)"
    by force
  moreover have "distinct (keys_of ?f)"
    using assms by (simp add: distinct_map_filter)
  ultimately show ?thesis
    unfolding support_def by (simp only: sum.distinct_set_conv_list map_map o_def)
qed

lemma tally_fold:
  fixes w :: "u32 \<Rightarrow> u64"
  shows "map_of (foldl (\<lambda>t (v, d). om_entry (target_root d) 0 (\<lambda>x. x + w v) t) t valid) r
   = (if map_of t r = None \<and> (\<forall>e \<in> set valid. target_root (snd e) \<noteq> r) then None
      else Some (get_or 0 t r + sum_list (map (\<lambda>e. w (fst e)) (filter (\<lambda>e. target_root (snd e) = r) valid))))"
proof (induction valid arbitrary: t)
  case Nil
  then show ?case
    by (auto simp: get_or_def split: option.splits)
next
  case (Cons e valid)
  then show ?case
    by (cases e) (simp add: om_entry_lookup get_or_entry)
qed

lemma om_wf_tally: "om_wf (tally_votes w valid)"
  unfolding tally_votes_def
  by (rule rev_induct [of _ valid]) (auto simp: om.wf_empty om_wf_entry split: prod.splits)

lemma tally_lookup:
  assumes "distinct (keys_of valid)"
  shows "(r, x) \<in> set (tally_votes w valid) \<longleftrightarrow>
    x = support w valid r \<and> (\<exists>e \<in> set valid. target_root (snd e) = r)"
proof -
  have "(r, x) \<in> set (tally_votes w valid) \<longleftrightarrow> map_of (tally_votes w valid) r = Some x"
    using om.wf_distinct [OF om_wf_tally] by (metis map_of_eq_Some_iff)
  then show ?thesis
    unfolding tally_votes_def support_list [OF assms] using tally_fold [of w "[]" valid r] by auto
qed

interpretation stake_quorum: two_thirds_quorum "set (keys_of m)" "get_or 0 m"
    "reaches_quorum (max T (sum_list (values_of m)))" for m :: "(u32, u64) btree_map" and T :: nat
proof
  show "2 * (\<Sum>v \<in> set (keys_of m). get_or 0 m v) \<le> 3 * w"
    if "reaches_quorum (max T (sum_list (values_of m))) w" for w
    using that sum_get_or_le [of m] by (auto simp: reaches_quorum_def)
  show "0 < w" if "reaches_quorum (max T (sum_list (values_of m))) w" for w
    using that by (auto simp: reaches_quorum_def)
qed simp

section \<open>What one epoch does\<close>

text \<open>The votes one epoch counts, the stake map that weighs them and the total they are measured
  against, as functions of the state before the epoch.\<close>

definition voting_stake :: "gates \<Rightarrow> finality_state \<Rightarrow> epoch_votes \<Rightarrow> (u32, u64) btree_map" where
  "voting_stake g st votes =
     (case (frozen_set (epoch_opened g st votes), native_finality_set_active g (votes_epoch votes)) of
        (Some fs, True) \<Rightarrow> members (current fs)
      | _ \<Rightarrow> adjusted_stake st votes)"

definition voting_total :: "gates \<Rightarrow> finality_state \<Rightarrow> epoch_votes \<Rightarrow> nat" where
  "voting_total g st votes = epoch_denominator g (epoch_opened g st votes) votes (adjusted_stake st votes)"

definition counted_votes :: "gates \<Rightarrow> finality_state \<Rightarrow> epoch_votes \<Rightarrow> (u32, attestation_data) btree_map" where
  "counted_votes g st votes =
     valid_votes g (epoch_opened g st votes) votes (fst (collect_votes votes (adjusted_stake st votes)))"

lemma adjusted_stake_next [simp]: "adjusted_stake (st\<lparr>next_epoch := n\<rparr>) votes = adjusted_stake st votes"
  by (simp add: adjusted_stake_def leaked_of_def)

lemma epoch_opened_next [simp]:
  "epoch_opened g (st\<lparr>next_epoch := n\<rparr>) votes = (epoch_opened g st votes)\<lparr>next_epoch := n\<rparr>"
  by (simp add: epoch_opened_def open_finality_set_def split: option.splits)

lemma next_epoch_irrelevant [simp]:
  "valid_votes g (st\<lparr>next_epoch := n\<rparr>) votes fv = valid_votes g st votes fv"
  "epoch_denominator g (st\<lparr>next_epoch := n\<rparr>) votes stake = epoch_denominator g st votes stake"
  "vote_weight frozen (st\<lparr>next_epoch := n\<rparr>) stake = vote_weight frozen st stake"
  "source_is_own g (st\<lparr>next_epoch := n\<rparr>) votes = source_is_own g st votes"
  by (auto simp: valid_votes_def epoch_denominator_def vote_weight_def source_is_own_def fun_eq_iff)

lemma epoch_opened_fields [simp]:
  "justified (epoch_opened g st votes) = justified st"
  "current_justified (epoch_opened g st votes) = current_justified st"
  "finalized (epoch_opened g st votes) = finalized st"
  "leaked (epoch_opened g st votes) = leaked st"
  "next_epoch (epoch_opened g st votes) = next_epoch st"
  "own_checkpoints (epoch_opened g st votes) = own_checkpoints st"
  by (simp_all add: epoch_opened_def open_finality_set_def split: option.splits)

lemma close_finality_set_fields [simp]:
  "justified (close_finality_set votes f p st) = justified st"
  "current_justified (close_finality_set votes f p st) = current_justified st"
  "finalized (close_finality_set votes f p st) = finalized st"
  "leaked (close_finality_set votes f p st) = leaked st"
  "next_epoch (close_finality_set votes f p st) = next_epoch st"
  "own_checkpoints (close_finality_set votes f p st) = own_checkpoints st"
  by (simp_all add: close_finality_set_def Let_def split: option.splits)

lemma vote_weight_stake:
  "vote_weight (native_finality_set_active g (votes_epoch votes)) (epoch_opened g st votes) (adjusted_stake st votes)
   = get_or 0 (voting_stake g st votes)"
  by (auto simp: vote_weight_def voting_stake_def fun_eq_iff split: option.splits bool.splits)

lemma voting_total_ge: "sum_list (values_of (voting_stake g st votes)) \<le> voting_total g st votes"
  using adjusted_le_denominator
  by (simp add: voting_stake_def voting_total_def epoch_denominator_def total_def split: option.splits bool.splits)

lemma source_is_own_opened [simp]: "source_is_own g (epoch_opened g st votes) votes = source_is_own g st votes"
  by (simp add: source_is_own_def)

lemma apply_justification_fields:
  "justified (fst (apply_justification own J st)) = (case J of None \<Rightarrow> justified st
     | Some cp \<Rightarrow> om_insert (epoch cp) (root cp) (justified st))"
  "current_justified (fst (apply_justification own J st)) = (case J of None \<Rightarrow> current_justified st
     | Some cp \<Rightarrow> if epoch (current_justified st) < epoch cp then cp else current_justified st)"
  "finalized (fst (apply_justification own J st)) =
     (case snd (apply_justification own J st) of None \<Rightarrow> finalized st | Some f \<Rightarrow> f)"
  "leaked (fst (apply_justification own J st)) = leaked st"
  "next_epoch (fst (apply_justification own J st)) = next_epoch st"
  "frozen_set (fst (apply_justification own J st)) = frozen_set st"
  "own_checkpoints (fst (apply_justification own J st)) = own_checkpoints st"
  "snd (apply_justification own J st) = (case J of None \<Rightarrow> None
     | Some cp \<Rightarrow> if checked_add u64_max (epoch (current_justified st)) 1 = Some (epoch cp)
          \<and> epoch (finalized st) < epoch (current_justified st) \<and> own
        then Some (current_justified st) else None)"
  by (cases J; simp add: apply_justification_def Let_def)+

text \<open>The state with which a successful epoch enters the leak phase.\<close>

definition epoch_justified :: "gates \<Rightarrow> finality_state \<Rightarrow> epoch_votes \<Rightarrow> checkpoint option" where
  "epoch_justified g st votes = find_justified (votes_epoch votes) (voting_total g st votes)
     (tally_votes (get_or 0 (voting_stake g st votes)) (counted_votes g st votes))"

definition epoch_applied :: "gates \<Rightarrow> finality_state \<Rightarrow> epoch_votes \<Rightarrow> finality_state \<times> checkpoint option" where
  "epoch_applied g st votes =
     apply_justification (source_is_own g st votes) (epoch_justified g st votes) (epoch_opened g st votes)"

definition epoch_closed :: "gates \<Rightarrow> finality_state \<Rightarrow> epoch_votes \<Rightarrow> finality_state" where
  "epoch_closed g st votes =
     (if native_finality_set_active g (votes_epoch votes)
      then close_finality_set votes (snd (epoch_applied g st votes))
        (keys_of (fst (collect_votes votes (adjusted_stake st votes)))) (fst (epoch_applied g st votes))
      else fst (epoch_applied g st votes))"

lemma epoch_body_unfold:
  "epoch_body g st votes =
     (case leak_phase g votes (adjusted_stake st votes) (counted_votes g st votes) (epoch_closed g st votes) of
        None \<Rightarrow> Inl Panic
      | Some lk \<Rightarrow> Inr ((epoch_closed g st votes)\<lparr>leaked := recovery_phase g votes
            (is_leaking (epoch_closed g st votes) (votes_epoch votes)) (counted_votes g st votes) lk\<rparr>,
          \<lparr> outcome_justified = epoch_justified g st votes, outcome_finalized = snd (epoch_applied g st votes),
            outcome_equivocators = snd (collect_votes votes (adjusted_stake st votes)) \<rparr>))"
  unfolding epoch_closed_def epoch_applied_def epoch_justified_def counted_votes_def voting_total_def
  unfolding epoch_body_def Let_def case_prod_beta fst_conv snd_conv vote_weight_stake source_is_own_opened
  by (cases "native_finality_set_active g (votes_epoch votes)") simp_all

lemma epoch_next [simp]:
  "counted_votes g (st\<lparr>next_epoch := n\<rparr>) votes = counted_votes g st votes"
  "voting_total g (st\<lparr>next_epoch := n\<rparr>) votes = voting_total g st votes"
  "voting_stake g (st\<lparr>next_epoch := n\<rparr>) votes = voting_stake g st votes"
  "epoch_justified g (st\<lparr>next_epoch := n\<rparr>) votes = epoch_justified g st votes"
  by (simp_all add: counted_votes_def voting_total_def voting_stake_def epoch_justified_def
      cong: option.case_cong bool.case_cong)

lemma epoch_closed_fields:
  "justified (epoch_closed g st votes) = justified (fst (epoch_applied g st votes))"
  "current_justified (epoch_closed g st votes) = current_justified (fst (epoch_applied g st votes))"
  "finalized (epoch_closed g st votes) = finalized (fst (epoch_applied g st votes))"
  "leaked (epoch_closed g st votes) = leaked st"
  "next_epoch (epoch_closed g st votes) = next_epoch st"
  "own_checkpoints (epoch_closed g st votes) = own_checkpoints st"
  by (simp_all add: epoch_closed_def epoch_applied_def apply_justification_fields)

lemma process_epoch_Inr:
  assumes "process_epoch g st votes = Inr (st', out)"
  obtains st0 lk where "votes_epoch votes = next_epoch st" "next_epoch st < u64_max"
    "st0 = st\<lparr>next_epoch := Suc (next_epoch st)\<rparr>"
    "leak_phase g votes (adjusted_stake st votes) (counted_votes g st votes) (epoch_closed g st0 votes) = Some lk"
    "st' = (epoch_closed g st0 votes)\<lparr>leaked := recovery_phase g votes
        (is_leaking (epoch_closed g st0 votes) (votes_epoch votes)) (counted_votes g st votes) lk\<rparr>"
    "out = \<lparr> outcome_justified = epoch_justified g st votes, outcome_finalized = snd (epoch_applied g st0 votes),
        outcome_equivocators = snd (collect_votes votes (adjusted_stake st votes)) \<rparr>"
  using assms
  by (auto simp: process_epoch_def epoch_body_unfold checked_add_def split: if_splits option.splits)

lemma process_epoch_success:
  assumes "process_epoch g st votes = Inr (st', out)"
  shows "votes_epoch votes = next_epoch st" "next_epoch st < u64_max" "next_epoch st' = Suc (next_epoch st)"
    and "outcome_justified out = epoch_justified g st votes"
    and "outcome_finalized out = (case epoch_justified g st votes of None \<Rightarrow> None
      | Some cp \<Rightarrow> if checked_add u64_max (epoch (current_justified st)) 1 = Some (epoch cp)
           \<and> epoch (finalized st) < epoch (current_justified st) \<and> source_is_own g st votes
         then Some (current_justified st) else None)"
    and "outcome_equivocators out = snd (collect_votes votes (adjusted_stake st votes))"
    and "justified st' = (case epoch_justified g st votes of None \<Rightarrow> justified st
      | Some cp \<Rightarrow> om_insert (epoch cp) (root cp) (justified st))"
    and "current_justified st' = (case epoch_justified g st votes of None \<Rightarrow> current_justified st
      | Some cp \<Rightarrow> if epoch (current_justified st) < epoch cp then cp else current_justified st)"
    and "finalized st' = (case outcome_finalized out of None \<Rightarrow> finalized st | Some f \<Rightarrow> f)"
    and "own_checkpoints st' = own_checkpoints st"
proof -
  obtain st0 lk where
    "votes_epoch votes = next_epoch st" "next_epoch st < u64_max" "st0 = st\<lparr>next_epoch := Suc (next_epoch st)\<rparr>"
    "st' = (epoch_closed g st0 votes)\<lparr>leaked := recovery_phase g votes
        (is_leaking (epoch_closed g st0 votes) (votes_epoch votes)) (counted_votes g st votes) lk\<rparr>"
    "out = \<lparr> outcome_justified = epoch_justified g st votes, outcome_finalized = snd (epoch_applied g st0 votes),
        outcome_equivocators = snd (collect_votes votes (adjusted_stake st votes)) \<rparr>"
    using process_epoch_Inr [OF assms] by metis
  note facts = this
  have own: "source_is_own g st0 votes = source_is_own g st votes"
    by (simp add: facts(3))
  show "votes_epoch votes = next_epoch st" "next_epoch st < u64_max" "next_epoch st' = Suc (next_epoch st)"
    and "outcome_justified out = epoch_justified g st votes"
    and "outcome_equivocators out = snd (collect_votes votes (adjusted_stake st votes))"
    and "own_checkpoints st' = own_checkpoints st"
    using facts(1,2) by (simp_all add: facts(3-) epoch_closed_fields)
  show "outcome_finalized out = (case epoch_justified g st votes of None \<Rightarrow> None
      | Some cp \<Rightarrow> if checked_add u64_max (epoch (current_justified st)) 1 = Some (epoch cp)
           \<and> epoch (finalized st) < epoch (current_justified st) \<and> source_is_own g st votes
         then Some (current_justified st) else None)"
    by (simp add: facts(3,5) epoch_applied_def apply_justification_fields split: option.split)
  show "justified st' = (case epoch_justified g st votes of None \<Rightarrow> justified st
      | Some cp \<Rightarrow> om_insert (epoch cp) (root cp) (justified st))"
    and "current_justified st' = (case epoch_justified g st votes of None \<Rightarrow> current_justified st
      | Some cp \<Rightarrow> if epoch (current_justified st) < epoch cp then cp else current_justified st)"
    by (simp_all add: facts(3,4) epoch_closed_fields epoch_applied_def apply_justification_fields
        split: option.split)
  show "finalized st' = (case outcome_finalized out of None \<Rightarrow> finalized st | Some f \<Rightarrow> f)"
    by (simp add: facts(4,5) epoch_closed_fields epoch_applied_def apply_justification_fields(3))
      (simp add: facts(3) cong: option.case_cong)
qed

section \<open>Justification is a two-thirds quorum\<close>

text \<open>The validators whose vote supports a root: members of the active set whose only vote about
  the epoch links the current justified checkpoint to it, on this chain's own checkpoints where
  that rule is active.\<close>

definition supporters :: "gates \<Rightarrow> finality_state \<Rightarrow> epoch_votes \<Rightarrow> hash32 \<Rightarrow> u32 set" where
  "supporters g st votes r =
     {v \<in> epoch_indices votes. \<exists>d. votes_about (votes_epoch votes) (set (attestations votes)) v = {d}
        \<and> target_root d = r
        \<and> source_epoch d = epoch (current_justified st) \<and> source_root d = root (current_justified st)
        \<and> source_epoch d < target_epoch d
        \<and> (own_target_votes_active g (votes_epoch votes) \<longrightarrow>
             map_of (own_checkpoints st) (votes_epoch votes) = Some r \<and>
             map_of (own_checkpoints st) (epoch (current_justified st)) \<in> {None, Some (source_root d)})}"

lemma om_wf_counted_votes: "om_wf (counted_votes g st votes)"
proof -
  obtain fv eq where "collect_votes votes (adjusted_stake st votes) = (fv, eq)"
    by fastforce
  then show ?thesis
    using collect_votes_spec(1)
    by (auto simp: counted_votes_def valid_votes_def Let_def intro!: om_wf_filter)
qed

lemma counted_votes_iff:
  "(v, d) \<in> set (counted_votes g st votes) \<longleftrightarrow>
     v \<in> supporters g st votes (target_root d) \<and>
     votes_about (votes_epoch votes) (set (attestations votes)) v = {d}"
proof -
  obtain fv eq where col: "collect_votes votes (adjusted_stake st votes) = (fv, eq)"
    by fastforce
  have "(v, d) \<in> set fv \<longleftrightarrow> v \<in> epoch_indices votes \<and> votes_about (votes_epoch votes) (set (attestations votes)) v = {d}"
    using collect_votes_spec(1,3) [OF col] om.wf_distinct by (metis map_of_eq_Some_iff adjusted_stake_contains)
  then show ?thesis
    by (auto simp: counted_votes_def valid_votes_def Let_def supporters_def col split: option.splits)
qed

lemma supporters_alt: "supporters g st votes r = {v. \<exists>d. (v, d) \<in> set (counted_votes g st votes) \<and> target_root d = r}"
  by (auto simp: counted_votes_iff supporters_def)

lemma finite_supporters: "finite (supporters g st votes r)"
  by (rule finite_subset [of _ "epoch_indices votes"]) (auto simp: supporters_def epoch_indices_def)

lemma supporters_disjoint: "r \<noteq> r' \<Longrightarrow> supporters g st votes r \<inter> supporters g st votes r' = {}"
  by (auto simp: supporters_def)

lemma tally_mem:
  "(r, x) \<in> set (tally_votes w (counted_votes g st votes)) \<longleftrightarrow>
     x = sum w (supporters g st votes r) \<and> supporters g st votes r \<noteq> {}"
  unfolding tally_lookup [OF om.wf_distinct [OF om_wf_counted_votes]] support_def
  by (force simp: supporters_alt)

lemma sum_get_or_any: "finite A \<Longrightarrow> (\<Sum>k \<in> A. get_or 0 m k) \<le> sum_list (values_of m :: nat list)"
proof -
  assume fin: "finite A"
  have "(\<Sum>k \<in> A. get_or 0 m k) = (\<Sum>k \<in> A \<inter> set (keys_of m). get_or 0 m k)"
    by (rule sum.mono_neutral_right) (use fin in \<open>auto simp: get_or_def map_of_eq_None_iff split: option.splits\<close>,
      force dest: map_of_SomeD)
  also have "\<dots> \<le> (\<Sum>k \<in> set (keys_of m). get_or 0 m k)"
    by (rule sum_mono2) auto
  finally show ?thesis
    using sum_get_or_le [of m] by simp
qed

lemma quorum_unique:
  assumes "reaches_quorum (voting_total g st votes) (sum (get_or 0 (voting_stake g st votes)) (supporters g st votes r))"
    and "reaches_quorum (voting_total g st votes) (sum (get_or 0 (voting_stake g st votes)) (supporters g st votes r'))"
  shows "r = r'"
proof (rule ccontr)
  assume "r \<noteq> r'"
  let ?w = "get_or 0 (voting_stake g st votes)"
  have "sum ?w (supporters g st votes r) + sum ?w (supporters g st votes r')
      = sum ?w (supporters g st votes r \<union> supporters g st votes r')"
    using supporters_disjoint [OF \<open>r \<noteq> r'\<close>] finite_supporters by (metis sum.union_disjoint)
  also have "\<dots> \<le> voting_total g st votes"
    using sum_get_or_any [of "supporters g st votes r \<union> supporters g st votes r'"] finite_supporters
      voting_total_ge order_trans by (metis finite_UnI)
  finally show False
    using assms by (simp add: reaches_quorum_def)
qed

lemma epoch_justified_iff:
  "epoch_justified g st votes = Some cp \<longleftrightarrow> epoch cp = votes_epoch votes \<and>
     reaches_quorum (voting_total g st votes) (sum (get_or 0 (voting_stake g st votes)) (supporters g st votes (root cp)))"
  (is "?L \<longleftrightarrow> ?R")
proof
  assume ?L
  then obtain x where "(root cp, x) \<in> set (tally_votes (get_or 0 (voting_stake g st votes)) (counted_votes g st votes))"
    "reaches_quorum (voting_total g st votes) x" "epoch cp = votes_epoch votes"
    by (auto simp: epoch_justified_def find_justified_def dest!: find_SomeD)
  then show ?R
    by (simp add: tally_mem)
next
  assume R: ?R
  then have "supporters g st votes (root cp) \<noteq> {}"
    by (auto simp: reaches_quorum_def)
  with R have "find (\<lambda>(_, w). reaches_quorum (voting_total g st votes) w)
      (tally_votes (get_or 0 (voting_stake g st votes)) (counted_votes g st votes)) \<noteq> None"
    by (auto simp: find_None_iff tally_mem)
  then obtain r x where f: "find (\<lambda>(_, w). reaches_quorum (voting_total g st votes) w)
      (tally_votes (get_or 0 (voting_stake g st votes)) (counted_votes g st votes)) = Some (r, x)"
    by auto
  then have "(r, x) \<in> set (tally_votes (get_or 0 (voting_stake g st votes)) (counted_votes g st votes))"
    and "reaches_quorum (voting_total g st votes) x"
    using find_SomeD by fastforce+
  then have "r = root cp"
    using quorum_unique R by (simp add: tally_mem)
  then show ?L
    using f R by (simp add: epoch_justified_def find_justified_def)
qed

section \<open>The state invariant\<close>

definition wf_frozen :: "finality_set_state option \<Rightarrow> bool" where
  "wf_frozen fso = (case fso of None \<Rightarrow> True | Some fs \<Rightarrow> om_wf (members (current fs)) \<and>
     (case pending fs of None \<Rightarrow> True | Some p \<Rightarrow> om_wf (members p)) \<and> om_wf (last_seen fs))"

definition finality_inv :: "finality_state \<Rightarrow> bool" where
  "finality_inv st \<longleftrightarrow> om_wf (justified st) \<and> om_wf (leaked st) \<and> om_wf (own_checkpoints st)
     \<and> wf_frozen (frozen_set st)
     \<and> is_justified st (current_justified st) \<and> is_justified st (finalized st)
     \<and> (\<forall>e \<in> set (keys_of (justified st)). e \<le> epoch (current_justified st))
     \<and> epoch (current_justified st) < next_epoch st"

lemma is_justified_bound: "finality_inv st \<Longrightarrow> is_justified st cp \<Longrightarrow> epoch cp \<le> epoch (current_justified st)"
  unfolding finality_inv_def is_justified_def by (force dest: map_of_SomeD)

lemma om_wf_leak_phase: "leak_phase g votes stake valid st = Some lk \<Longrightarrow> om_wf (leaked st) \<Longrightarrow> om_wf lk"
proof -
  have "foldl (leak_one g e t stake valid) acc vs = Some lk \<Longrightarrow> (\<And>m. acc = Some m \<Longrightarrow> om_wf m) \<Longrightarrow> om_wf lk"
    for e t acc vs
  proof (induction vs arbitrary: acc)
    case (Cons v vs)
    have "om_wf m" if "leak_one g e t stake valid acc v = Some m" for m
      using that Cons.prems(2)
      by (auto simp: leak_one_def om_wf_insert bind_eq_Some_conv split: if_splits)
    then show ?case
      using Cons by auto
  qed simp
  then show "leak_phase g votes stake valid st = Some lk \<Longrightarrow> om_wf (leaked st) \<Longrightarrow> om_wf lk"
    by (fastforce simp: leak_phase_def Let_def split: if_splits)
qed

lemma om_wf_recovery_phase: "om_wf lk \<Longrightarrow> om_wf (recovery_phase g votes leaking valid lk)"
proof -
  have "om_wf (fst (foldl (recover_one leaking valid) (lk, dr) vs))" if "om_wf lk" for lk dr vs
    using that
  proof (induction vs arbitrary: lk dr)
    case (Cons v vs)
    obtain lk' dr' where one: "recover_one leaking valid (lk, dr) v = (lk', dr')"
      by fastforce
    then have "om_wf lk'"
      using Cons.prems by (auto simp: recover_one_def Let_def om_wf_insert split: if_splits option.splits)
    then show ?case
      using Cons.IH one by simp
  qed simp
  then show "om_wf lk \<Longrightarrow> ?thesis"
    by (auto simp: recovery_phase_def case_prod_beta om.wf_del_fold)
qed

lemma om_wf_snapshot [simp]: "om_wf (members (snapshot votes seen))"
  by (simp add: snapshot_def om_wf_collect)

lemma om_wf_note_presence: "om_wf seen \<Longrightarrow> om_wf (note_presence e roster present seen)"
proof -
  have "om_wf m \<Longrightarrow> om_wf (foldl (\<lambda>m v. if v \<in> set present then om_insert v e m else om_entry v e id m) m vs)" for m vs
    by (induction vs arbitrary: m) (simp_all add: om_wf_insert om_wf_entry)
  then show "om_wf seen \<Longrightarrow> ?thesis"
    by (simp add: note_presence_def om_wf_filter)
qed

lemma wf_frozen_epoch_closed: "wf_frozen (frozen_set st) \<Longrightarrow> wf_frozen (frozen_set (epoch_closed g st votes))"
proof -
  assume "wf_frozen (frozen_set st)"
  then have "wf_frozen (frozen_set (epoch_opened g st votes))"
    by (auto simp: epoch_opened_def open_finality_set_def wf_frozen_def om.wf_empty split: option.splits)
  then show ?thesis
    by (auto simp: epoch_closed_def epoch_applied_def apply_justification_fields close_finality_set_def Let_def
        wf_frozen_def om_wf_note_presence split: option.splits)
qed

lemma epoch_justified_epoch: "epoch_justified g st votes = Some cp \<Longrightarrow> epoch cp = votes_epoch votes"
  by (simp add: epoch_justified_iff)

lemma process_epoch_inv:
  assumes inv: "finality_inv st" and ok: "process_epoch g st votes = Inr (st', out)"
  shows "finality_inv st'"
proof -
  note S = process_epoch_success [OF ok]
  obtain st0 lk where st0: "st0 = st\<lparr>next_epoch := Suc (next_epoch st)\<rparr>"
    and lk: "leak_phase g votes (adjusted_stake st votes) (counted_votes g st votes) (epoch_closed g st0 votes) = Some lk"
    and st': "st' = (epoch_closed g st0 votes)\<lparr>leaked := recovery_phase g votes
        (is_leaking (epoch_closed g st0 votes) (votes_epoch votes)) (counted_votes g st votes) lk\<rparr>"
    by (rule process_epoch_Inr [OF ok])
  have "om_wf lk"
    using om_wf_leak_phase [OF lk] inv by (simp add: epoch_closed_fields st0 finality_inv_def)
  then have maps: "om_wf (leaked st')" "wf_frozen (frozen_set st')"
    using wf_frozen_epoch_closed [of st0] inv by (simp_all add: st' om_wf_recovery_phase st0 finality_inv_def)
  show ?thesis
  proof (cases "epoch_justified g st votes")
    case None
    then show ?thesis
      using inv S maps by (auto simp: finality_inv_def is_justified_def)
  next
    case (Some cp)
    then have e: "epoch cp = next_epoch st"
      using S(1) epoch_justified_epoch by simp
    then have lt: "epoch (current_justified st) < epoch cp" "epoch (finalized st) < epoch cp"
      using inv is_justified_bound [OF inv, of "finalized st"] by (auto simp: finality_inv_def)
    then show ?thesis
      using inv S maps Some e
      by (force simp: finality_inv_def is_justified_def om_insert_lookup om_insert_keys om_wf_insert
          simp del: set_map split: option.splits if_splits)
  qed
qed

section \<open>The fold as a machine\<close>

text \<open>Progress: the finalized epoch never goes back, and a justified checkpoint stays justified.\<close>

definition finality_before :: "finality_state \<Rightarrow> finality_state \<Rightarrow> bool" where
  "finality_before st st' \<longleftrightarrow> epoch (finalized st) \<le> epoch (finalized st') \<and>
     map_of (justified st) \<subseteq>\<^sub>m map_of (justified st')"

lemma process_epoch_before:
  assumes inv: "finality_inv st" and ok: "process_epoch g st votes = Inr (st', out)"
  shows "finality_before st st'"
proof (cases "epoch_justified g st votes")
  case None
  then show ?thesis
    using process_epoch_success [OF ok] by (simp add: finality_before_def)
next
  case (Some cp)
  note S = process_epoch_success [OF ok]
  have "epoch cp = next_epoch st"
    using S(1) epoch_justified_epoch [OF Some] by simp
  then have "epoch cp \<notin> set (keys_of (justified st))"
    using inv unfolding finality_inv_def by (metis leD order_le_less_trans)
  then have "map_of (justified st) (epoch cp) = None"
    by (simp add: map_of_eq_None_iff)
  then have "map_of (justified st) \<subseteq>\<^sub>m map_of (justified st')"
    using S(7) Some by (auto simp: om_insert_lookup map_le_def)
  moreover have "epoch (finalized st) \<le> epoch (finalized st')"
    using S(5,9) Some by auto
  ultimately show ?thesis
    by (simp add: finality_before_def)
qed

interpretation finality: fallible_machine "fold_step g" finality_inv for g
  by unfold_locales (auto simp: fold_step_def map_sum_def process_epoch_inv split: sum.splits)

interpretation finality_run: fallible_progress "fold_step g" finality_inv finality_before for g
proof
  show "finality_before s u" if "finality_before s t" "finality_before t u" for s t u
    using that by (auto simp: finality_before_def intro: map_le_trans)
  show "finality_before s s'" if "finality_inv s" "fold_step g s i = Inr s'" for s i s'
    using that process_epoch_before by (auto simp: fold_step_def map_sum_def split: sum.splits)
qed (simp add: finality_before_def)

lemma new_state_inv: "new_state genesis = Inr st \<Longrightarrow> finality_inv st"
  by (auto simp: new_state_def finality_inv_def is_justified_def wf_frozen_def om_wf_def checked_add_eq_Some
      split: option.splits)

section \<open>The leak and its recovery\<close>

definition charged :: "gates \<Rightarrow> u64 \<Rightarrow> u128 \<Rightarrow> (u32, u64) btree_map \<Rightarrow> (u32, attestation_data) btree_map
    \<Rightarrow> u32 \<Rightarrow> u64 \<Rightarrow> u64" where
  "charged g e t stake valid i l =
     (if contains_key valid i \<or> get_or 0 stake i = 0 then l
      else l + leak_bite g e t (get_or 0 stake i))"

lemma leak_bite_le: "leak_bite g e t remaining \<le> remaining"
  by (simp add: leak_bite_def)

lemma leak_one_charged:
  assumes "contains_key stake (index v)" "get_or 0 m (index v) + get_or 0 stake (index v) \<le> u64_max"
  shows "\<exists>m'. leak_one g e t stake valid (Some m) v = Some m' \<and>
    (\<forall>i. get_or 0 m' i = (if i = index v then charged g e t stake valid i (get_or 0 m i) else get_or 0 m i))"
proof -
  obtain r where r: "map_of stake (index v) = Some r"
    using assms(1) by (auto simp: contains_key_def)
  then have "get_or 0 m (index v) + leak_bite g e t r \<le> u64_max"
    using assms(2) leak_bite_le [of g e t r] by (simp add: get_or_def)
  then show ?thesis
    using r by (auto simp: leak_one_def charged_def checked_fits get_or_insert get_or_def [of 0 stake])
qed

lemma leak_fold_charged:
  "distinct (map index vs) \<Longrightarrow>
   (\<And>v. v \<in> set vs \<Longrightarrow> contains_key stake (index v) \<and> get_or 0 m (index v) + get_or 0 stake (index v) \<le> u64_max) \<Longrightarrow>
   \<exists>m'. foldl (leak_one g e t stake valid) (Some m) vs = Some m' \<and>
    (\<forall>i. get_or 0 m' i = (if i \<in> index ` set vs then charged g e t stake valid i (get_or 0 m i) else get_or 0 m i))"
proof (induction vs arbitrary: m)
  case (Cons v vs)
  obtain m1 where m1: "leak_one g e t stake valid (Some m) v = Some m1"
    "\<And>i. get_or 0 m1 i = (if i = index v then charged g e t stake valid i (get_or 0 m i) else get_or 0 m i)"
    using leak_one_charged [of stake v m] Cons.prems(2) by (meson list.set_intros(1))
  have "get_or 0 m1 (index u) = get_or 0 m (index u)" if "u \<in> set vs" for u
    using that Cons.prems(1) m1(2) by (auto simp: image_iff)
  then obtain m' where "foldl (leak_one g e t stake valid) (Some m1) vs = Some m'"
    "\<And>i. get_or 0 m' i = (if i \<in> index ` set vs then charged g e t stake valid i (get_or 0 m1 i) else get_or 0 m1 i)"
    using Cons.IH [of m1] Cons.prems by (metis distinct.simps(2) list.set_intros(2) list.simps(9))
  then show ?case
    using m1 Cons.prems(1) by (auto simp: image_iff)
qed simp

lemma adjusted_stake_lookup:
  assumes "distinct (map index (active_set votes))" "v \<in> set (active_set votes)"
  shows "map_of (adjusted_stake st votes) (index v) = Some (effective_stake v - leaked_of st (index v))"
proof -
  let ?xs = "map (\<lambda>v. (index v, effective_stake v - leaked_of st (index v))) (active_set votes)"
  have "distinct (map fst (rev ?xs))"
    using assms(1) by (simp add: o_def flip: rev_map)
  moreover have "(index v, effective_stake v - leaked_of st (index v)) \<in> set (rev ?xs)"
    using assms(2) by auto
  ultimately show ?thesis
    unfolding adjusted_stake_def om_collect_lookup by (simp only: map_of_is_SomeI)
qed

lemma recover_fold:
  "distinct (map index vs) \<Longrightarrow> foldl (recover_one leaking valid) (m, dr) vs = (m', dr') \<Longrightarrow>
   set dr' = set dr \<union> {i \<in> index ` set vs. (leaking \<longrightarrow> contains_key valid i) \<and> map_option recovery_step (map_of m i) = Some 0} \<and>
   (\<forall>i. map_of m' i = (if i \<in> index ` set vs \<and> (leaking \<longrightarrow> contains_key valid i)
      then map_option recovery_step (map_of m i) else map_of m i))"
proof (induction vs arbitrary: m dr)
  case (Cons v vs)
  obtain m1 dr1 where one: "recover_one leaking valid (m, dr) v = (m1, dr1)"
    by fastforce
  then have m1: "map_of m1 i = (if i = index v \<and> (leaking \<longrightarrow> contains_key valid i)
      then map_option recovery_step (map_of m i) else map_of m i)" for i
    by (auto simp: recover_one_def Let_def om_insert_lookup split: if_splits option.splits)
  have dr1: "set dr1 = set dr \<union> {i. i = index v \<and> (leaking \<longrightarrow> contains_key valid i)
      \<and> map_option recovery_step (map_of m i) = Some 0}"
    using one by (auto simp: recover_one_def Let_def split: if_splits option.splits)
  have fresh: "index v \<notin> index ` set vs"
    using Cons.prems(1) by simp
  have "foldl (recover_one leaking valid) (m1, dr1) vs = (m', dr')" "distinct (map index vs)"
    using Cons.prems one by simp_all
  from Cons.IH [OF this(2,1)] show ?case
    using fresh by (auto simp: m1 dr1)
qed simp

lemma recovery_phase_lookup:
  assumes "distinct (map index (active_set votes))" "leak_recovery_activation_epoch g \<le> votes_epoch votes"
  shows "map_of (recovery_phase g votes leaking valid m) i =
    (if i \<in> epoch_indices votes \<and> (leaking \<longrightarrow> contains_key valid i)
     then (case map_of m i of None \<Rightarrow> None | Some l \<Rightarrow> if recovery_step l = 0 then None else Some (recovery_step l))
     else map_of m i)"
proof -
  obtain m' dr where f: "foldl (recover_one leaking valid) (m, []) (active_set votes) = (m', dr)"
    by fastforce
  show ?thesis
    using recover_fold [OF assms(1) f] assms(2)
    by (auto simp: recovery_phase_def f om.del_fold_lookup epoch_indices_def split: option.splits)
qed

lemma recovery_step_le: "recovery_step l \<le> l - 1"
  by (auto simp: recovery_step_def)

lemma recovery_phase_le:
  assumes "distinct (map index (active_set votes))"
  shows "get_or 0 (recovery_phase g votes leaking valid m) i \<le> get_or 0 m i"
proof (cases "leak_recovery_activation_epoch g \<le> votes_epoch votes")
  case True
  show ?thesis
    unfolding get_or_def recovery_phase_lookup [OF assms True]
    by (auto simp: recovery_step_def split: option.splits)
qed (simp add: recovery_phase_def)

lemma recovery_drains: "l \<le> n \<Longrightarrow> (recovery_step ^^ n) l = 0"
proof (induction n arbitrary: l)
  case (Suc n)
  then have "recovery_step l \<le> n"
    using recovery_step_le [of l] by linarith
  then show ?case
    using Suc.IH by (simp add: funpow_swap1)
qed simp

lemma leak_phase_total:
  assumes "distinct (map index (active_set votes))"
    and "\<And>v. v \<in> set (active_set votes) \<Longrightarrow> effective_stake v \<le> u64_max \<and> leaked_of st (index v) \<le> u64_max"
    and "leaked closed = leaked st"
  shows "\<exists>lk. leak_phase g votes (adjusted_stake st votes) valid closed = Some lk \<and>
    (\<forall>v \<in> set (active_set votes). get_or 0 lk (index v) \<le> max (leaked_of st (index v)) (effective_stake v) \<and>
       (contains_key valid (index v) \<longrightarrow> get_or 0 lk (index v) = leaked_of st (index v)))"
proof -
  let ?stake = "adjusted_stake st votes"
  have stake: "get_or 0 ?stake (index v) = effective_stake v - leaked_of st (index v)" "contains_key ?stake (index v)"
    if "v \<in> set (active_set votes)" for v
    using adjusted_stake_lookup [OF assms(1) that] by (simp_all add: get_or_def contains_key_def)
  have fit: "contains_key ?stake (index v) \<and> get_or 0 (leaked closed) (index v) + get_or 0 ?stake (index v) \<le> u64_max"
    if "v \<in> set (active_set votes)" for v
    using stake [OF that] assms(2) [OF that] assms(3) by (auto simp: leaked_of_def)
  have "charged g e t ?stake valid (index v) (leaked_of st (index v)) \<le> max (leaked_of st (index v)) (effective_stake v)"
    if "v \<in> set (active_set votes)" for v e t
    using stake(1) [OF that] leak_bite_le [of g e t "effective_stake v - leaked_of st (index v)"]
    by (auto simp: charged_def)
  then show ?thesis
    using leak_fold_charged [OF assms(1) fit, of g _ _ valid] assms(3)
    by (force simp: leak_phase_def Let_def leaked_of_def charged_def)
qed

lemma atts_fields:
  "votes_epoch (votes\<lparr>attestations := A\<rparr>) = votes_epoch votes"
  "active_set (votes\<lparr>attestations := A\<rparr>) = active_set votes"
  by simp_all

lemma snapshot_atts: "snapshot (votes\<lparr>attestations := A\<rparr>) seen = snapshot votes seen"
  by (simp add: snapshot_def)

lemma attestations_irrelevant:
  "adjusted_stake st (votes\<lparr>attestations := A\<rparr>) = adjusted_stake st votes"
  "epoch_opened g st (votes\<lparr>attestations := A\<rparr>) = epoch_opened g st votes"
  "epoch_denominator g st (votes\<lparr>attestations := A\<rparr>) stake = epoch_denominator g st votes stake"
  "valid_votes g st (votes\<lparr>attestations := A\<rparr>) fv = valid_votes g st votes fv"
  "source_is_own g st (votes\<lparr>attestations := A\<rparr>) = source_is_own g st votes"
  "close_finality_set (votes\<lparr>attestations := A\<rparr>) f p st = close_finality_set votes f p st"
  "leak_phase g (votes\<lparr>attestations := A\<rparr>) stake valid st = leak_phase g votes stake valid st"
  "recovery_phase g (votes\<lparr>attestations := A\<rparr>) leaking valid lk = recovery_phase g votes leaking valid lk"
  unfolding adjusted_stake_def epoch_opened_def open_finality_set_def snapshot_atts
    epoch_denominator_def quorum_denominator_def unleaked_total_def valid_votes_def source_is_own_def
    close_finality_set_def leak_phase_def recovery_phase_def atts_fields
  by (rule refl)+

section \<open>A small history\<close>

text \<open>Three validators of equal stake justify epoch 1 and then, two of them voting, epoch 2, which
  finalizes epoch 1.\<close>

definition demo_genesis :: checkpoint where
  "demo_genesis = \<lparr> epoch = 0, root = [] \<rparr>"

definition demo_vote :: "u64 \<Rightarrow> hash32 \<Rightarrow> u64 \<Rightarrow> hash32 \<Rightarrow> attestation_data" where
  "demo_vote se sr te tr = \<lparr> slot = 0, head = tr, source_epoch = se, source_root = sr,
     target_epoch = te, target_root = tr \<rparr>"

definition demo_votes :: "u64 \<Rightarrow> (u32 \<times> attestation_data) list \<Rightarrow> epoch_votes" where
  "demo_votes e atts = \<lparr> votes_epoch = e,
     active_set = map (\<lambda>i. \<lparr> index = i, effective_stake = 10 \<rparr>) [0, 1, 2], attestations = atts \<rparr>"

definition demo_history :: "epoch_votes list" where
  "demo_history =
     [demo_votes 1 [(0, demo_vote 0 [] 1 [1]), (1, demo_vote 0 [] 1 [1]), (2, demo_vote 0 [] 1 [1])],
      demo_votes 2 [(0, demo_vote 1 [1] 2 [2]), (2, demo_vote 1 [1] 2 [2])]]"

definition demo_state :: "u64 \<Rightarrow> finality_state" where
  "demo_state e = \<lparr> justified = [(0, [])], current_justified = demo_genesis, finalized = demo_genesis,
     leaked = [(0, 3), (1, 40)], next_epoch = e, frozen_set = None, own_checkpoints = [] \<rparr>"

definition demo_ballot :: "u64 \<Rightarrow> epoch_votes" where
  "demo_ballot e = demo_votes e [(0, demo_vote 0 [] e [1]), (2, demo_vote 0 [] e [1])]"

definition demo_outcome :: "u64 \<Rightarrow> finality_error + finality_state \<times> epoch_outcome" where
  "demo_outcome e = process_epoch shipped_gates (demo_state e) (demo_ballot e)"

lemma demo_runs:
  "demo_outcome 3000 = Inr (fst (projr (demo_outcome 3000)), snd (projr (demo_outcome 3000)))"
  "outcome_justified (snd (projr (demo_outcome 3000))) = Some \<lparr> epoch = 3000, root = [1] \<rparr>"
proof -
  have "\<not> isl (demo_outcome 3000)"
    by code_simp
  then show "demo_outcome 3000 = Inr (fst (projr (demo_outcome 3000)), snd (projr (demo_outcome 3000)))"
    using Inr_projr by simp
  show "outcome_justified (snd (projr (demo_outcome 3000))) = Some \<lparr> epoch = 3000, root = [1] \<rparr>"
    by code_simp
qed

section \<open>Properties\<close>

text \<open>C5. A checkpoint is justified in an epoch exactly when it is a checkpoint of that epoch and the
  validators whose only vote about the epoch links the current justified checkpoint to it hold two
  thirds of the total the epoch is measured against.  So at most one root is justified per epoch, and
  an equivocating validator counts for none.\<close>

theorem justified_iff_quorum:
  assumes "process_epoch g st votes = Inr (st', out)"
  shows "outcome_justified out = Some cp \<longleftrightarrow> epoch cp = votes_epoch votes \<and>
    reaches_quorum (voting_total g st votes)
      (sum (get_or 0 (voting_stake g st votes)) (supporters g st votes (root cp)))"
  using process_epoch_success(4) [OF assms] epoch_justified_iff by simp

theorem justified_iff_quorum_witness:
  "reaches_quorum (voting_total shipped_gates (demo_state 3000) (demo_ballot 3000))
     (sum (get_or 0 (voting_stake shipped_gates (demo_state 3000) (demo_ballot 3000)))
       (supporters shipped_gates (demo_state 3000) (demo_ballot 3000) [1]))"
  using justified_iff_quorum [OF demo_runs(1) [unfolded demo_outcome_def [of 3000]], of "\<lparr> epoch = 3000, root = [1] \<rparr>"]
    demo_runs(2) by (simp add: demo_outcome_def)

text \<open>C6. The result of an epoch, state and outcome, depends on the set of votes only: not on the
  order in which they arrived, nor on how often one was received.\<close>

theorem vote_order_irrelevant:
  assumes "set atts = set atts'"
  shows "process_epoch g st (votes\<lparr>attestations := atts\<rparr>) = process_epoch g st (votes\<lparr>attestations := atts'\<rparr>)"
proof -
  have same: "collect_votes (votes\<lparr>attestations := atts\<rparr>) stake = collect_votes (votes\<lparr>attestations := atts'\<rparr>) stake" for stake
    using assms by (intro collect_votes_cong) simp_all
  show ?thesis
    unfolding process_epoch_def epoch_body_def attestations_irrelevant atts_fields same by (rule refl)
qed

theorem vote_order_irrelevant_witness:
  "process_epoch shipped_gates (demo_state 3000) ((demo_votes 3000 [])\<lparr>attestations :=
      [(0, demo_vote 0 [] 3000 [1]), (2, demo_vote 0 [] 3000 [1]), (0, demo_vote 0 [] 3000 [2]), (1, demo_vote 0 [] 3000 [1])]\<rparr>)
   = process_epoch shipped_gates (demo_state 3000) ((demo_votes 3000 [])\<lparr>attestations :=
      [(1, demo_vote 0 [] 3000 [1]), (0, demo_vote 0 [] 3000 [2]), (0, demo_vote 0 [] 3000 [1]), (2, demo_vote 0 [] 3000 [1]),
       (0, demo_vote 0 [] 3000 [2])]\<rparr>) \<and>
   \<not> isl (process_epoch shipped_gates (demo_state 3000) ((demo_votes 3000 [])\<lparr>attestations :=
      [(0, demo_vote 0 [] 3000 [1]), (2, demo_vote 0 [] 3000 [1]), (0, demo_vote 0 [] 3000 [2]), (1, demo_vote 0 [] 3000 [1])]\<rparr>))"
proof
  show "process_epoch shipped_gates (demo_state 3000) ((demo_votes 3000 [])\<lparr>attestations :=
      [(0, demo_vote 0 [] 3000 [1]), (2, demo_vote 0 [] 3000 [1]), (0, demo_vote 0 [] 3000 [2]), (1, demo_vote 0 [] 3000 [1])]\<rparr>)
   = process_epoch shipped_gates (demo_state 3000) ((demo_votes 3000 [])\<lparr>attestations :=
      [(1, demo_vote 0 [] 3000 [1]), (0, demo_vote 0 [] 3000 [2]), (0, demo_vote 0 [] 3000 [1]), (2, demo_vote 0 [] 3000 [1]),
       (0, demo_vote 0 [] 3000 [2])]\<rparr>)"
    by (rule vote_order_irrelevant) auto
qed code_simp

text \<open>C18. Every state replayed from a history satisfies the invariant: all maps are in canonical form,
  the current justified and the finalized checkpoint are justified, and no checkpoint is justified
  beyond the current one, which lies before the next epoch.\<close>

theorem from_history_inv:
  assumes "from_history g genesis history = Inr st"
  shows "finality_inv st"
  using assms unfolding from_history_def
  by (cases "new_state genesis") (auto dest: new_state_inv intro: finality.run_inv)

theorem from_history_inv_witness:
  "finality_inv (projr (from_history shipped_gates demo_genesis demo_history))"
proof -
  have "\<not> isl (from_history shipped_gates demo_genesis demo_history)"
    by code_simp
  from from_history_inv [OF Inr_projr [OF this]] show ?thesis .
qed

text \<open>C11. Finality is irreversible: every prefix of a history that replays also replays, the finalized
  epoch never decreases from the prefix to the whole, and every checkpoint the prefix justified stays
  justified with the same root.\<close>

theorem finality_monotone:
  assumes "from_history g genesis (h1 @ h2) = Inr st2"
  shows "\<exists>st1. from_history g genesis h1 = Inr st1 \<and> epoch (finalized st1) \<le> epoch (finalized st2) \<and>
    (\<forall>cp. is_justified st1 cp \<longrightarrow> is_justified st2 cp)"
proof -
  obtain st where st: "new_state genesis = Inr st" "run_until_error (fold_step g) st (h1 @ h2) = Inr st2"
    using assms by (auto simp: from_history_def split: sum.splits)
  then obtain st1 where st1: "run_until_error (fold_step g) st h1 = Inr st1" "run_until_error (fold_step g) st1 h2 = Inr st2"
    by (auto simp: run_until_error_append split: sum.splits)
  then have "finality_before st1 st2"
    using finality_run.run_before finality.run_inv new_state_inv [OF st(1)] by blast
  then show ?thesis
    using st st1 by (auto simp: from_history_def finality_before_def is_justified_def map_le_def dom_def)
qed

theorem finality_monotone_witness:
  "\<exists>st1. from_history shipped_gates demo_genesis (take 1 demo_history) = Inr st1 \<and>
     epoch (finalized st1) \<le> epoch (finalized (projr (from_history shipped_gates demo_genesis demo_history))) \<and>
     (\<forall>cp. is_justified st1 cp \<longrightarrow> is_justified (projr (from_history shipped_gates demo_genesis demo_history)) cp)"
proof -
  have "\<not> isl (from_history shipped_gates demo_genesis demo_history)"
    by code_simp
  then have "from_history shipped_gates demo_genesis (take 1 demo_history @ drop 1 demo_history)
      = Inr (projr (from_history shipped_gates demo_genesis demo_history))"
    using Inr_projr by simp
  then show ?thesis
    by (rule finality_monotone)
qed

text \<open>C30. The denominator floor: from the leak-recovery epoch on, with the leak-adjusted quorum, a
  checkpoint is only justified by validators whose leak-adjusted weight is a third of the
  \<^emph>\<open>unleaked\<close> stake, up to one unit of rounding.\<close>

theorem justification_floor:
  assumes "process_epoch g st votes = Inr (st', out)" "outcome_justified out = Some cp"
    and "leak_recovery_activation_epoch g \<le> votes_epoch votes"
    and "\<not> native_finality_set_active g (votes_epoch votes)"
  shows "unleaked_total votes \<le> 3 * sum (get_or 0 (adjusted_stake st votes)) (supporters g st votes (root cp)) + 1"
proof -
  have "voting_stake g st votes = adjusted_stake st votes"
    using assms(4) by (auto simp: voting_stake_def split: option.splits)
  moreover have "unleaked_total votes div 2 \<le> voting_total g st votes"
    using assms(3,4)
    by (auto simp: voting_total_def epoch_denominator_def quorum_denominator_def Let_def
        MIN_QUORUM_DENOMINATOR_NUM_def MIN_QUORUM_DENOMINATOR_DEN_def split: option.splits)
  ultimately have "2 * (unleaked_total votes div 2)
      \<le> 3 * sum (get_or 0 (adjusted_stake st votes)) (supporters g st votes (root cp))"
    using assms(2) process_epoch_success(4) [OF assms(1)] epoch_justified_iff [of g st votes cp]
    by (auto simp: reaches_quorum_def)
  then show ?thesis
    by linarith
qed

theorem justification_floor_witness:
  "unleaked_total (demo_ballot 3000) \<le>
     3 * sum (get_or 0 (adjusted_stake (demo_state 3000) (demo_ballot 3000)))
       (supporters shipped_gates (demo_state 3000) (demo_ballot 3000) [1]) + 1"
  using justification_floor [OF demo_runs(1) [unfolded demo_outcome_def [of 3000]] demo_runs(2) [unfolded demo_outcome_def]]
    by (simp add: native_finality_set_active_def epoch_gate_active_def shipped_gates_def demo_ballot_def demo_votes_def)

text \<open>C19. An epoch in order always succeeds, whatever the votes, when the active set has distinct
  indices and the stakes and leak balances are 64-bit values: the unchecked addition of the leak never
  overflows.  No leak balance rises above the validator's stake, and the balance of a validator whose
  vote counts does not rise.\<close>

theorem process_epoch_total:
  assumes "votes_epoch votes = next_epoch st" "next_epoch st < u64_max"
    and dist: "distinct (map index (active_set votes))"
    and range: "\<And>v. v \<in> set (active_set votes) \<Longrightarrow> effective_stake v \<le> u64_max \<and> leaked_of st (index v) \<le> u64_max"
  shows "\<exists>st' out. process_epoch g st votes = Inr (st', out) \<and>
    (\<forall>v \<in> set (active_set votes). leaked_of st' (index v) \<le> max (leaked_of st (index v)) (effective_stake v) \<and>
       (contains_key (counted_votes g st votes) (index v) \<longrightarrow> leaked_of st' (index v) \<le> leaked_of st (index v)))"
proof -
  let ?st0 = "st\<lparr>next_epoch := Suc (next_epoch st)\<rparr>"
  let ?valid = "counted_votes g st votes" and ?closed = "epoch_closed g ?st0 votes"
  let ?recover = "recovery_phase g votes (is_leaking ?closed (votes_epoch votes)) ?valid"
  obtain lk where lk: "leak_phase g votes (adjusted_stake st votes) ?valid ?closed = Some lk"
    and bound: "\<forall>v \<in> set (active_set votes). get_or 0 lk (index v) \<le> max (leaked_of st (index v)) (effective_stake v) \<and>
       (contains_key ?valid (index v) \<longrightarrow> get_or 0 lk (index v) = leaked_of st (index v))"
    using leak_phase_total [OF dist range, of ?closed g ?valid] by (auto simp: epoch_closed_fields)
  define fin where "fin = ?closed\<lparr>leaked := ?recover lk\<rparr>"
  obtain out where ok: "process_epoch g st votes = Inr (fin, out)"
    unfolding fin_def using assms(1,2) lk by (simp add: process_epoch_def epoch_body_unfold checked_fits)
  have le: "leaked_of fin i \<le> get_or 0 lk i" for i
    using recovery_phase_le [OF dist] by (simp add: leaked_of_def fin_def)
  have "leaked_of fin (index v) \<le> max (leaked_of st (index v)) (effective_stake v) \<and>
      (contains_key ?valid (index v) \<longrightarrow> leaked_of fin (index v) \<le> leaked_of st (index v))"
    if "v \<in> set (active_set votes)" for v
    using bspec [OF bound that] le [of "index v"] by auto
  then show ?thesis
    using ok by blast
qed

theorem process_epoch_total_witness:
  "\<exists>st' out. process_epoch shipped_gates (demo_state 3000) (demo_ballot 3000) = Inr (st', out) \<and>
    (\<forall>v \<in> set (active_set (demo_ballot 3000)).
       leaked_of st' (index v) \<le> max (leaked_of (demo_state 3000) (index v)) (effective_stake v) \<and>
       (contains_key (counted_votes shipped_gates (demo_state 3000) (demo_ballot 3000)) (index v) \<longrightarrow>
          leaked_of st' (index v) \<le> leaked_of (demo_state 3000) (index v)))"
  by (rule process_epoch_total)
    (auto simp: demo_state_def demo_ballot_def demo_votes_def u64_max_def om_wf_def leaked_of_def get_or_def)

text \<open>C20. Leak recovery, from its activation epoch on: in an epoch that ends without a leak every
  member of the active set gets back a step of its balance, its entry vanishes when it reaches zero,
  and as many steps as the balance has units clear it.\<close>

theorem leak_recovers:
  assumes "process_epoch g st votes = Inr (st', out)"
    and "distinct (map index (active_set votes))" "v \<in> set (active_set votes)"
    and "leak_recovery_activation_epoch g \<le> votes_epoch votes" "\<not> is_leaking st' (votes_epoch votes)"
  shows "leaked_of st' (index v) = recovery_step (leaked_of st (index v)) \<and>
    (leaked_of st' (index v) = 0 \<longrightarrow> \<not> contains_key (leaked st') (index v)) \<and>
    (recovery_step ^^ leaked_of st (index v)) (leaked_of st (index v)) = 0"
proof -
  obtain st0 lk where st0: "st0 = st\<lparr>next_epoch := Suc (next_epoch st)\<rparr>"
    and lk: "leak_phase g votes (adjusted_stake st votes) (counted_votes g st votes) (epoch_closed g st0 votes) = Some lk"
    and st': "st' = (epoch_closed g st0 votes)\<lparr>leaked := recovery_phase g votes
        (is_leaking (epoch_closed g st0 votes) (votes_epoch votes)) (counted_votes g st votes) lk\<rparr>"
    by (rule process_epoch_Inr [OF assms(1)])
  have calm: "\<not> is_leaking (epoch_closed g st0 votes) (votes_epoch votes)"
    using assms(5) by (simp add: st' is_leaking_def)
  then have "lk = leaked st"
    using lk by (simp add: leak_phase_def st0 epoch_closed_fields)
  moreover have "index v \<in> epoch_indices votes"
    using assms(3) by (simp add: epoch_indices_def)
  ultimately have "map_of (leaked st') (index v) = (case map_of (leaked st) (index v) of None \<Rightarrow> None
      | Some l \<Rightarrow> if recovery_step l = 0 then None else Some (recovery_step l))"
    using calm recovery_phase_lookup [OF assms(2,4)] by (simp add: st')
  moreover have "recovery_step 0 = 0"
    by (simp add: recovery_step_def)
  ultimately show ?thesis
    using recovery_drains by (auto simp: leaked_of_def get_or_def contains_key_def split: option.splits if_splits)
qed

theorem leak_recovers_witness:
  "leaked_of (fst (projr (process_epoch shipped_gates ((demo_state 3000)\<lparr>finalized := \<lparr> epoch = 2999, root = [] \<rparr>\<rparr>) (demo_ballot 3000)))) 1
     = recovery_step 40"
proof -
  let ?st = "(demo_state 3000)\<lparr>finalized := \<lparr> epoch = 2999, root = [] \<rparr>\<rparr>"
  let ?p = "process_epoch shipped_gates ?st (demo_ballot 3000)"
  have "\<not> isl ?p" "\<not> is_leaking (fst (projr ?p)) 3000"
    by code_simp+
  moreover have "votes_epoch (demo_ballot 3000) = 3000" "distinct (map index (active_set (demo_ballot 3000)))"
    and v: "\<lparr> index = 1, effective_stake = 10 \<rparr> \<in> set (active_set (demo_ballot 3000))"
    and "leaked_of ?st 1 = 40" "leak_recovery_activation_epoch shipped_gates = 2880"
    by (simp_all add: demo_ballot_def demo_votes_def leaked_of_def demo_state_def get_or_def shipped_gates_def)
  ultimately show ?thesis
    using leak_recovers [of shipped_gates ?st "demo_ballot 3000" "fst (projr ?p)" "snd (projr ?p)", OF _ _ v] Inr_projr [of ?p]
    by simp
qed

text \<open>C31. The frozen finality set, while its rule is active: it only changes at a coordinated recovery
  epoch, or by the handoff to the candidate that was taken at a checkpoint finalized in this epoch.\<close>

theorem frozen_set_handoff:
  assumes "process_epoch g st votes = Inr (st', out)"
    and "native_finality_set_active g (votes_epoch votes)" "frozen_set st = Some fs"
    and "\<not> native_finality_set_recovery_at g (votes_epoch votes)"
  shows "\<exists>fs'. frozen_set st' = Some fs' \<and>
    (current fs' = current fs \<or>
     (\<exists>f. outcome_finalized out = Some f \<and> pending fs = Some (current fs') \<and> set_epoch (current fs') = epoch f))"
proof -
  obtain st0 lk where st0: "st0 = st\<lparr>next_epoch := Suc (next_epoch st)\<rparr>"
    and st': "st' = (epoch_closed g st0 votes)\<lparr>leaked := recovery_phase g votes
        (is_leaking (epoch_closed g st0 votes) (votes_epoch votes)) (counted_votes g st votes) lk\<rparr>"
    and out: "outcome_finalized out = snd (epoch_applied g st0 votes)"
    by (rule process_epoch_Inr [OF assms(1)]) simp
  have "frozen_set (fst (epoch_applied g st0 votes)) = Some fs"
    using assms(2-4)
    by (simp add: epoch_applied_def apply_justification_fields epoch_opened_def open_finality_set_def st0)
  then show ?thesis
    using assms(2) unfolding out
    by (auto simp: st' epoch_closed_def close_finality_set_def Let_def split: option.splits)
qed

theorem frozen_set_handoff_witness:
  "\<exists>fs'. frozen_set (fst (projr (process_epoch (shipped_gates\<lparr>frozen_finality_set_epoch := 0\<rparr>)
        ((demo_state 3000)\<lparr>frozen_set := Some \<lparr> current = \<lparr> set_epoch = 5, members = [(0, 1)] \<rparr>, pending = None, last_seen = [] \<rparr>\<rparr>)
        (demo_ballot 3000)))) = Some fs' \<and> current fs' = \<lparr> set_epoch = 5, members = [(0, 1)] \<rparr>"
proof -
  let ?g = "shipped_gates\<lparr>frozen_finality_set_epoch := 0\<rparr>"
  let ?st = "(demo_state 3000)\<lparr>frozen_set := Some \<lparr> current = \<lparr> set_epoch = 5, members = [(0, 1)] \<rparr>, pending = None, last_seen = [] \<rparr>\<rparr>"
  let ?p = "process_epoch ?g ?st (demo_ballot 3000)"
  have "\<not> isl ?p"
    by code_simp
  moreover have "native_finality_set_active ?g (votes_epoch (demo_ballot 3000))"
    "\<not> native_finality_set_recovery_at ?g (votes_epoch (demo_ballot 3000))"
    by code_simp+
  ultimately show ?thesis
    using frozen_set_handoff [of ?g ?st "demo_ballot 3000" "fst (projr ?p)" "snd (projr ?p)"] Inr_projr [of ?p]
    by simp
qed

text \<open>The bite is computed in 128 bits and then cut to 64: where the quotient is a multiple of
  \<open>2 ^ 64\<close> an absent validator with a large stake loses nothing, which the minimum of one unit was
  meant to exclude.\<close>

lemma leak_bite_can_vanish: "leak_bite shipped_gates 200 128 (2 ^ 63) = 0"
  by (simp add: leak_bite_def inactivity_leak_quotient_def epoch_gate_active_def shipped_gates_def
      INACTIVITY_LEAK_QUOTIENT_def u64_max_def)

end
