(* ===== verification/Accountability.thy ===== *)
theory Accountability
  imports Finality
begin

text \<open>
  Accountable safety of the finality fold.  Two nodes replay two histories from the same genesis.
  As long as every epoch of both weighs its votes with the same stake map, a checkpoint one node
  has finalized is justified at every node that has moved past it, or validators holding a third
  of the stake have signed a slashable pair of votes.  The same holds between a node that replays
  from genesis and one that starts at a checkpoint which the first has justified.
\<close>

section \<open>Supermajority links\<close>

definition votes_link :: "checkpoint \<Rightarrow> checkpoint \<Rightarrow> attestation_data \<Rightarrow> bool" where
  "votes_link s t d \<longleftrightarrow> source_epoch d = epoch s \<and> source_root d = root s \<and>
     target_epoch d = epoch t \<and> target_root d = root t"

definition supermajority_link ::
  "(u32, u64) btree_map \<Rightarrow> (u32 \<times> attestation_data) set \<Rightarrow> checkpoint \<Rightarrow> checkpoint \<Rightarrow> bool" where
  "supermajority_link m A s t \<longleftrightarrow>
     (\<exists>S \<subseteq> set (keys_of m). reaches_quorum (sum_list (values_of m)) (sum (get_or 0 m) S) \<and>
        (\<forall>v \<in> S. \<exists>d. (v, d) \<in> A \<and> votes_link s t d))"

definition slashable :: "attestation_data \<Rightarrow> attestation_data \<Rightarrow> bool" where
  "slashable d d' \<longleftrightarrow> is_double_vote d d' \<or> surrounds d d' \<or> surrounds d' d"

text \<open>A third of the stake has signed a slashable pair.\<close>

definition third_slashable :: "(u32, u64) btree_map \<Rightarrow> (u32 \<times> attestation_data) set \<Rightarrow> bool" where
  "third_slashable m A \<longleftrightarrow>
     (\<exists>S \<subseteq> set (keys_of m). sum_list (values_of m) \<le> 3 * sum (get_or 0 m) S \<and>
        (\<forall>v \<in> S. \<exists>d d'. (v, d) \<in> A \<and> (v, d') \<in> A \<and> slashable d d'))"

lemma supermajority_link_mono: "supermajority_link m A s t \<Longrightarrow> A \<subseteq> B \<Longrightarrow> supermajority_link m B s t"
  unfolding supermajority_link_def by (meson subsetD)

lemma links_overlap:
  assumes "om_wf m" "supermajority_link m A s t" "supermajority_link m B s' t'"
    and pair: "\<And>d d'. votes_link s t d \<Longrightarrow> votes_link s' t' d' \<Longrightarrow> slashable d d'"
  shows "third_slashable m (A \<union> B)"
proof -
  obtain S S' where S: "S \<subseteq> set (keys_of m)" "reaches_quorum (sum_list (values_of m)) (sum (get_or 0 m) S)"
      "\<forall>v \<in> S. \<exists>d. (v, d) \<in> A \<and> votes_link s t d"
    and S': "S' \<subseteq> set (keys_of m)" "reaches_quorum (sum_list (values_of m)) (sum (get_or 0 m) S')"
      "\<forall>v \<in> S'. \<exists>d. (v, d) \<in> B \<and> votes_link s' t' d"
    using assms(2,3) unfolding supermajority_link_def by metis
  have "sum_list (values_of m) \<le> 3 * sum (get_or 0 m) (S \<inter> S')"
    using stake_quorum.overlap_weight [of S m S' 0] S S' sum_values_distinct [OF om.wf_distinct [OF assms(1)]]
    by simp
  moreover have "\<exists>d d'. (v, d) \<in> A \<union> B \<and> (v, d') \<in> A \<union> B \<and> slashable d d'" if "v \<in> S \<inter> S'" for v
    using that S(3) S'(3) pair by blast
  moreover have "S \<inter> S' \<subseteq> set (keys_of m)"
    using S(1) by blast
  ultimately show ?thesis
    unfolding third_slashable_def by metis
qed

lemma same_target_slashable:
  assumes "epoch t = epoch t'" "s \<noteq> s' \<or> t \<noteq> t'" "votes_link s t d" "votes_link s' t' d'"
  shows "slashable d d'"
  using assms by (auto simp: votes_link_def slashable_def is_double_vote_def)

lemma surrounding_link_slashable:
  "epoch s' < epoch s \<Longrightarrow> epoch t < epoch t' \<Longrightarrow> votes_link s t d \<Longrightarrow> votes_link s' t' d' \<Longrightarrow> slashable d d'"
  by (auto simp: votes_link_def slashable_def surrounds_def)

section \<open>Every justified checkpoint has its link\<close>

definition accounted ::
  "(u32, u64) btree_map \<Rightarrow> (u32 \<times> attestation_data) set \<Rightarrow> checkpoint \<Rightarrow> finality_state \<Rightarrow> bool" where
  "accounted m A genesis st \<longleftrightarrow> finality_inv st \<and> is_justified st genesis \<and>
     (\<forall>cp. is_justified st cp \<longrightarrow> cp = genesis \<or>
        (\<exists>s. is_justified st s \<and> epoch s < epoch cp \<and> supermajority_link m A s cp)) \<and>
     (finalized st = genesis \<or>
        (\<exists>t. is_justified st t \<and> epoch t = Suc (epoch (finalized st)) \<and> supermajority_link m A (finalized st) t))"

definition history_votes :: "epoch_votes list \<Rightarrow> (u32 \<times> attestation_data) set" where
  "history_votes history = (\<Union>votes \<in> set history. set (attestations votes))"

text \<open>Every epoch of the run weighs its votes with the stake map \<open>m\<close>.\<close>

fun steady_run :: "gates \<Rightarrow> (u32, u64) btree_map \<Rightarrow> finality_state \<Rightarrow> epoch_votes list \<Rightarrow> bool" where
  "steady_run g m st [] = True"
| "steady_run g m st (votes # history) =
     (voting_stake g st votes = m \<and>
      (case fold_step g st votes of Inl _ \<Rightarrow> True | Inr st' \<Rightarrow> steady_run g m st' history))"

lemma justified_has_link:
  assumes "epoch_justified g st votes = Some cp"
  shows "supermajority_link (voting_stake g st votes) (set (attestations votes)) (current_justified st) cp"
proof -
  let ?m = "voting_stake g st votes" and ?P = "supporters g st votes (root cp)"
  let ?S = "?P \<inter> set (keys_of ?m)"
  have "sum (get_or 0 ?m) ?P = sum (get_or 0 ?m) ?S"
    by (rule sum.mono_neutral_right)
      (use finite_supporters in \<open>auto simp: get_or_def split: option.splits\<close>, force dest: map_of_SomeD)
  then have q: "reaches_quorum (voting_total g st votes) (sum (get_or 0 ?m) ?S)"
    using assms by (simp add: epoch_justified_iff)
  moreover have "sum (get_or 0 ?m) ?S \<le> sum_list (values_of ?m)"
    by (rule sum_get_or_any) simp
  ultimately have "reaches_quorum (sum_list (values_of ?m)) (sum (get_or 0 ?m) ?S)"
    using voting_total_ge [of g st votes] by (auto simp: reaches_quorum_def)
  moreover have "\<exists>d. (v, d) \<in> set (attestations votes) \<and> votes_link (current_justified st) cp d" if "v \<in> ?S" for v
    using that epoch_justified_epoch [OF assms]
    by (auto simp: supporters_def votes_about_def votes_link_def)
  ultimately show ?thesis
    unfolding supermajority_link_def by (meson inf_le2)
qed

lemma is_justified_step:
  assumes inv: "finality_inv st" and ok: "process_epoch g st votes = Inr (st', out)"
  shows "is_justified st' cp \<longleftrightarrow> is_justified st cp \<or> epoch_justified g st votes = Some cp"
proof (cases "epoch_justified g st votes")
  case None
  then show ?thesis
    using process_epoch_success(7) [OF ok] by (simp add: is_justified_def)
next
  case (Some c)
  have "epoch c = next_epoch st"
    using epoch_justified_epoch [OF Some] process_epoch_success(1) [OF ok] by simp
  then have "\<not> is_justified st cp" if "epoch cp = epoch c"
    using that is_justified_bound [OF inv, of cp] inv by (auto simp: finality_inv_def)
  then show ?thesis
    using Some process_epoch_success(7) [OF ok]
    by (cases "epoch cp = epoch c") (auto simp: is_justified_def om_insert_lookup)
qed

lemma accounted_step:
  assumes acc: "accounted m A genesis st" and ok: "process_epoch g st votes = Inr (st', out)"
    and m: "voting_stake g st votes = m"
  shows "accounted m (A \<union> set (attestations votes)) genesis st'"
proof -
  let ?A = "A \<union> set (attestations votes)"
  have inv: "finality_inv st"
    using acc by (simp add: accounted_def)
  note just = is_justified_step [OF inv ok]
  have up: "supermajority_link m A s t \<Longrightarrow> supermajority_link m ?A s t" for s t
    by (erule supermajority_link_mono) simp
  have new: "is_justified st' (current_justified st) \<and> epoch (current_justified st) < epoch c \<and>
      supermajority_link m ?A (current_justified st) c" if "epoch_justified g st votes = Some c" for c
  proof -
    have "supermajority_link m ?A (current_justified st) c"
      using supermajority_link_mono [OF justified_has_link [OF that]] m by simp
    moreover have "epoch c = next_epoch st"
      using epoch_justified_epoch [OF that] process_epoch_success(1) [OF ok] by simp
    ultimately show ?thesis
      using inv by (simp add: just finality_inv_def)
  qed
  have "cp = genesis \<or> (\<exists>s. is_justified st' s \<and> epoch s < epoch cp \<and> supermajority_link m ?A s cp)"
    if "is_justified st' cp" for cp
    using that acc up new unfolding just accounted_def by metis
  moreover have "finalized st' = genesis \<or> (\<exists>t. is_justified st' t \<and> epoch t = Suc (epoch (finalized st')) \<and>
      supermajority_link m ?A (finalized st') t)"
  proof (cases "outcome_finalized out")
    case None
    then show ?thesis
      using acc up process_epoch_success(9) [OF ok] unfolding just accounted_def by force
  next
    case (Some f)
    then obtain c where "epoch_justified g st votes = Some c" "epoch c = Suc (epoch f)" "f = current_justified st"
      using process_epoch_success(5) [OF ok] by (auto simp: checked_add_eq_Some split: option.splits if_splits)
    then show ?thesis
      using new just process_epoch_success(9) [OF ok] Some by auto
  qed
  ultimately show ?thesis
    using process_epoch_inv [OF inv ok] acc by (simp add: accounted_def just)
qed

lemma fold_step_Inr: "fold_step g st votes = Inr st' \<longleftrightarrow> (\<exists>out. process_epoch g st votes = Inr (st', out))"
  by (auto simp: fold_step_def map_sum_def split: sum.splits)

lemma accounted_run:
  "accounted m A genesis st \<Longrightarrow> steady_run g m st history \<Longrightarrow>
   run_until_error (fold_step g) st history = Inr st' \<Longrightarrow> accounted m (A \<union> history_votes history) genesis st'"
proof (induction history arbitrary: A st)
  case (Cons votes history)
  then obtain st1 out where one: "process_epoch g st votes = Inr (st1, out)" "voting_stake g st votes = m"
    and rest: "steady_run g m st1 history" "run_until_error (fold_step g) st1 history = Inr st'"
    by (auto simp: fold_step_Inr split: sum.splits)
  have "A \<union> history_votes (votes # history) = (A \<union> set (attestations votes)) \<union> history_votes history"
    by (auto simp: history_votes_def)
  then show ?case
    using Cons.IH [OF accounted_step [OF Cons.prems(1) one] rest] by simp
qed (simp add: history_votes_def)

lemma accounted_from_history:
  assumes "from_history g genesis history = Inr st'" "new_state genesis = Inr st" "steady_run g m st history"
  shows "accounted m (history_votes history) genesis st'"
proof -
  have "cp = genesis" if "is_justified st cp" for cp
    using that assms(2) by (auto simp: new_state_def is_justified_def split: option.splits if_splits)
  then have "accounted m {} genesis st"
    using new_state_inv [OF assms(2)] assms(2) by (auto simp: accounted_def new_state_def is_justified_def split: option.splits)
  then show ?thesis
    using accounted_run [of m "{}"] assms by (auto simp: from_history_def)
qed

section \<open>Safety\<close>

lemma accounted_link:
  "accounted m A genesis st \<Longrightarrow> is_justified st cp \<Longrightarrow> cp \<noteq> genesis \<Longrightarrow>
     \<exists>s. is_justified st s \<and> epoch s < epoch cp \<and> supermajority_link m A s cp"
  unfolding accounted_def by metis

lemma genesis_least:
  assumes "accounted m A genesis st"
  shows "is_justified st cp \<Longrightarrow> cp = genesis \<or> epoch genesis < epoch cp"
proof (induction "epoch cp" arbitrary: cp rule: less_induct)
  case less
  then show ?case
    using accounted_link [OF assms] by (metis order_less_trans)
qed

text \<open>A checkpoint with its link and the link to its successor is met by every node that has moved past it, wherever
  that node started.\<close>

lemma linked_safe:
  assumes "om_wf m" "supermajority_link m A s0 f" "supermajority_link m A f t" "epoch t = Suc (epoch f)"
    and b: "accounted m B start sb" and start: "epoch start < epoch f" and past: "epoch f \<le> epoch (current_justified sb)"
  shows "is_justified sb f \<or> third_slashable m (A \<union> B)"
proof -
  have cb: "is_justified sb (current_justified sb)"
    using b by (auto simp: accounted_def finality_inv_def)
  obtain c where c: "is_justified sb c" "epoch f \<le> epoch c"
    and least: "\<And>c'. is_justified sb c' \<Longrightarrow> epoch f \<le> epoch c' \<Longrightarrow> epoch c \<le> epoch c'"
    using ex_has_least_nat [of "\<lambda>c. is_justified sb c \<and> epoch f \<le> epoch c" _ epoch] cb past by blast
  have "c \<noteq> start"
    using c(2) start by auto
  then obtain s where s: "is_justified sb s" "epoch s < epoch c" "supermajority_link m B s c"
    using accounted_link [OF b c(1)] by blast
  show ?thesis
  proof (cases "epoch c = epoch f")
    case True
    then show ?thesis
      using links_overlap [OF assms(1,2) s(3)] same_target_slashable [of f c s0 s] c(1) by metis
  next
    case later: False
    have lt: "epoch s < epoch f"
      using least s by (meson not_le)
    then have "s \<noteq> f" "epoch t = epoch c \<or> epoch t < epoch c"
      using assms(4) c(2) later by auto
    then have "slashable d d'" if "votes_link f t d" "votes_link s c d'" for d d'
      using that lt same_target_slashable surrounding_link_slashable by metis
    then show ?thesis
      using links_overlap [OF assms(1,3) s(3)] by blast
  qed
qed

text \<open>What finality has of it: the finalized checkpoint is where the node started, or it has both links.\<close>

lemma finalized_links:
  assumes "accounted m A start st"
  obtains "finalized st = start"
    | s t where "epoch start < epoch (finalized st)" "supermajority_link m A s (finalized st)"
      "supermajority_link m A (finalized st) t" "epoch t = Suc (epoch (finalized st))"
proof (cases "finalized st = start")
  case False
  have f: "is_justified st (finalized st)"
    using assms by (auto simp: accounted_def finality_inv_def)
  obtain s where "supermajority_link m A s (finalized st)"
    using accounted_link [OF assms f False] by blast
  moreover obtain t where "supermajority_link m A (finalized st) t" "epoch t = Suc (epoch (finalized st))"
    using assms False unfolding accounted_def by metis
  ultimately show ?thesis
    using that(2) genesis_least [OF assms f] False by blast
qed (rule that(1))

lemma finalized_safe:
  assumes "om_wf m" and a: "accounted m A genesis sa" and b: "accounted m B genesis sb"
    and past: "epoch (finalized sa) \<le> epoch (current_justified sb)"
  shows "is_justified sb (finalized sa) \<or> third_slashable m (A \<union> B)"
  using a
proof (cases rule: finalized_links)
  case 1
  then show ?thesis
    using b by (simp add: accounted_def)
next
  case (2 s t)
  show ?thesis
    by (rule linked_safe [OF assms(1) 2(2-4) b 2(1) past])
qed

text \<open>A node that starts at a checkpoint another node has justified agrees with it in both directions.\<close>

lemma is_justified_unique: "is_justified st c \<Longrightarrow> is_justified st d \<Longrightarrow> epoch c = epoch d \<Longrightarrow> c = d"
  by (auto simp: is_justified_def intro: checkpoint.equality)

lemma anchored_safe:
  assumes "om_wf m" and a: "accounted m A genesis sa" and b: "accounted m B c sb" and c: "is_justified sa c"
  shows "epoch c \<le> epoch (finalized sa) \<Longrightarrow> epoch (finalized sa) \<le> epoch (current_justified sb) \<Longrightarrow>
      is_justified sb (finalized sa) \<or> third_slashable m (A \<union> B)"
    and "epoch (finalized sb) \<le> epoch (current_justified sa) \<Longrightarrow>
      is_justified sa (finalized sb) \<or> third_slashable m (A \<union> B)"
proof -
  assume from_c: "epoch c \<le> epoch (finalized sa)" and past: "epoch (finalized sa) \<le> epoch (current_justified sb)"
  have f: "is_justified sa (finalized sa)" and start: "is_justified sb c"
    using a b by (auto simp: accounted_def finality_inv_def)
  show "is_justified sb (finalized sa) \<or> third_slashable m (A \<union> B)"
  proof (cases "epoch c = epoch (finalized sa)")
    case True
    then show ?thesis
      using is_justified_unique [OF c f] start by simp
  next
    case False
    then have later: "epoch c < epoch (finalized sa)"
      using from_c by simp
    show ?thesis
      using a
    proof (cases rule: finalized_links)
      case 1
      then show ?thesis
        using later genesis_least [OF a c] by auto
    next
      case (2 s t)
      show ?thesis
        by (rule linked_safe [OF assms(1) 2(2-4) b later past])
    qed
  qed
next
  assume past: "epoch (finalized sb) \<le> epoch (current_justified sa)"
  have old: "epoch genesis \<le> epoch c"
    using genesis_least [OF a c] by auto
  show "is_justified sa (finalized sb) \<or> third_slashable m (A \<union> B)"
    using b
  proof (cases rule: finalized_links)
    case 1
    then show ?thesis
      using c by simp
  next
    case (2 s t)
    have "epoch genesis < epoch (finalized sb)"
      using 2(1) old by simp
    then have "is_justified sa (finalized sb) \<or> third_slashable m (B \<union> A)"
      by (rule linked_safe [OF assms(1) 2(2-4) a _ past])
    then show ?thesis
      by (simp add: Un_commute)
  qed
qed

section \<open>Properties\<close>

text \<open>C1. Accountable safety.  Two nodes replay two histories from the same genesis, and every epoch of
  both weighs its votes with the same stake map \<open>m\<close>.  If the second has a justified checkpoint at or
  after the epoch the first has finalized, then the finalized checkpoint is justified at the second too,
  or validators with at least a third of the stake have signed a slashable pair of votes (a double vote
  or a surround vote) in the two histories.\<close>

theorem accountable_safety:
  assumes "new_state genesis = Inr st" "om_wf m"
    and "from_history g genesis ha = Inr sa" "steady_run g m st ha"
    and "from_history g genesis hb = Inr sb" "steady_run g m st hb"
    and "epoch (finalized sa) \<le> epoch (current_justified sb)"
  shows "is_justified sb (finalized sa) \<or> third_slashable m (history_votes ha \<union> history_votes hb)"
  using finalized_safe [OF assms(2) accounted_from_history [OF assms(3,1,4)]
      accounted_from_history [OF assms(5,1,6)] assms(7)] .

text \<open>A second history: validators 1 and 2 justify epoch 3 straight from genesis, and the vote of
  validator 2 surrounds its vote of the first history.\<close>

definition demo_fork :: "epoch_votes list" where
  "demo_fork = [demo_votes 1 [], demo_votes 2 [],
     demo_votes 3 [(1, demo_vote 0 [] 3 [9]), (2, demo_vote 0 [] 3 [9])]]"

definition demo_start :: finality_state where
  "demo_start = projr (new_state demo_genesis)"

theorem accountable_safety_witness:
  "third_slashable [(0, 10), (1, 10), (2, 10)] (history_votes demo_history \<union> history_votes demo_fork)"
proof -
  let ?g = shipped_gates and ?m = "[(0, 10), (1, 10), (2, 10)] :: (u32, u64) btree_map"
  let ?a = "from_history ?g demo_genesis demo_history" and ?b = "from_history ?g demo_genesis demo_fork"
  have runs: "\<not> isl (new_state demo_genesis)" "\<not> isl ?a" "\<not> isl ?b"
    "steady_run ?g ?m demo_start demo_history" "steady_run ?g ?m demo_start demo_fork"
    by code_simp+
  have ends: "epoch (finalized (projr ?a)) = 1" "epoch (current_justified (projr ?b)) = 3"
    "\<not> is_justified (projr ?b) (finalized (projr ?a))"
    by code_simp+
  show ?thesis
    using accountable_safety [of demo_genesis demo_start ?m ?g demo_history "projr ?a" demo_fork "projr ?b"]
      runs(4,5) ends Inr_projr [OF runs(1)] Inr_projr [OF runs(2)] Inr_projr [OF runs(3)]
    by (simp add: demo_start_def om_wf_def)
qed

end
