(* ===== verification/Forkchoice.thy ===== *)
theory Forkchoice
  imports Ordered_Map
begin

text \<open>
  The LMD-GHOST fork choice of \<^verbatim>\<open>bloch-pos-committee/src/forkchoice.rs\<close>: the store of latest
  messages, the weight of a block, the bottom-up accumulation of all weights (Kahn's algorithm over
  the child-to-parent edges) and the two descents, the production one over the accumulated weights
  and the reference one that weighs every child from scratch.

  The hash maps are association lists with distinct keys in an arbitrary order.  Every loop is a
  recursive function: the bounded ones with a termination proof, the unbounded descent of the
  reference as a partial function whose value \<^term>\<open>None\<close> stands for not returning.  The step
  counter of the sources is a test instrument and is left out.
\<close>

section \<open>The store\<close>

record latest_message =
  msg_slot :: u64
  msg_root :: hash32

text \<open>Child root to parent root.\<close>

type_synonym block_tree = "(hash32 \<times> hash32) list"

record store =
  latest :: "(u32 \<times> latest_message) list"
  stake_of :: "(u32 \<times> u64) list"
  equivocators :: "u32 list"

definition new_store :: store where
  "new_store = \<lparr> latest = [], stake_of = [], equivocators = [] \<rparr>"

definition set_stake :: "u32 \<Rightarrow> u64 \<Rightarrow> store \<Rightarrow> store" where
  "set_stake v s st = st\<lparr>stake_of := AList.update v s (stake_of st)\<rparr>"

definition observe :: "store \<Rightarrow> u32 \<Rightarrow> latest_message \<Rightarrow> store \<times> bool" where
  "observe st v msg =
     (if v \<in> set (equivocators st) then (st, False)
      else (case map_of (latest st) v of
              Some prev \<Rightarrow>
                if msg_slot prev = msg_slot msg \<and> msg_root prev \<noteq> msg_root msg
                then (st\<lparr>latest := AList.delete v (latest st), equivocators := List.insert v (equivocators st)\<rparr>, False)
                else if msg_slot msg \<le> msg_slot prev then (st, False)
                else (st\<lparr>latest := AList.update v msg (latest st)\<rparr>, True)
            | None \<Rightarrow> (st\<lparr>latest := AList.update v msg (latest st)\<rparr>, True)))"

section \<open>Ancestry\<close>

function descendant_loop :: "block_tree \<Rightarrow> hash32 \<Rightarrow> usize \<Rightarrow> hash32 \<Rightarrow> usize \<Rightarrow> bool" where
  "descendant_loop tree ancestor limit cur steps =
     (if cur = ancestor then True
      else (case map_of tree cur of
              Some p \<Rightarrow> if limit < steps + 1 then False
                        else descendant_loop tree ancestor limit p (steps + 1)
            | None \<Rightarrow> False))"
  by pat_completeness auto
termination
  by (relation "measure (\<lambda>(_, _, limit, _, steps). limit - steps)") auto

declare descendant_loop.simps [simp del]

definition is_descendant_or_self :: "block_tree \<Rightarrow> hash32 \<Rightarrow> hash32 \<Rightarrow> bool" where
  "is_descendant_or_self tree node ancestor = descendant_loop tree ancestor (length tree + 1) node 0"

definition weight :: "store \<Rightarrow> block_tree \<Rightarrow> hash32 \<Rightarrow> u128" where
  "weight st tree r =
     foldl (\<lambda>total (v, msg). if is_descendant_or_self tree (msg_root msg) r
        then total + get_or 0 (stake_of st) v else total) 0 (latest st)"

section \<open>Subtree weights\<close>

definition hm_entry :: "'k \<Rightarrow> 'v \<Rightarrow> ('v \<Rightarrow> 'v) \<Rightarrow> ('k \<times> 'v) list \<Rightarrow> ('k \<times> 'v) list" where
  "hm_entry k d f m = AList.update k (f (get_or d m k)) m"

text \<open>The stake of every vote on the block it names, and an entry for every known block.\<close>

definition direct_weights :: "store \<Rightarrow> block_tree \<Rightarrow> (hash32 \<times> u128) list" where
  "direct_weights st tree =
     foldl (\<lambda>w b. hm_entry b 0 id w)
       (foldl (\<lambda>w (v, msg). hm_entry (msg_root msg) 0 (\<lambda>x. x + get_or 0 (stake_of st) v) w) [] (latest st))
       (keys_of tree)"

definition child_counts :: "block_tree \<Rightarrow> (hash32 \<times> usize) list" where
  "child_counts tree = foldl (\<lambda>m p. hm_entry p 0 (\<lambda>n. n + 1) m) [] (values_of tree)"

text \<open>One round of the loop: the popped block hands its weight to its parent.  The stack of ready
  blocks is a list whose head is its top.  \<open>*n -= 1\<close> panics at zero.\<close>

definition kahn_step ::
  "block_tree \<Rightarrow> (hash32 \<times> u128) list \<times> (hash32 \<times> usize) list \<times> hash32 list \<Rightarrow> hash32
    \<Rightarrow> ((hash32 \<times> u128) list \<times> (hash32 \<times> usize) list \<times> hash32 list) option" where
  "kahn_step tree s b =
     (let (weights, waiting, ready) = s; w = get_or 0 weights b in
      case map_of tree b of
        None \<Rightarrow> Some (weights, waiting, ready)
      | Some parent \<Rightarrow>
          let weights' = hm_entry parent 0 (\<lambda>x. x + w) weights in
          case map_of waiting parent of
            None \<Rightarrow> Some (weights', waiting, ready)
          | Some n \<Rightarrow> do {
              n' \<leftarrow> checked_sub n 1;
              Some (weights', AList.update parent n' waiting,
                if n' = 0 \<and> contains_key tree parent then parent # ready else ready)
            })"

lemma sum_update_less:
  "map_of m k = Some n \<Longrightarrow> n' < (n::nat) \<Longrightarrow> sum_list (values_of (AList.update k n' m)) < sum_list (values_of m)"
  by (induction m) (auto split: if_splits)

lemma kahn_step_less:
  assumes "kahn_step tree (weights, waiting, ready) b = Some (weights', waiting', ready')"
  shows "sum_list (values_of waiting') + length ready' < sum_list (values_of waiting) + Suc (length ready)"
proof (cases "map_of tree b")
  case None
  then show ?thesis
    using assms by (simp add: kahn_step_def)
next
  case (Some p)
  show ?thesis
  proof (cases "map_of waiting p")
    case None
    then show ?thesis
      using assms Some by (simp add: kahn_step_def Let_def)
  next
    case (Some n)
    then have "waiting' = AList.update p (n - 1) waiting" "0 < n" "length ready' \<le> Suc (length ready)"
      using assms \<open>map_of tree b = Some p\<close>
      by (auto simp: kahn_step_def Let_def checked_sub_eq_Some bind_eq_Some_conv)
    then show ?thesis
      using sum_update_less [OF Some, of "n - 1"] by simp
  qed
qed

function kahn ::
  "block_tree \<Rightarrow> (hash32 \<times> u128) list \<Rightarrow> (hash32 \<times> usize) list \<Rightarrow> hash32 list \<Rightarrow> (hash32 \<times> u128) list option" where
  "kahn tree weights waiting [] = Some weights"
| "kahn tree weights waiting (b # ready) =
     (case kahn_step tree (weights, waiting, ready) b of
        None \<Rightarrow> None
      | Some (weights', waiting', ready') \<Rightarrow> kahn tree weights' waiting' ready')"
  by pat_completeness auto
termination
  by (relation "measure (\<lambda>(_, _, waiting, ready). sum_list (values_of waiting) + length ready)")
    (auto dest!: kahn_step_less)

definition subtree_weights :: "store \<Rightarrow> block_tree \<Rightarrow> (hash32 \<times> u128) list option" where
  "subtree_weights st tree =
     (let counts = child_counts tree in
      kahn tree (direct_weights st tree) counts
        (rev (filter (\<lambda>b. get_or 0 counts b = 0) (keys_of tree))))"

section \<open>The head\<close>

definition wins_tie :: "(hash32 \<times> u64) list option \<Rightarrow> hash32 \<Rightarrow> hash32 \<Rightarrow> bool" where
  "wins_tie slots child best =
     (case slots of
        Some sl \<Rightarrow>
          let child_slot = get_or u64_max sl child; best_slot = get_or u64_max sl best in
          child_slot < best_slot \<or> (child_slot = best_slot \<and> best < child)
      | None \<Rightarrow> best < child)"

definition best_kid :: "(hash32 \<Rightarrow> u128) \<Rightarrow> (hash32 \<times> u64) list option \<Rightarrow> hash32 \<Rightarrow> hash32 list \<Rightarrow> hash32" where
  "best_kid w_of slots kid kids =
     fst (foldl (\<lambda>(best, best_w) child.
            if best_w < w_of child \<or> (w_of child = best_w \<and> wins_tie slots child best)
            then (child, w_of child) else (best, best_w)) (kid, w_of kid) kids)"

function head_loop ::
  "(hash32 \<Rightarrow> u128) \<Rightarrow> (hash32 \<times> hash32 list) list \<Rightarrow> (hash32 \<times> u64) list option \<Rightarrow> usize \<Rightarrow> usize \<Rightarrow> hash32 \<Rightarrow> hash32" where
  "head_loop w_of children slots limit levels cur =
     (if levels \<le> limit
      then (case map_of children cur of
              Some (kid # kids) \<Rightarrow> head_loop w_of children slots limit (levels + 1) (best_kid w_of slots kid kids)
            | _ \<Rightarrow> cur)
      else cur)"
  by pat_completeness auto
termination
  by (relation "measure (\<lambda>(_, _, _, limit, levels, _). Suc limit - levels)") auto

declare head_loop.simps [simp del]

definition head_inner ::
  "store \<Rightarrow> block_tree \<Rightarrow> hash32 \<Rightarrow> (hash32 \<times> hash32 list) list \<Rightarrow> (hash32 \<times> u64) list option \<Rightarrow> hash32 option" where
  "head_inner st tree justified children slots = do {
     weights \<leftarrow> subtree_weights st tree;
     Some (head_loop (get_or 0 weights) children slots (length tree + length children + 1) 0 justified)
   }"

definition head_of :: "store \<Rightarrow> block_tree \<Rightarrow> hash32 \<Rightarrow> (hash32 \<times> hash32 list) list \<Rightarrow> hash32 option" where
  "head_of st tree justified children = head_inner st tree justified children None"

definition head_with_slot_tiebreak ::
  "store \<Rightarrow> block_tree \<Rightarrow> hash32 \<Rightarrow> (hash32 \<times> hash32 list) list \<Rightarrow> (hash32 \<times> u64) list \<Rightarrow> hash32 option" where
  "head_with_slot_tiebreak st tree justified children slots = head_inner st tree justified children (Some slots)"

partial_function (option) head_reference ::
  "store \<Rightarrow> block_tree \<Rightarrow> hash32 \<Rightarrow> (hash32 \<times> hash32 list) list \<Rightarrow> hash32 option" where
  "head_reference st tree cur children =
     (case map_of children cur of
        Some (kid # kids) \<Rightarrow> head_reference st tree (best_kid (weight st tree) None kid kids) children
      | _ \<Rightarrow> Some cur)"

definition voters :: "store \<Rightarrow> usize" where
  "voters st = length (latest st)"

section \<open>Ancestry is reachability\<close>

definition parent_edges :: "block_tree \<Rightarrow> (hash32 \<times> hash32) set" where
  "parent_edges tree = {(c, p). map_of tree c = Some p}"

fun ancestor_at :: "block_tree \<Rightarrow> nat \<Rightarrow> hash32 \<Rightarrow> hash32 option" where
  "ancestor_at tree 0 b = Some b"
| "ancestor_at tree (Suc k) b = Option.bind (map_of tree b) (ancestor_at tree k)"

lemma ancestor_at_add:
  "ancestor_at tree (i + j) b = Option.bind (ancestor_at tree i b) (ancestor_at tree j)"
  by (induction i arbitrary: b) (auto split: bind_split)

lemma ancestor_within_Suc:
  assumes "b \<noteq> a"
  shows "(\<exists>k \<le> Suc n. ancestor_at tree k b = Some a) \<longleftrightarrow>
    (\<exists>p. map_of tree b = Some p \<and> (\<exists>k \<le> n. ancestor_at tree k p = Some a))" (is "?L \<longleftrightarrow> ?R")
proof
  assume ?L
  then obtain k where "k \<le> Suc n" "ancestor_at tree k b = Some a"
    by blast
  then show ?R
    using assms by (cases k) (auto simp: bind_eq_Some_conv)
next
  assume ?R
  then obtain p k where "map_of tree b = Some p" "k \<le> n" "ancestor_at tree k p = Some a"
    by blast
  then show ?L
    by (intro exI [of _ "Suc k"]) simp
qed

lemma descendant_loop_iff:
  "steps \<le> limit \<Longrightarrow> descendant_loop tree a limit b steps \<longleftrightarrow> (\<exists>k \<le> limit - steps. ancestor_at tree k b = Some a)"
proof (induction tree a limit b steps rule: descendant_loop.induct)
  case (1 tree a limit b steps)
  show ?case
  proof (cases "b = a")
    case True
    then show ?thesis
      by (subst descendant_loop.simps) (auto intro: exI [of _ 0])
  next
    case False
    show ?thesis
    proof (cases "steps < limit")
      case True
      then have "limit - steps = Suc (limit - Suc steps)"
        by simp
      then show ?thesis
        using 1 False True
        by (subst descendant_loop.simps) (auto simp: ancestor_within_Suc simp del: ancestor_at.simps split: option.splits)
    next
      case no: False
      then show ?thesis
        using False by (subst descendant_loop.simps) (simp split: option.splits)
    qed
  qed
qed

lemma ancestor_at_reach: "(b, a) \<in> (parent_edges tree)\<^sup>* \<longleftrightarrow> (\<exists>k. ancestor_at tree k b = Some a)"
proof
  assume "(b, a) \<in> (parent_edges tree)\<^sup>*"
  then show "\<exists>k. ancestor_at tree k b = Some a"
    by (induction rule: converse_rtrancl_induct)
      (force simp: parent_edges_def intro: exI [of _ 0] exI [of _ "Suc _"])+
next
  have "ancestor_at tree k b = Some a \<Longrightarrow> (b, a) \<in> (parent_edges tree)\<^sup>*" for k
    by (induction k arbitrary: b)
      (auto simp: bind_eq_Some_conv parent_edges_def intro: converse_rtrancl_into_rtrancl)
  then show "\<exists>k. ancestor_at tree k b = Some a \<Longrightarrow> (b, a) \<in> (parent_edges tree)\<^sup>*"
    by blast
qed

text \<open>A walk longer than the number of known blocks has met a block twice, so a shorter one exists.\<close>

lemma ancestor_at_short:
  assumes "ancestor_at tree k b = Some a"
  shows "\<exists>k \<le> length tree. ancestor_at tree k b = Some a"
proof -
  obtain k where k: "ancestor_at tree k b = Some a" and least: "\<And>j. j < k \<Longrightarrow> ancestor_at tree j b \<noteq> Some a"
    using assms exists_least_iff [of "\<lambda>k. ancestor_at tree k b = Some a"] by blast
  let ?x = "\<lambda>i. the (ancestor_at tree i b)"
  have x: "ancestor_at tree i b = Some (?x i)" and rest: "ancestor_at tree (k - i) (?x i) = Some a" if "i \<le> k" for i
    using k that ancestor_at_add [of tree i "k - i" b] by (auto split: bind_splits)
  have "?x i \<in> set (keys_of tree)" if "i < k" for i
  proof -
    have "k - i = Suc (k - Suc i)"
      using that by simp
    then show ?thesis
      using rest [of i] that by (auto simp: bind_eq_Some_conv map_of_eq_Some_iff dest!: map_of_SomeD intro: rev_image_eqI)
  qed
  then have "?x ` {..<k} \<subseteq> set (keys_of tree)"
    by auto
  moreover have "inj_on ?x {..<k}"
  proof (rule linorder_inj_onI)
    fix i j assume "i < j" "j \<in> {..<k}"
    have "ancestor_at tree (i + (k - j)) b = Option.bind (ancestor_at tree i b) (ancestor_at tree (k - j))"
      by (rule ancestor_at_add)
    moreover have "i + (k - j) < k"
      using \<open>i < j\<close> \<open>j \<in> {..<k}\<close> by auto
    ultimately show "?x i \<noteq> ?x j"
      using x [of i] rest [of j] least [of "i + (k - j)"] \<open>i < j\<close> \<open>j \<in> {..<k}\<close> by auto
  qed auto
  ultimately have "k \<le> card (set (keys_of tree))"
    by (metis card_image card_lessThan card_mono finite_set)
  also have "\<dots> \<le> length tree"
    using card_length [of "keys_of tree"] by simp
  finally show ?thesis
    using k by blast
qed

lemma descendant_iff_reach: "is_descendant_or_self tree b a \<longleftrightarrow> (b, a) \<in> (parent_edges tree)\<^sup>*"
proof -
  have "is_descendant_or_self tree b a \<longleftrightarrow> (\<exists>k \<le> length tree + 1. ancestor_at tree k b = Some a)"
    unfolding is_descendant_or_self_def by (simp add: descendant_loop_iff)
  also have "\<dots> \<longleftrightarrow> (\<exists>k. ancestor_at tree k b = Some a)"
    using ancestor_at_short by (metis add.commute trans_le_add2)
  finally show ?thesis
    by (simp add: ancestor_at_reach)
qed

section \<open>The weight of a block and of its children\<close>

definition children_of :: "block_tree \<Rightarrow> hash32 \<Rightarrow> hash32 set" where
  "children_of tree b = {c. map_of tree c = Some b}"

definition direct :: "store \<Rightarrow> hash32 \<Rightarrow> nat" where
  "direct st b = (\<Sum>(v, m) \<leftarrow> latest st. if msg_root m = b then get_or 0 (stake_of st) v else 0)"

lemma finite_children_of [simp]: "finite (children_of tree b)"
  by (rule finite_subset [of _ "set (keys_of tree)"]) (force simp: children_of_def dest: map_of_SomeD)+

lemma foldl_if_sum:
  "foldl (\<lambda>t x. if P x then t + f x else t) (a::nat) xs = a + (\<Sum>x \<leftarrow> xs. if P x then f x else 0)"
  by (induction xs arbitrary: a) simp_all

lemma weight_sum: "weight st tree r =
    (\<Sum>(v, m) \<leftarrow> latest st. if (msg_root m, r) \<in> (parent_edges tree)\<^sup>* then get_or 0 (stake_of st) v else 0)"
  using foldl_if_sum [of "\<lambda>e. (msg_root (snd e), r) \<in> (parent_edges tree)\<^sup>*" "\<lambda>e. get_or 0 (stake_of st) (fst e)" 0 "latest st"]
  by (simp add: weight_def descendant_iff_reach case_prod_unfold)

lemma parent_edges_det: "(b, p) \<in> parent_edges tree \<Longrightarrow> (b, q) \<in> parent_edges tree \<Longrightarrow> p = q"
  by (simp add: parent_edges_def)

lemma parent_edges_linear:
  assumes "(r, c) \<in> (parent_edges tree)\<^sup>*" "(r, c') \<in> (parent_edges tree)\<^sup>*"
  shows "(c, c') \<in> (parent_edges tree)\<^sup>* \<or> (c', c) \<in> (parent_edges tree)\<^sup>*"
  using assms
proof (induction rule: converse_rtrancl_induct)
  case (step r x)
  then show ?case
    by (metis converse_rtranclE parent_edges_det rtrancl.rtrancl_into_rtrancl rtrancl_trans r_into_rtrancl)
qed simp

text \<open>A vote counts for a block when it names the block, or counts for exactly one of its children.\<close>

lemma reach_split:
  assumes acyclic: "acyclic (parent_edges tree)"
  shows "(if (r, b) \<in> (parent_edges tree)\<^sup>* then s else (0::nat)) =
    (if r = b then s else 0) + (\<Sum>c \<in> children_of tree b. if (r, c) \<in> (parent_edges tree)\<^sup>* then s else 0)"
proof -
  let ?E = "parent_edges tree"
  have child: "c \<in> children_of tree b \<longleftrightarrow> (c, b) \<in> ?E" for c
    by (simp add: children_of_def parent_edges_def)
  have no_cycle: "(b, c) \<notin> ?E\<^sup>*" if "(c, b) \<in> ?E" for c
    using that acyclic by (metis acyclic_def rtrancl_into_trancl2)
  have unique: "c = c'" if "(c, b) \<in> ?E" "(c', b) \<in> ?E" "(r, c) \<in> ?E\<^sup>*" "(r, c') \<in> ?E\<^sup>*" for c c'
  proof (rule ccontr)
    assume "c \<noteq> c'"
    then have "(b, c') \<in> ?E\<^sup>* \<or> (b, c) \<in> ?E\<^sup>*"
      using parent_edges_linear [OF that(3,4)] that(1,2) by (metis converse_rtranclE parent_edges_det)
    then show False
      using no_cycle that(1,2) by blast
  qed
  show ?thesis
  proof (cases "\<exists>c \<in> children_of tree b. (r, c) \<in> ?E\<^sup>*")
    case True
    then obtain c where c: "c \<in> children_of tree b" "(r, c) \<in> ?E\<^sup>*"
      by blast
    have "(\<Sum>c \<in> children_of tree b. if (r, c) \<in> ?E\<^sup>* then s else 0) = (\<Sum>x \<in> {c}. s)"
      using c unique by (intro sum.mono_neutral_cong_right) (auto simp: child)
    moreover have "r \<noteq> b" "(r, b) \<in> ?E\<^sup>*"
      using c no_cycle by (auto simp: child)
    ultimately show ?thesis
      by simp
  next
    case False
    then have "(r, b) \<in> ?E\<^sup>* \<longleftrightarrow> r = b"
      using child by (metis rtrancl.cases rtrancl.rtrancl_refl)
    then show ?thesis
      using False by simp
  qed
qed

lemma weight_rec:
  assumes "acyclic (parent_edges tree)"
  shows "weight st tree b = direct st b + (\<Sum>c \<in> children_of tree b. weight st tree c)"
proof -
  have "(\<Sum>(v, m) \<leftarrow> ms. if (msg_root m, b) \<in> (parent_edges tree)\<^sup>* then get_or 0 (stake_of st) v else 0)
      = (\<Sum>(v, m) \<leftarrow> ms. if msg_root m = b then get_or 0 (stake_of st) v else 0)
        + (\<Sum>c \<in> children_of tree b. \<Sum>(v, m) \<leftarrow> ms. if (msg_root m, c) \<in> (parent_edges tree)\<^sup>* then get_or 0 (stake_of st) v else 0)"
    for ms
  proof (induction ms)
    case (Cons e ms)
    obtain v m where e: "e = (v, m)"
      by (cases e)
    show ?case
      unfolding e list.map sum_list.Cons case_prod_conv sum.distrib Cons.IH
        reach_split [OF assms, of "msg_root m" b "get_or 0 (stake_of st) v"]
      by (simp only: add_ac)
  qed simp
  then show ?thesis
    by (simp add: weight_sum direct_def)
qed

section \<open>The accumulation computes every weight\<close>

lemma hm_entry_lookup: "map_of (hm_entry k d f m) = (map_of m)(k \<mapsto> f (get_or d m k))"
  by (simp add: hm_entry_def update_conv')

lemma get_or_hm_entry: "get_or d (hm_entry k d' f m) r = (if r = k then f (get_or d' m k) else get_or d m r)"
  by (simp add: get_or_def hm_entry_lookup)

lemma get_or_update: "get_or d (AList.update k v m) r = (if r = k then v else get_or d m r)"
  by (simp add: get_or_def update_conv')

lemma direct_weights_lookup: "get_or 0 (direct_weights st tree) b = direct st b"
proof -
  have votes: "get_or 0 (foldl (\<lambda>w (v, msg). hm_entry (msg_root msg) 0 (\<lambda>x. x + get_or 0 (stake_of st) v) w) w ms) b
      = get_or 0 w b + (\<Sum>(v, m) \<leftarrow> ms. if msg_root m = b then get_or 0 (stake_of st) v else 0)" for w ms
    by (induction ms arbitrary: w) (auto simp: get_or_hm_entry)
  have known: "get_or 0 (foldl (\<lambda>w b. hm_entry b 0 id w) w bs) b = get_or 0 w b" for w :: "(hash32 \<times> nat) list" and bs
    by (induction bs arbitrary: w) (auto simp: get_or_hm_entry)
  show ?thesis
    by (simp add: direct_weights_def known votes direct_def)
qed

lemma child_counts_lookup:
  assumes "hm_wf tree"
  shows "get_or 0 (child_counts tree) p = card (children_of tree p)"
    and "children_of tree p \<noteq> {} \<Longrightarrow> map_of (child_counts tree) p \<noteq> None"
proof -
  have count: "get_or 0 (foldl (\<lambda>m p. hm_entry p 0 (\<lambda>n. n + 1) m) m ps) p = get_or 0 m p + count_list ps p"
    for m :: "(hash32 \<times> nat) list" and ps
    by (induction ps arbitrary: m) (auto simp: get_or_hm_entry)
  have card: "hm_wf t \<Longrightarrow> count_list (values_of t) p = card (children_of t p)" for t :: block_tree
  proof (induction t)
    case (Cons e t)
    have "map_of t (fst e) = None"
      using Cons.prems by (simp add: hm_wf_def map_of_eq_None_iff)
    then have "children_of (e # t) p = (if snd e = p then insert (fst e) (children_of t p) else children_of t p)"
      "fst e \<notin> children_of t p"
      by (auto simp: children_of_def)
    then show ?case
      using Cons by (simp add: hm_wf_def)
  qed (simp add: children_of_def)
  show one: "get_or 0 (child_counts tree) p = card (children_of tree p)"
    using count [of "[]"] card [OF assms] by (simp add: child_counts_def)
  then show "children_of tree p \<noteq> {} \<Longrightarrow> map_of (child_counts tree) p \<noteq> None"
    by (auto simp: get_or_def card_gt_0_iff split: option.splits)
qed

text \<open>\<open>P\<close> is the set of blocks already popped.\<close>

definition kahn_front :: "block_tree \<Rightarrow> hash32 set \<Rightarrow> (hash32 \<times> usize) list \<Rightarrow> hash32 list \<Rightarrow> bool" where
  "kahn_front tree P waiting ready \<longleftrightarrow>
     P \<subseteq> set (keys_of tree) \<and> set ready \<subseteq> set (keys_of tree) \<and> distinct ready \<and> set ready \<inter> P = {} \<and>
     (\<forall>b \<in> set (keys_of tree). b \<in> set ready \<union> P \<longleftrightarrow> children_of tree b \<subseteq> P) \<and>
     (\<forall>p. children_of tree p \<noteq> {} \<longrightarrow> map_of waiting p = Some (card (children_of tree p - P)))"

definition kahn_inv ::
  "store \<Rightarrow> block_tree \<Rightarrow> hash32 set \<Rightarrow> (hash32 \<times> u128) list \<Rightarrow> (hash32 \<times> usize) list \<Rightarrow> hash32 list \<Rightarrow> bool" where
  "kahn_inv st tree P weights waiting ready \<longleftrightarrow> kahn_front tree P waiting ready \<and>
     (\<forall>b. get_or 0 weights b = direct st b + (\<Sum>c \<in> children_of tree b \<inter> P. weight st tree c))"

lemma kahn_frontD:
  assumes "kahn_front tree P waiting ready"
  shows "P \<subseteq> set (keys_of tree)" "set ready \<subseteq> set (keys_of tree)" "distinct ready" "set ready \<inter> P = {}"
    "\<forall>b \<in> set (keys_of tree). b \<in> set ready \<union> P \<longleftrightarrow> children_of tree b \<subseteq> P"
    "\<forall>p. children_of tree p \<noteq> {} \<longrightarrow> map_of waiting p = Some (card (children_of tree p - P))"
  using assms unfolding kahn_front_def by - (elim conjE, assumption)+

lemma kahn_inv_start:
  assumes "hm_wf tree"
  shows "kahn_inv st tree {} (direct_weights st tree) (child_counts tree)
    (rev (filter (\<lambda>b. get_or 0 (child_counts tree) b = 0) (keys_of tree)))"
proof -
  have "map_of (child_counts tree) p = Some (card (children_of tree p))" if "children_of tree p \<noteq> {}" for p
    using child_counts_lookup [OF assms, of p] that by (auto simp: get_or_def split: option.splits)
  then show ?thesis
    using assms child_counts_lookup(1) [OF assms]
    by (auto simp: kahn_inv_def kahn_front_def direct_weights_lookup hm_wf_def)
qed

lemma count_without_child:
  assumes "b \<in> children_of tree p" "b \<notin> P"
  shows "0 < card (children_of tree p - P)" "card (children_of tree p - P) - 1 = card (children_of tree p - insert b P)"
    and "card (children_of tree p - P) - 1 = 0 \<longleftrightarrow> children_of tree p \<subseteq> insert b P"
proof -
  show "0 < card (children_of tree p - P)"
    using assms by (auto simp: card_gt_0_iff)
  have "children_of tree p - insert b P = (children_of tree p - P) - {b}"
    by auto
  then show eq: "card (children_of tree p - P) - 1 = card (children_of tree p - insert b P)"
    using assms by simp
  show "card (children_of tree p - P) - 1 = 0 \<longleftrightarrow> children_of tree p \<subseteq> insert b P"
    unfolding eq by (auto simp: card_eq_0_iff)
qed

text \<open>A round never underflows a counter, on any parent map: a block is popped once, after all its children.\<close>

lemma kahn_front_step:
  assumes "kahn_front tree P waiting (b # ready)"
  shows "\<exists>p waiting' ready'. map_of tree b = Some p \<and> children_of tree b \<subseteq> P \<and> b \<notin> P \<and>
    kahn_step tree (weights, waiting, ready) b = Some (hm_entry p 0 (\<lambda>x. x + get_or 0 weights b) weights, waiting', ready') \<and>
    kahn_front tree (insert b P) waiting' ready'"
proof -
  note D = kahn_frontD [OF assms]
  note P = D(1) and ready = D(2-4) and front = D(5) [rule_format] and wait = D(6) [rule_format]
  have b: "b \<in> set (keys_of tree)" "b \<notin> P" "b \<notin> set ready" "children_of tree b \<subseteq> P"
    using ready front [of b] by (simp_all del: set_map)
  then obtain p where p: "map_of tree b = Some p"
    by (metis map_of_eq_None_iff not_Some_eq list.set_map)
  then have bp: "b \<in> children_of tree p" "\<And>q. q \<noteq> p \<Longrightarrow> b \<notin> children_of tree q"
    by (auto simp: children_of_def)
  define n where "n = card (children_of tree p - P)"
  note n = count_without_child [OF bp(1) b(2), folded n_def]
  have np: "map_of waiting p = Some n"
    using wait [of p] bp(1) by (auto simp: n_def)
  define rd where "rd = (if n - 1 = 0 \<and> contains_key tree p then p # ready else ready)"
  have step: "kahn_step tree (weights, waiting, ready) b =
      Some (hm_entry p 0 (\<lambda>x. x + get_or 0 weights b) weights, AList.update p (n - 1) waiting, rd)"
    using p np n(1) by (simp add: kahn_step_def Let_def checked_fits rd_def)
  have p_new: "p \<in> set (keys_of tree) \<Longrightarrow> p \<notin> set ready \<union> P"
    using front [of p] bp(1) b(2) by auto
  have "p \<noteq> b"
    using bp(1) b(2,4) by blast
  have front': "x \<in> set rd \<union> insert b P \<longleftrightarrow> children_of tree x \<subseteq> insert b P" if "x \<in> set (keys_of tree)" for x
  proof (cases "x = p")
    case True
    then show ?thesis
      using that n(3) p_new \<open>p \<noteq> b\<close> by (auto simp: rd_def contains_key_iff simp del: set_map)
  next
    case False
    then have "children_of tree x \<subseteq> insert b P \<longleftrightarrow> children_of tree x \<subseteq> P"
      using bp(2) by blast
    then show ?thesis
      using front [OF that] False by (auto simp: rd_def)
  qed
  have wait': "map_of (AList.update p (n - 1) waiting) q = Some (card (children_of tree q - insert b P))"
    if "children_of tree q \<noteq> {}" for q
    using wait [OF that] n(2) bp(2) [of q] by (auto simp: update_conv')
  have "distinct rd" "set rd \<inter> insert b P = {}" "set rd \<subseteq> set (keys_of tree)"
    using ready p_new \<open>p \<noteq> b\<close> by (auto simp: rd_def contains_key_iff simp del: set_map)
  moreover have "insert b P \<subseteq> set (keys_of tree)"
    using P b(1) by blast
  ultimately have "kahn_front tree (insert b P) (AList.update p (n - 1) waiting) rd"
    unfolding kahn_front_def by (intro conjI ballI allI impI front' wait')
  then show ?thesis
    using step p b(2,4) by blast
qed

lemma kahn_inv_step:
  assumes acyclic: "acyclic (parent_edges tree)" and inv: "kahn_inv st tree P weights waiting (b # ready)"
  shows "\<exists>weights' waiting' ready'. kahn_step tree (weights, waiting, ready) b = Some (weights', waiting', ready') \<and>
    kahn_inv st tree (insert b P) weights' waiting' ready'"
proof -
  have sums: "get_or 0 weights q = direct st q + (\<Sum>c \<in> children_of tree q \<inter> P. weight st tree c)" for q
    using inv by (simp add: kahn_inv_def)
  have "kahn_front tree P waiting (b # ready)"
    using inv by (simp add: kahn_inv_def)
  from kahn_front_step [OF this, of weights] obtain p waiting' ready'
    where p: "map_of tree b = Some p" and b: "children_of tree b \<subseteq> P" "b \<notin> P"
    and step: "kahn_step tree (weights, waiting, ready) b =
      Some (hm_entry p 0 (\<lambda>x. x + get_or 0 weights b) weights, waiting', ready')"
    and front: "kahn_front tree (insert b P) waiting' ready'"
    by blast
  have w: "get_or 0 weights b = weight st tree b"
    using sums [of b] b(1) weight_rec [OF acyclic, of st b] by (simp add: Int_absorb2)
  have bp: "b \<in> children_of tree p" "\<And>q. q \<noteq> p \<Longrightarrow> b \<notin> children_of tree q"
    using p by (auto simp: children_of_def)
  have "get_or 0 (hm_entry p 0 (\<lambda>x. x + get_or 0 weights b) weights) q =
      direct st q + (\<Sum>c \<in> children_of tree q \<inter> insert b P. weight st tree c)" for q
    using sums [of q] bp b(2) w by (auto simp: get_or_hm_entry)
  then show ?thesis
    using step front by (simp add: kahn_inv_def)
qed

lemma kahn_inv_end:
  assumes acyclic: "acyclic (parent_edges tree)" and inv: "kahn_inv st tree P weights waiting []"
  shows "get_or 0 weights b = weight st tree b"
proof -
  have "finite (parent_edges tree)"
    by (rule finite_subset [of _ "set tree"]) (auto simp: parent_edges_def dest: map_of_SomeD)
  then have wf: "wf (parent_edges tree)"
    using acyclic finite_acyclic_wf by blast
  have "c \<in> set (keys_of tree) \<Longrightarrow> c \<in> P" for c
    using wf
  proof (induction c rule: wf_induct_rule)
    case (less c)
    have "children_of tree c \<subseteq> P"
    proof
      fix x assume "x \<in> children_of tree c"
      then have "map_of tree x = Some c"
        by (simp add: children_of_def)
      then show "x \<in> P"
        using less.IH [of x] map_of_key [of tree x c] by (simp add: parent_edges_def)
    qed
    then show ?case
      using inv less.prems unfolding kahn_inv_def kahn_front_def by auto
  qed
  then have "children_of tree b \<inter> P = children_of tree b"
    using map_of_key [of tree] by (fastforce simp: children_of_def)
  then show ?thesis
    using inv weight_rec [OF acyclic, of st b] by (simp add: kahn_inv_def)
qed

lemma kahn_correct:
  assumes "acyclic (parent_edges tree)"
  shows "kahn_inv st tree P weights waiting ready \<Longrightarrow>
    \<exists>w. kahn tree weights waiting ready = Some w \<and> (\<forall>b. get_or 0 w b = weight st tree b)"
  using assms
proof (induction tree weights waiting ready arbitrary: P rule: kahn.induct)
  case (1 tree weights waiting)
  then show ?case
    using kahn_inv_end by simp
next
  case (2 tree weights waiting b ready)
  obtain weights' waiting' ready' where
    step: "kahn_step tree (weights, waiting, ready) b = Some (weights', waiting', ready')"
    and "kahn_inv st tree (insert b P) weights' waiting' ready'"
    using kahn_inv_step [OF 2(3,2)] by blast
  then show ?case
    using 2(1) [OF step refl refl] 2(3) by simp
qed

lemma subtree_weights_correct:
  assumes "hm_wf tree" "acyclic (parent_edges tree)"
  shows "\<exists>w. subtree_weights st tree = Some w \<and> get_or 0 w = weight st tree"
  using kahn_correct [OF assms(2) kahn_inv_start [OF assms(1)]]
  unfolding subtree_weights_def Let_def fun_eq_iff .

lemma kahn_returns: "kahn_front tree P waiting ready \<Longrightarrow> kahn tree weights waiting ready \<noteq> None"
proof (induction tree weights waiting ready arbitrary: P rule: kahn.induct)
  case (2 tree weights waiting b ready)
  from kahn_front_step [OF 2(2), of weights] obtain weights' waiting' ready'
    where step: "kahn_step tree (weights, waiting, ready) b = Some (weights', waiting', ready')"
    and "kahn_front tree (insert b P) waiting' ready'"
    by blast
  then show ?case
    using 2(1) [OF step refl refl] by simp
qed simp

lemma subtree_weights_return: "hm_wf tree \<Longrightarrow> subtree_weights st tree \<noteq> None"
  using kahn_returns kahn_inv_start unfolding subtree_weights_def Let_def kahn_inv_def by blast

section \<open>The descent\<close>

text \<open>The order in which siblings are preferred: weight first, then the tie-break.\<close>

definition beats :: "(hash32 \<Rightarrow> u128) \<Rightarrow> hash32 \<Rightarrow> hash32 \<Rightarrow> bool" where
  "beats w a b \<longleftrightarrow> w b < w a \<or> (w a = w b \<and> b < a)"

lemma best_kid_fold:
  "foldl (\<lambda>(best, bw) child. if bw < w child \<or> (w child = bw \<and> wins_tie slots child best)
     then (child, w child) else (best, bw)) (b, w b) kids = (c, x) \<Longrightarrow> c \<in> insert b (set kids) \<and> x = w c"
  by (induction kids arbitrary: b) (auto split: if_splits)

lemma best_kid_mem: "best_kid w slots kid kids \<in> set (kid # kids)"
  using best_kid_fold [of w slots kid kids, OF prod.collapse [symmetric]]
  by (simp add: best_kid_def)

lemma best_kid_simps:
  "best_kid w slots x [] = x"
  "best_kid w slots x (k # kids) = best_kid w slots (if w x < w k \<or> (w k = w x \<and> wins_tie slots k x) then k else x) kids"
  by (simp_all add: best_kid_def)

lemma beats_trans: "beats w a b \<Longrightarrow> beats w b c \<Longrightarrow> beats w a c"
  by (auto simp: beats_def)

lemma best_kid_beats:
  "b \<in> set (kid # kids) \<Longrightarrow> best_kid w None kid kids = b \<or> beats w (best_kid w None kid kids) b"
proof (induction kids arbitrary: kid b)
  case Nil
  then show ?case
    by (simp add: best_kid_simps)
next
  case (Cons k kids)
  define y where "y = (if w kid < w k \<or> (w k = w kid \<and> wins_tie None k kid) then k else kid)"
  define z where "z = best_kid w None y kids"
  have z: "best_kid w None kid (k # kids) = z"
    by (simp add: best_kid_simps y_def z_def)
  have top: "z = y \<or> beats w z y"
    using Cons.IH [of y y] by (simp add: z_def)
  show ?case
  proof (cases "b \<in> set kids")
    case True
    then show ?thesis
      using Cons.IH [of b y] z by (simp add: z_def)
  next
    case False
    then have "b = y \<or> beats w y b"
      using Cons.prems by (auto simp: y_def beats_def wins_tie_def)
    then show ?thesis
      using top z beats_trans by blast
  qed
qed

text \<open>The children map the caller passes agrees with the parent map.\<close>

definition consistent :: "block_tree \<Rightarrow> (hash32 \<times> hash32 list) list \<Rightarrow> bool" where
  "consistent tree children \<longleftrightarrow>
     (\<forall>b kids. map_of children b = Some kids \<longrightarrow> (\<forall>c \<in> set kids. map_of tree c = Some b))"

definition subtree :: "block_tree \<Rightarrow> hash32 \<Rightarrow> hash32 set" where
  "subtree tree b = {c. (c, b) \<in> (parent_edges tree)\<^sup>+}"

lemma subtree_bound: "finite (subtree tree b)" "card (subtree tree b) \<le> length tree"
proof -
  have sub: "subtree tree b \<subseteq> set (keys_of tree)"
  proof
    fix c assume "c \<in> subtree tree b"
    then obtain p where "(c, p) \<in> parent_edges tree"
      by (metis mem_Collect_eq subtree_def tranclD)
    then show "c \<in> set (keys_of tree)"
      using map_of_key [of tree c] by (simp add: parent_edges_def)
  qed
  then show "finite (subtree tree b)"
    by (rule finite_subset) simp
  have "card (subtree tree b) \<le> card (set (keys_of tree))"
    using sub by (intro card_mono) auto
  then show "card (subtree tree b) \<le> length tree"
    using card_length [of "keys_of tree"] by simp
qed

lemma subtree_child:
  assumes "acyclic (parent_edges tree)" "map_of tree c = Some b"
  shows "card (subtree tree c) < card (subtree tree b)"
proof (rule psubset_card_mono)
  have edge: "(c, b) \<in> parent_edges tree"
    using assms(2) by (simp add: parent_edges_def)
  then have "subtree tree c \<subseteq> subtree tree b" "c \<in> subtree tree b"
    by (auto simp: subtree_def)
  moreover have "c \<notin> subtree tree c"
    using assms(1) by (simp add: subtree_def acyclic_def)
  ultimately show "subtree tree c \<subset> subtree tree b"
    by blast
qed (rule subtree_bound)

lemma head_loop_ends:
  assumes "acyclic (parent_edges tree)" "consistent tree children"
  shows "levels + card (subtree tree b) \<le> limit \<Longrightarrow>
    \<exists>h. head_loop w children slots limit levels b = h \<and> (h, b) \<in> (parent_edges tree)\<^sup>* \<and>
      map_of children h \<in> {None, Some []} \<and>
      (w = weight st tree \<longrightarrow> slots = None \<longrightarrow> head_reference st tree b children = Some h)"
proof (induction "card (subtree tree b)" arbitrary: b levels rule: less_induct)
  case less
  show ?case
  proof (cases "map_of children b \<in> {None, Some []}")
    case True
    then show ?thesis
      by (intro exI [of _ b]) (subst head_loop.simps, subst head_reference.simps, auto)
  next
    case False
    then obtain kid kids where kids: "map_of children b = Some (kid # kids)"
      by (metis insertCI list.exhaust option.exhaust)
    let ?c = "best_kid w slots kid kids"
    have c: "map_of tree ?c = Some b"
      using assms(2) kids best_kid_mem unfolding consistent_def by blast
    then have small: "card (subtree tree ?c) < card (subtree tree b)"
      by (rule subtree_child [OF assms(1)])
    moreover have "Suc levels + card (subtree tree ?c) \<le> limit"
      using less.prems small by simp
    ultimately obtain h where h: "head_loop w children slots limit (Suc levels) ?c = h" "(h, ?c) \<in> (parent_edges tree)\<^sup>*"
      "map_of children h \<in> {None, Some []}"
      "w = weight st tree \<longrightarrow> slots = None \<longrightarrow> head_reference st tree ?c children = Some h"
      using less.hyps by blast
    have "(h, b) \<in> (parent_edges tree)\<^sup>*"
      using h(2) c by (auto simp: parent_edges_def intro: rtrancl_into_rtrancl)
    then show ?thesis
      using h kids less.prems by (intro exI [of _ h]) (subst head_loop.simps, subst head_reference.simps, auto)
  qed
qed

text \<open>The descent on a children map of any shape: it follows the map, and stops short of a childless block only
  when the map has a cycle.\<close>

definition child_edges :: "(hash32 \<times> hash32 list) list \<Rightarrow> (hash32 \<times> hash32) set" where
  "child_edges children = {(b, c). \<exists>kids. map_of children b = Some kids \<and> c \<in> set kids}"

lemma best_kid_edge: "map_of children b = Some (kid # kids) \<Longrightarrow> (b, best_kid w slots kid kids) \<in> child_edges children"
  using best_kid_mem by (auto simp: child_edges_def)

lemma head_loop_follows: "(b, head_loop w children slots limit levels b) \<in> (child_edges children)\<^sup>*"
proof (induction w children slots limit levels b rule: head_loop.induct)
  case (1 w children slots limit levels b)
  show ?case
  proof (cases "levels \<le> limit \<and> (\<exists>kid kids. map_of children b = Some (kid # kids))")
    case True
    then obtain kid kids where kids: "levels \<le> limit" "map_of children b = Some (kid # kids)"
      by blast
    show ?thesis
      using converse_rtrancl_into_rtrancl [OF best_kid_edge [OF kids(2)] 1 [OF kids refl]] kids
      by (subst head_loop.simps) simp
  next
    case False
    then show ?thesis
      by (subst head_loop.simps) (auto split: option.splits list.splits)
  qed
qed

definition below :: "(hash32 \<times> hash32 list) list \<Rightarrow> hash32 \<Rightarrow> hash32 set" where
  "below children b = {x \<in> set (keys_of children). (b, x) \<in> (child_edges children)\<^sup>*}"

lemma below_bound: "card (below children b) \<le> length children"
proof -
  have "card (below children b) \<le> card (set (keys_of children))"
    by (rule card_mono) (auto simp: below_def)
  also have "\<dots> \<le> length children"
    using card_length [of "keys_of children"] by simp
  finally show ?thesis .
qed

lemma below_child:
  assumes "acyclic (child_edges children)" "(b, c) \<in> child_edges children"
  shows "card (below children c) < card (below children b)"
proof -
  have "(c, b) \<notin> (child_edges children)\<^sup>*"
    using assms rtrancl_into_trancl2 [OF assms(2)] unfolding acyclic_def by blast
  moreover obtain kids where "map_of children b = Some kids"
    using assms(2) unfolding child_edges_def by blast
  then have "b \<in> set (keys_of children)"
    using map_of_key by simp
  ultimately have "b \<in> below children b" "b \<notin> below children c"
    by (simp_all add: below_def)
  moreover have "below children c \<subseteq> below children b"
    unfolding below_def using converse_rtrancl_into_rtrancl [OF assms(2)] by blast
  ultimately have "below children c \<subset> below children b"
    by blast
  then show ?thesis
    by (rule psubset_card_mono [rotated]) (simp add: below_def)
qed

lemma head_loop_childless:
  assumes "acyclic (child_edges children)"
  shows "levels + card (below children b) \<le> limit \<Longrightarrow> map_of children (head_loop w children slots limit levels b) \<in> {None, Some []}"
proof (induction "card (below children b)" arbitrary: b levels rule: less_induct)
  case less
  show ?case
  proof (cases "map_of children b \<in> {None, Some []}")
    case True
    then show ?thesis
      by (subst head_loop.simps) auto
  next
    case False
    then obtain kid kids where kids: "map_of children b = Some (kid # kids)"
      by (metis insertCI list.exhaust option.exhaust)
    have small: "card (below children (best_kid w slots kid kids)) < card (below children b)"
      by (rule below_child [OF assms best_kid_edge [OF kids]])
    then have "Suc levels + card (below children (best_kid w slots kid kids)) \<le> limit"
      using less.prems by simp
    from less.hyps [OF small this] show ?thesis
      using kids less.prems by (subst head_loop.simps) simp
  qed
qed

section \<open>Observing votes\<close>

definition observe_step :: "store \<Rightarrow> u32 \<times> latest_message \<Rightarrow> store" where
  "observe_step st vm = fst (observe st (fst vm) (snd vm))"

definition store_inv :: "store \<Rightarrow> bool" where
  "store_inv st \<longleftrightarrow> hm_wf (latest st) \<and> distinct (equivocators st) \<and>
     (\<forall>v \<in> set (equivocators st). map_of (latest st) v = None)"

text \<open>Progress of the store: the barred stay barred, and a vote that leaves was barred or overtaken.\<close>

definition store_before :: "store \<Rightarrow> store \<Rightarrow> bool" where
  "store_before st st' \<longleftrightarrow> set (equivocators st) \<subseteq> set (equivocators st') \<and>
     (\<forall>v m. map_of (latest st) v = Some m \<longrightarrow>
        v \<in> set (equivocators st') \<or> (\<exists>m'. map_of (latest st') v = Some m' \<and> msg_slot m \<le> msg_slot m'))"

lemma observe_inv: "store_inv st \<Longrightarrow> store_inv (observe_step st vm)"
  by (auto simp: observe_step_def observe_def store_inv_def hm.wf_ins hm.wf_del hm.ins_lookup hm.del_lookup
      split: option.splits)

interpretation observing: progress_machine observe_step store_inv store_before
proof
  show "store_before s u" if "store_before s t" "store_before t u" for s t u
    using that unfolding store_before_def by (meson order_trans subsetD)
  show "store_before s (observe_step s e)" if "store_inv s" for s e
    by (auto simp: observe_step_def observe_def store_before_def hm.ins_lookup hm.del_lookup split: option.splits)
qed (auto simp: observe_inv store_before_def)

definition conflict_free :: "(u32 \<times> latest_message) set \<Rightarrow> bool" where
  "conflict_free V \<longleftrightarrow> (\<forall>v m m'. (v, m) \<in> V \<longrightarrow> (v, m') \<in> V \<longrightarrow> msg_slot m = msg_slot m' \<longrightarrow> msg_root m = msg_root m')"

definition newest :: "(u32 \<times> latest_message) set \<Rightarrow> u32 \<Rightarrow> latest_message option \<Rightarrow> bool" where
  "newest V v mo \<longleftrightarrow> (case mo of None \<Rightarrow> (\<forall>m. (v, m) \<notin> V)
     | Some m \<Rightarrow> (v, m) \<in> V \<and> (\<forall>m'. (v, m') \<in> V \<longrightarrow> msg_slot m' \<le> msg_slot m))"

lemma conflict_free_mono: "conflict_free W \<Longrightarrow> V \<subseteq> W \<Longrightarrow> conflict_free V"
  unfolding conflict_free_def by (meson subsetD)

lemma observe_newest:
  assumes "conflict_free (insert vm V)" "equivocators st = []" "\<And>v. newest V v (map_of (latest st) v)"
  shows "equivocators (observe_step st vm) = []" "newest (insert vm V) v (map_of (latest (observe_step st vm)) v)"
proof -
  obtain u msg where vm: "vm = (u, msg)"
    by (cases vm)
  have same: "msg_root prev = msg_root msg" if "map_of (latest st) u = Some prev" "msg_slot prev = msg_slot msg" for prev
    using assms(1) [unfolded conflict_free_def vm, rule_format, of u prev msg] assms(3) [of u] that
    by (simp add: newest_def)
  then show "equivocators (observe_step st vm) = []"
    using assms(2) by (auto simp: observe_step_def observe_def vm split: option.splits)
  have new: "map_of (latest (observe_step st vm)) v = (if v = u
      then (case map_of (latest st) u of None \<Rightarrow> Some msg
        | Some prev \<Rightarrow> if msg_slot msg \<le> msg_slot prev then Some prev else Some msg)
      else map_of (latest st) v)"
  proof (cases "map_of (latest st) u")
    case None
    then show ?thesis
      using assms(2) by (simp add: observe_step_def observe_def vm hm.ins_lookup)
  next
    case (Some prev)
    then show ?thesis
      using assms(2) same [OF Some] by (auto simp: observe_step_def observe_def vm hm.ins_lookup)
  qed
  show "newest (insert vm V) v (map_of (latest (observe_step st vm)) v)"
  proof (cases "v = u")
    case True
    then show ?thesis
      using assms(3) [of u] unfolding new newest_def by (cases "map_of (latest st) u") (auto simp: vm)
  next
    case False
    then show ?thesis
      using assms(3) [of v] unfolding new newest_def by (cases "map_of (latest st) v") (simp_all add: vm)
  qed
qed

lemma observe_all_newest:
  "conflict_free (V \<union> set vms) \<Longrightarrow> equivocators st = [] \<Longrightarrow> (\<And>v. newest V v (map_of (latest st) v)) \<Longrightarrow>
   equivocators (foldl observe_step st vms) = [] \<and> newest (V \<union> set vms) v (map_of (latest (foldl observe_step st vms)) v)"
proof (induction vms arbitrary: V st)
  case (Cons vm vms)
  have "conflict_free (insert vm V)"
    by (rule conflict_free_mono [OF Cons.prems(1)]) auto
  note one = observe_newest [OF this Cons.prems(2,3)]
  show ?case
    using Cons.IH [of "insert vm V" "observe_step st vm"] one Cons.prems(1) by simp
qed simp

section \<open>Properties\<close>

text \<open>The bounded walk of \<^verbatim>\<open>is_descendant_or_self\<close> is reachability: its step limit never cuts off
  a true ancestor, on any parent map, cyclic or not.\<close>

theorem descendant_is_reachability:
  "is_descendant_or_self tree b a \<longleftrightarrow> (b, a) \<in> {(c, p). map_of tree c = Some p}\<^sup>*"
  using descendant_iff_reach by (simp add: parent_edges_def)

text \<open>C12. The bottom-up accumulation is correct: on an acyclic tree it ends without the underflow panic
  of its counters, and the weight it holds for every block, known or not, is the one
  \<^verbatim>\<open>Store::weight\<close> computes by walking every vote up its ancestors.\<close>

theorem subtree_weights_are_weights:
  assumes "hm_wf tree" "acyclic {(c, p). map_of tree c = Some p}"
  shows "\<exists>w. subtree_weights st tree = Some w \<and> (\<forall>b. get_or 0 w b = weight st tree b)"
  using subtree_weights_correct [OF assms(1), of st] assms(2) by (auto simp: parent_edges_def)

definition demo_tree :: block_tree where
  "demo_tree = [([2], [1]), ([3], [1]), ([4], [2]), ([5], [2])]"

definition demo_children :: "(hash32 \<times> hash32 list) list" where
  "demo_children = [([1], [[2], [3]]), ([2], [[4], [5]]), ([3], [])]"

definition demo_store :: store where
  "demo_store = foldl observe_step (set_stake 0 10 (set_stake 1 20 (set_stake 2 15 new_store)))
     [(0, \<lparr> msg_slot = 7, msg_root = [4] \<rparr>), (1, \<lparr> msg_slot = 8, msg_root = [3] \<rparr>), (2, \<lparr> msg_slot = 7, msg_root = [5] \<rparr>)]"

lemma demo_tree_ok:
  "hm_wf demo_tree" "acyclic {(c, p). map_of demo_tree c = Some p}" "consistent demo_tree demo_children"
proof -
  show "hm_wf demo_tree"
    by (simp add: hm_wf_def demo_tree_def)
  have "{(c, p). map_of demo_tree c = Some p} \<subseteq> {(a, b). b < a}"
    by (auto simp: demo_tree_def split: if_splits)
  moreover have "acyclic {(a, b). b < (a :: hash32)}"
    by (rule acyclicI_order [of _ id]) auto
  ultimately show "acyclic {(c, p). map_of demo_tree c = Some p}"
    using acyclic_subset by blast
  show "consistent demo_tree demo_children"
    by (simp add: consistent_def demo_tree_def demo_children_def)
qed

theorem subtree_weights_are_weights_witness:
  "\<exists>w. subtree_weights demo_store demo_tree = Some w \<and> (\<forall>b. get_or 0 w b = weight demo_store demo_tree b)"
  by (rule subtree_weights_are_weights [OF demo_tree_ok(1,2)])

text \<open>C7. The production fork choice is the reference one: on an acyclic tree, with a children map that
  agrees with the parent map, the reference descent returns, both return the same head, and that head is
  a childless descendant of the justified block.\<close>

theorem head_is_reference_head:
  assumes "hm_wf tree" "acyclic {(c, p). map_of tree c = Some p}" "consistent tree children"
  shows "\<exists>h. head_of st tree justified children = Some h \<and> head_reference st tree justified children = Some h \<and>
    is_descendant_or_self tree h justified \<and> map_of children h \<in> {None, Some []}"
proof -
  have acyclic: "acyclic (parent_edges tree)"
    using assms(2) by (simp add: parent_edges_def)
  obtain w where w: "subtree_weights st tree = Some w" "get_or 0 w = weight st tree"
    using subtree_weights_correct [OF assms(1) acyclic] by blast
  have "0 + card (subtree tree justified) \<le> length tree + length children + 1"
    using subtree_bound(2) [of tree justified] by simp
  from head_loop_ends [OF acyclic assms(3) this, of "weight st tree" None st] show ?thesis
    by (auto simp: head_of_def head_inner_def w descendant_iff_reach)
qed

theorem head_is_reference_head_witness:
  "\<exists>h. head_of demo_store demo_tree [1] demo_children = Some h \<and> head_reference demo_store demo_tree [1] demo_children = Some h \<and>
     is_descendant_or_self demo_tree h [1] \<and> map_of demo_children h \<in> {None, Some []}"
  by (rule head_is_reference_head [OF demo_tree_ok])

text \<open>C13. Fork choice returns on every input: whatever the parent map holds, cycles included, and whatever the children
  map says, agreeing with it or not, both production heads are computed without the underflow panic of the counters,
  the head is reached from the justified block through the children map, and the level limit cuts the descent short of
  a childless block only when the children map has a cycle.\<close>

theorem head_returns:
  assumes "hm_wf tree"
  shows "\<exists>h. head_inner st tree justified children slots = Some h \<and>
    (justified, h) \<in> {(b, c). \<exists>kids. map_of children b = Some kids \<and> c \<in> set kids}\<^sup>* \<and>
    (acyclic {(b, c). \<exists>kids. map_of children b = Some kids \<and> c \<in> set kids} \<longrightarrow> map_of children h \<in> {None, Some []})"
proof -
  obtain w where w: "subtree_weights st tree = Some w"
    using subtree_weights_return [OF assms] by blast
  have "0 + card (below children justified) \<le> length tree + length children + 1"
    using below_bound [of children justified] by simp
  note childless = head_loop_childless [OF _ this]
  show ?thesis
    using head_loop_follows childless unfolding head_inner_def w child_edges_def [symmetric] by auto
qed

text \<open>A ring of three blocks with two side branches; the one vote is for the second branch.\<close>

definition ring_tree :: block_tree where
  "ring_tree = [([2], [1]), ([3], [2]), ([1], [3]), ([9], [1]), ([8], [3])]"

definition ring_children :: "(hash32 \<times> hash32 list) list" where
  "ring_children = [([1], [[2], [9]]), ([2], [[3]]), ([3], [[1], [8]])]"

definition ring_store :: store where
  "ring_store = observe_step (set_stake 0 10 new_store) (0, \<lparr> msg_slot = 7, msg_root = [8] \<rparr>)"

theorem head_returns_witness:
  "(\<exists>h. head_inner ring_store ring_tree [1] ring_children None = Some h \<and>
      ([1], h) \<in> {(b, c). \<exists>kids. map_of ring_children b = Some kids \<and> c \<in> set kids}\<^sup>*) \<and>
   (\<exists>h. head_inner ring_store ring_tree [1] demo_children None = Some h \<and> map_of demo_children h \<in> {None, Some []})"
proof -
  have wf: "hm_wf ring_tree"
    by (simp add: hm_wf_def ring_tree_def)
  have "{(b, c). \<exists>kids. map_of demo_children b = Some kids \<and> c \<in> set kids} \<subseteq> {(a, b). b < a}\<inverse>"
    by (auto simp: demo_children_def split: if_splits)
  moreover have "acyclic ({(a, b). b < (a :: hash32)}\<inverse>)"
    unfolding acyclic_converse by (rule acyclicI_order [of _ id]) auto
  ultimately have "acyclic {(b, c). \<exists>kids. map_of demo_children b = Some kids \<and> c \<in> set kids}"
    using acyclic_subset by blast
  then show ?thesis
    using head_returns [OF wf, of ring_store "[1]" ring_children None] head_returns [OF wf, of ring_store "[1]" demo_children None]
    by blast
qed

text \<open>On the ring both descents return, with different heads: the reference leaves the ring through the side branch
  that ties with the ring block, and the bottom-up weights do not credit the ring blocks on the way.\<close>

lemma ring_heads_differ:
  "head_of ring_store ring_tree [1] ring_children = Some [9]" "head_reference ring_store ring_tree [1] ring_children = Some [8]"
proof -
  show "head_of ring_store ring_tree [1] ring_children = Some [9]"
    by code_simp
  have kids: "best_kid (weight ring_store ring_tree) None [2] [[9]] = [2]" "best_kid (weight ring_store ring_tree) None [3] [] = [3]"
    "best_kid (weight ring_store ring_tree) None [1] [[8]] = [8]"
    by code_simp+
  show "head_reference ring_store ring_tree [1] ring_children = Some [8]"
    unfolding ring_children_def by (subst head_reference.simps, simp add: kids)+
qed

text \<open>Among siblings the descent takes the one with the largest weight and, among equals, the largest
  root: the choice does not depend on the order of the children list.\<close>

theorem best_kid_maximal:
  assumes "b \<in> set (kid # kids)" "b \<noteq> best_kid w None kid kids"
  shows "w b < w (best_kid w None kid kids) \<or> (w b = w (best_kid w None kid kids) \<and> b < best_kid w None kid kids)"
  using best_kid_beats [OF assms(1), of w] assms(2) by (auto simp: beats_def)

theorem best_kid_maximal_witness:
  "weight demo_store demo_tree [3] < weight demo_store demo_tree [2]"
proof -
  have "best_kid (weight demo_store demo_tree) None [3] [[2]] = [2]"
    by code_simp
  then show ?thesis
    using best_kid_maximal [of "[3]" "[3]" "[[2]]" "weight demo_store demo_tree"] by auto
qed

text \<open>Votes without a same-slot conflict are order-independent: whatever the order and the repetitions in
  which they arrive, nobody is barred and the store holds the newest vote of every validator.\<close>

theorem observe_order_free:
  assumes "conflict_free (set vms)"
  shows "equivocators (foldl observe_step new_store vms) = [] \<and>
    newest (set vms) v (map_of (latest (foldl observe_step new_store vms)) v)"
  using observe_all_newest [of "{}" vms new_store v] assms by (simp add: new_store_def newest_def)

theorem observe_order_free_witness:
  "equivocators (foldl observe_step new_store
      [(0, \<lparr> msg_slot = 8, msg_root = [4] \<rparr>), (1, \<lparr> msg_slot = 8, msg_root = [3] \<rparr>), (0, \<lparr> msg_slot = 7, msg_root = [5] \<rparr>)]) = [] \<and>
   newest (set [(0, \<lparr> msg_slot = 8, msg_root = [4] \<rparr>), (1, \<lparr> msg_slot = 8, msg_root = [3] \<rparr>), (0, \<lparr> msg_slot = 7, msg_root = [5] \<rparr>)]) 0
     (map_of (latest (foldl observe_step new_store
      [(0, \<lparr> msg_slot = 8, msg_root = [4] \<rparr>), (1, \<lparr> msg_slot = 8, msg_root = [3] \<rparr>), (0, \<lparr> msg_slot = 7, msg_root = [5] \<rparr>)])) 0)"
  by (rule observe_order_free) (auto simp: conflict_free_def)

text \<open>What the store alone does not detect: of the six arrival orders of two conflicting votes of one
  slot and a later vote, exactly the two in which the later vote comes last bar the validator.\<close>

theorem observe_conflict_orders:
  fixes v :: u32 and s t :: u64 and x y z :: hash32
  assumes "x \<noteq> y" "s < t"
  defines "a \<equiv> (v, \<lparr> msg_slot = s, msg_root = x \<rparr>)" and "b \<equiv> (v, \<lparr> msg_slot = s, msg_root = y \<rparr>)"
    and "c \<equiv> (v, \<lparr> msg_slot = t, msg_root = z \<rparr>)"
  shows "map (\<lambda>ms. equivocators (foldl observe_step new_store ms))
    [[a, b, c], [b, a, c], [a, c, b], [b, c, a], [c, a, b], [c, b, a]] = [[v], [v], [], [], [], []]"
  using assms(1,2) by (simp add: a_def b_def c_def observe_step_def observe_def new_store_def)

theorem observe_conflict_orders_witness:
  "map (\<lambda>ms. equivocators (foldl observe_step new_store ms))
     [[(7, \<lparr> msg_slot = 1, msg_root = [1] \<rparr>), (7, \<lparr> msg_slot = 1, msg_root = [2] \<rparr>), (7, \<lparr> msg_slot = 2, msg_root = [3] \<rparr>)],
      [(7, \<lparr> msg_slot = 1, msg_root = [2] \<rparr>), (7, \<lparr> msg_slot = 1, msg_root = [1] \<rparr>), (7, \<lparr> msg_slot = 2, msg_root = [3] \<rparr>)],
      [(7, \<lparr> msg_slot = 1, msg_root = [1] \<rparr>), (7, \<lparr> msg_slot = 2, msg_root = [3] \<rparr>), (7, \<lparr> msg_slot = 1, msg_root = [2] \<rparr>)],
      [(7, \<lparr> msg_slot = 1, msg_root = [2] \<rparr>), (7, \<lparr> msg_slot = 2, msg_root = [3] \<rparr>), (7, \<lparr> msg_slot = 1, msg_root = [1] \<rparr>)],
      [(7, \<lparr> msg_slot = 2, msg_root = [3] \<rparr>), (7, \<lparr> msg_slot = 1, msg_root = [1] \<rparr>), (7, \<lparr> msg_slot = 1, msg_root = [2] \<rparr>)],
      [(7, \<lparr> msg_slot = 2, msg_root = [3] \<rparr>), (7, \<lparr> msg_slot = 1, msg_root = [2] \<rparr>), (7, \<lparr> msg_slot = 1, msg_root = [1] \<rparr>)]]
   = [[7], [7], [], [], [], []]"
  using observe_conflict_orders [of "[1]" "[2]" 1 2 7 "[3]"] by simp

end
