(* ===== verification/Tokenomics.thy ===== *)
theory Tokenomics
  imports Bloch_Prelude
begin

text \<open>
  The supply schedule of \<^verbatim>\<open>bloch-pos-committee/src/tokenomics_v4.rs\<close>: the allocations, the
  vesting of each bucket and the three validator emission curves, in satoshis.  The functions the
  sources call with arbitrary amounts panic on overflow of \<^verbatim>\<open>u128\<close> or \<^verbatim>\<open>u64\<close> and are
  option-valued here; the loops over years and eras stay far inside the types, because the yearly
  amount never grows (\<open>annual_after_le\<close>).
\<close>

section \<open>Supply and allocations\<close>

definition SAT_PER_BLOCH :: u128 where
  "SAT_PER_BLOCH = 100000000"

definition SPLIT_NUMERATOR :: u128 where
  "SPLIT_NUMERATOR = 100"

definition SPLIT_DENOMINATOR :: u128 where
  "SPLIT_DENOMINATOR = 21"

definition TOTAL_SUPPLY_BLOCH :: u128 where
  "TOTAL_SUPPLY_BLOCH = 100000000000"

definition TOTAL_SUPPLY_SAT :: u128 where
  "TOTAL_SUPPLY_SAT = TOTAL_SUPPLY_BLOCH * SAT_PER_BLOCH"

definition FOUNDER_BLOCH :: u128 where
  "FOUNDER_BLOCH = 10000000000"

definition VC_BLOCH :: u128 where
  "VC_BLOCH = 10000000000"

definition TEAM_BLOCH :: u128 where
  "TEAM_BLOCH = 10000000000"

definition MARKETING_BLOCH :: u128 where
  "MARKETING_BLOCH = 4000000000"

definition LIQUIDITY_BLOCH :: u128 where
  "LIQUIDITY_BLOCH = 5000000000"

definition MARKETING_TGE_NUMERATOR :: u128 where
  "MARKETING_TGE_NUMERATOR = 25"

definition MARKETING_TGE_DENOMINATOR :: u128 where
  "MARKETING_TGE_DENOMINATOR = 100"

definition CARRYOVER_TOTAL_BLOCH :: u128 where
  "CARRYOVER_TOTAL_BLOCH = 18146400000"

definition HOLDER_CARRYOVER_CAP_BLOCH :: u128 where
  "HOLDER_CARRYOVER_CAP_BLOCH = 0"

definition VALIDATOR_EMISSION_BLOCH :: u128 where
  "VALIDATOR_EMISSION_BLOCH = TOTAL_SUPPLY_BLOCH - CARRYOVER_TOTAL_BLOCH - FOUNDER_BLOCH - VC_BLOCH
     - TEAM_BLOCH - MARKETING_BLOCH - LIQUIDITY_BLOCH"

definition VALIDATOR_EMISSION_SAT :: u128 where
  "VALIDATOR_EMISSION_SAT = VALIDATOR_EMISSION_BLOCH * SAT_PER_BLOCH"

definition GENESIS_ISSUED_SAT :: u128 where
  "GENESIS_ISSUED_SAT = TOTAL_SUPPLY_SAT - VALIDATOR_EMISSION_SAT"

section \<open>Time\<close>

definition SLOTS_PER_YEAR :: u64 where
  "SLOTS_PER_YEAR = 1051920"

definition EMISSION_YEARS :: u64 where
  "EMISSION_YEARS = 40"

definition EMISSION_SLOTS :: u64 where
  "EMISSION_SLOTS = EMISSION_YEARS * SLOTS_PER_YEAR"

definition MONTH_SLOTS :: u64 where
  "MONTH_SLOTS = SLOTS_PER_YEAR div 12"

definition FOUNDER_CLIFF_SLOTS :: u64 where
  "FOUNDER_CLIFF_SLOTS = 2 * SLOTS_PER_YEAR"

definition FOUNDER_VESTING_SLOTS :: u64 where
  "FOUNDER_VESTING_SLOTS = 8 * SLOTS_PER_YEAR"

definition FOUNDER_VESTING_END_SLOT :: u64 where
  "FOUNDER_VESTING_END_SLOT = FOUNDER_CLIFF_SLOTS + FOUNDER_VESTING_SLOTS"

definition VC_CLIFF_SLOTS :: u64 where
  "VC_CLIFF_SLOTS = 12 * MONTH_SLOTS"

definition VC_VESTING_SLOTS :: u64 where
  "VC_VESTING_SLOTS = 24 * MONTH_SLOTS"

definition TEAM_CLIFF_SLOTS :: u64 where
  "TEAM_CLIFF_SLOTS = 18 * MONTH_SLOTS"

definition TEAM_VESTING_SLOTS :: u64 where
  "TEAM_VESTING_SLOTS = 36 * MONTH_SLOTS"

definition MARKETING_VESTING_SLOTS :: u64 where
  "MARKETING_VESTING_SLOTS = 24 * MONTH_SLOTS"

section \<open>Vesting\<close>

definition founder_vested_sat :: "u64 \<Rightarrow> u128" where
  "founder_vested_sat slot =
     (let total = FOUNDER_BLOCH * SAT_PER_BLOCH in
      if slot < FOUNDER_CLIFF_SLOTS then 0
      else if FOUNDER_VESTING_END_SLOT \<le> slot then total
      else total * (slot - FOUNDER_CLIFF_SLOTS) div FOUNDER_VESTING_SLOTS)"

definition vested_sat :: "u128 \<Rightarrow> u64 \<Rightarrow> u64 \<Rightarrow> u64 \<Rightarrow> u128 option" where
  "vested_sat total_bloch slot cliff duration = do {
     total \<leftarrow> checked_mul u128_max total_bloch SAT_PER_BLOCH;
     if slot < cliff then Some 0
     else if duration = 0 then Some total
     else do {
       finish \<leftarrow> checked_add u64_max cliff duration;
       if finish \<le> slot then Some total
       else do { x \<leftarrow> checked_mul u128_max total (slot - cliff); Some (x div duration) }
     }
   }"

definition vc_vested_sat :: "u64 \<Rightarrow> u128 option" where
  "vc_vested_sat slot = vested_sat VC_BLOCH slot VC_CLIFF_SLOTS VC_VESTING_SLOTS"

definition team_vested_sat :: "u64 \<Rightarrow> u128 option" where
  "team_vested_sat slot = vested_sat TEAM_BLOCH slot TEAM_CLIFF_SLOTS TEAM_VESTING_SLOTS"

definition marketing_vested_sat :: "u64 \<Rightarrow> u128 option" where
  "marketing_vested_sat slot =
     (let total = MARKETING_BLOCH * SAT_PER_BLOCH;
          at_tge = total * MARKETING_TGE_NUMERATOR div MARKETING_TGE_DENOMINATOR
      in do {
        v \<leftarrow> vested_sat (MARKETING_BLOCH - MARKETING_BLOCH * MARKETING_TGE_NUMERATOR div MARKETING_TGE_DENOMINATOR)
               slot 0 MARKETING_VESTING_SLOTS;
        checked_add u128_max at_tge v
      })"

definition insider_unlocked_sat :: "u64 \<Rightarrow> u128 option" where
  "insider_unlocked_sat slot = do {
     t \<leftarrow> team_vested_sat slot;
     a \<leftarrow> checked_add u128_max (founder_vested_sat slot) t;
     v \<leftarrow> vc_vested_sat slot;
     b \<leftarrow> checked_add u128_max a v;
     m \<leftarrow> marketing_vested_sat slot;
     checked_add u128_max b m
   }"

definition scaled_carryover_sat :: "u128 \<Rightarrow> u128 \<Rightarrow> u128 option" where
  "scaled_carryover_sat balance_sat total_non_founder_sat =
     (let cap_sat = HOLDER_CARRYOVER_CAP_BLOCH * SAT_PER_BLOCH in
      if total_non_founder_sat \<le> cap_sat \<or> total_non_founder_sat = 0 then Some balance_sat
      else do { x \<leftarrow> checked_mul u128_max balance_sat cap_sat; Some (x div total_non_founder_sat) })"

section \<open>Emission\<close>

definition validator_reward_flat_sat :: "u64 \<Rightarrow> u128" where
  "validator_reward_flat_sat slot =
     (if EMISSION_SLOTS \<le> slot then 0 else VALIDATOR_EMISSION_BLOCH * SAT_PER_BLOCH div EMISSION_SLOTS)"

definition validator_emitted_flat_by :: "u64 \<Rightarrow> u128" where
  "validator_emitted_flat_by slot =
     (let s = if EMISSION_SLOTS < slot then EMISSION_SLOTS else slot in validator_reward_flat_sat 0 * s)"

definition HALVING_PERIOD_SLOTS :: u64 where
  "HALVING_PERIOD_SLOTS = 4 * SLOTS_PER_YEAR"

definition HALVINGS :: u32 where
  "HALVINGS = 10"

definition INITIAL_REWARD_SAT :: u128 where
  "INITIAL_REWARD_SAT = VALIDATOR_EMISSION_BLOCH * SAT_PER_BLOCH * 1024 div (HALVING_PERIOD_SLOTS * 2046)"

definition validator_reward_halving_sat :: "u64 \<Rightarrow> u128" where
  "validator_reward_halving_sat slot =
     (if EMISSION_SLOTS \<le> slot then 0
      else let era = slot div HALVING_PERIOD_SLOTS in
        if HALVINGS \<le> era then 0 else INITIAL_REWARD_SAT div 2 ^ era)"

function halving_loop :: "u64 \<Rightarrow> u64 \<Rightarrow> u128 \<Rightarrow> u128" where
  "halving_loop finish era acc =
     (if era < HALVINGS then
        let era_start = era * HALVING_PERIOD_SLOTS in
        if finish \<le> era_start then acc
        else let in_era = finish - era_start;
                 span = (if HALVING_PERIOD_SLOTS < in_era then HALVING_PERIOD_SLOTS else in_era)
             in halving_loop finish (era + 1) (acc + INITIAL_REWARD_SAT div 2 ^ era * span)
      else acc)"
  by pat_completeness auto
termination
  by (relation "measure (\<lambda>(_, era, _). HALVINGS - era)") auto

declare halving_loop.simps [simp del]

definition validator_emitted_halving_by :: "u64 \<Rightarrow> u128" where
  "validator_emitted_halving_by slot =
     halving_loop (if EMISSION_SLOTS < slot then EMISSION_SLOTS else slot) 0 0"

definition DECAY_NUMERATOR :: u128 where
  "DECAY_NUMERATOR = 9"

definition DECAY_DENOMINATOR :: u128 where
  "DECAY_DENOMINATOR = 10"

definition INITIAL_ANNUAL_SAT :: u128 where
  "INITIAL_ANNUAL_SAT = 434965169252191762"

definition EMISSION_DUST_SAT :: u128 where
  "EMISSION_DUST_SAT = 855280"

text \<open>The loop both reward functions run: \<open>n\<close> yearly steps.\<close>

fun annual_loop :: "u64 \<Rightarrow> u128 \<Rightarrow> u128" where
  "annual_loop 0 annual = annual"
| "annual_loop (Suc n) annual = annual_loop n (annual * DECAY_NUMERATOR div DECAY_DENOMINATOR)"

definition validator_reward_decay_sat :: "u64 \<Rightarrow> u128" where
  "validator_reward_decay_sat slot =
     (if EMISSION_SLOTS \<le> slot then 0
      else annual_loop (slot div SLOTS_PER_YEAR) INITIAL_ANNUAL_SAT div SLOTS_PER_YEAR)"

function decay_loop :: "u64 \<Rightarrow> u64 \<Rightarrow> u128 \<Rightarrow> u128 \<Rightarrow> u128" where
  "decay_loop finish year annual acc =
     (if year < EMISSION_YEARS then
        let start = year * SLOTS_PER_YEAR in
        if finish \<le> start then acc
        else let in_year = finish - start;
                 span = (if SLOTS_PER_YEAR < in_year then SLOTS_PER_YEAR else in_year)
             in decay_loop finish (year + 1) (annual * DECAY_NUMERATOR div DECAY_DENOMINATOR)
                  (acc + annual div SLOTS_PER_YEAR * span)
      else acc)"
  by pat_completeness auto
termination
  by (relation "measure (\<lambda>(_, year, _, _). EMISSION_YEARS - year)") auto

declare decay_loop.simps [simp del]

definition validator_emitted_decay_by :: "u64 \<Rightarrow> u128" where
  "validator_emitted_decay_by slot =
     decay_loop (if EMISSION_SLOTS < slot then EMISSION_SLOTS else slot) 0 INITIAL_ANNUAL_SAT 0"

named_theorems token_consts \<open>the constants of the supply schedule\<close>

lemmas token_const_defs [token_consts] =
  SAT_PER_BLOCH_def TOTAL_SUPPLY_BLOCH_def TOTAL_SUPPLY_SAT_def FOUNDER_BLOCH_def VC_BLOCH_def TEAM_BLOCH_def
  MARKETING_BLOCH_def LIQUIDITY_BLOCH_def CARRYOVER_TOTAL_BLOCH_def VALIDATOR_EMISSION_BLOCH_def
  VALIDATOR_EMISSION_SAT_def GENESIS_ISSUED_SAT_def SLOTS_PER_YEAR_def EMISSION_YEARS_def EMISSION_SLOTS_def
  MONTH_SLOTS_def FOUNDER_CLIFF_SLOTS_def FOUNDER_VESTING_SLOTS_def FOUNDER_VESTING_END_SLOT_def
  VC_CLIFF_SLOTS_def VC_VESTING_SLOTS_def TEAM_CLIFF_SLOTS_def TEAM_VESTING_SLOTS_def
  MARKETING_VESTING_SLOTS_def MARKETING_TGE_NUMERATOR_def MARKETING_TGE_DENOMINATOR_def
  HALVING_PERIOD_SLOTS_def HALVINGS_def DECAY_NUMERATOR_def DECAY_DENOMINATOR_def INITIAL_ANNUAL_SAT_def
  EMISSION_DUST_SAT_def INITIAL_REWARD_SAT_def SPLIT_NUMERATOR_def SPLIT_DENOMINATOR_def

section \<open>Emission curves are sums of rewards\<close>

text \<open>A rate that is constant on periods of \<open>p\<close> slots, summed period by period or slot by slot.\<close>

lemma piecewise_sum:
  fixes r :: "nat \<Rightarrow> nat"
  assumes "0 < p"
  shows "e \<le> n * p \<Longrightarrow> (\<Sum>y < n. r y * min p (e - y * p)) = (\<Sum>s < e. r (s div p))"
proof (induction e)
  case (Suc e)
  have step: "min p (Suc e - y * p) = min p (e - y * p) + (if y = e div p then 1 else 0)" for y
  proof -
    consider "y * p + p \<le> e" | "y * p \<le> e" "e < y * p + p" | "e < y * p"
      by linarith
    then show ?thesis
    proof cases
      case 1
      then have "Suc y * p \<le> e"
        by simp
      then have "y < e div p"
        using assms by (metis Suc_le_eq div_le_mono nonzero_mult_div_cancel_right not_gr_zero)
      then show ?thesis
        using 1 by auto
    next
      case 2
      then have "y = e div p"
        using assms by (metis add.commute div_nat_eqI mult.commute mult_Suc)
      moreover have "Suc e - y * p = Suc (e - y * p)" "e - y * p < p"
        using 2 by (simp_all add: Suc_diff_le)
      ultimately show ?thesis
        by simp
    next
      case 3
      then have "e div p < y"
        using assms by (simp add: div_less_iff_less_mult)
      then show ?thesis
        using 3 by auto
    qed
  qed
  have "e div p < n"
    using Suc.prems assms by (simp add: div_less_iff_less_mult)
  then have "(\<Sum>y < n. r y * (if y = e div p then 1 else 0)) = r (e div p)"
    by (simp add: sum.delta if_distrib cong: if_cong)
  then show ?case
    using Suc by (simp add: step distrib_left sum.distrib)
qed simp

lemma period_over: "e \<le> y * p \<Longrightarrow> y \<le> k \<Longrightarrow> e - k * p = (0 :: nat)"
  using mult_le_mono1 [of y k p] by linarith

lemma annual_loop_Suc: "annual_loop (Suc n) a = annual_loop n a * DECAY_NUMERATOR div DECAY_DENOMINATOR"
  by (induction n arbitrary: a) simp_all

lemma annual_after_le: "annual_loop n a \<le> a"
proof (induction n)
  case (Suc n)
  have "annual_loop n a * DECAY_NUMERATOR div DECAY_DENOMINATOR \<le> annual_loop n a"
    by (simp add: token_consts)
  then show ?case
    using Suc by (simp only: annual_loop_Suc)
qed simp

lemma decay_loop_sum:
  "decay_loop e y (annual_loop y INITIAL_ANNUAL_SAT) acc = acc +
     (\<Sum>k \<in> {y..<EMISSION_YEARS}. annual_loop k INITIAL_ANNUAL_SAT div SLOTS_PER_YEAR * min SLOTS_PER_YEAR (e - k * SLOTS_PER_YEAR))"
proof (induction "EMISSION_YEARS - y" arbitrary: y acc)
  case 0
  then show ?case
    by (subst decay_loop.simps) simp
next
  case (Suc n)
  let ?f = "\<lambda>k. annual_loop k INITIAL_ANNUAL_SAT div SLOTS_PER_YEAR * min SLOTS_PER_YEAR (e - k * SLOTS_PER_YEAR)"
  have y: "y < EMISSION_YEARS"
    using Suc.hyps(2) by simp
  show ?case
  proof (cases "e \<le> y * SLOTS_PER_YEAR")
    case True
    have "?f k = 0" if "y \<le> k" for k
      using period_over [OF True that] by simp
    then show ?thesis
      using y True by (subst decay_loop.simps) simp
  next
    case False
    have "decay_loop e y (annual_loop y INITIAL_ANNUAL_SAT) acc
        = decay_loop e (Suc y) (annual_loop (Suc y) INITIAL_ANNUAL_SAT) (acc + ?f y)"
      using y False by (subst decay_loop.simps) (simp add: annual_loop_Suc Let_def min_def del: annual_loop.simps)
    also have "\<dots> = acc + ?f y + (\<Sum>k \<in> {Suc y..<EMISSION_YEARS}. ?f k)"
      using Suc.hyps by (intro Suc.hyps(1)) simp
    also have "\<dots> = acc + (\<Sum>k \<in> {y..<EMISSION_YEARS}. ?f k)"
      using y by (simp add: sum.atLeast_Suc_lessThan)
    finally show ?thesis .
  qed
qed

lemma emitted_decay_sum:
  "validator_emitted_decay_by slot = (\<Sum>s < slot. validator_reward_decay_sat s)"
proof -
  let ?e = "min slot EMISSION_SLOTS"
  let ?r = "\<lambda>y. annual_loop y INITIAL_ANNUAL_SAT div SLOTS_PER_YEAR"
  have "validator_emitted_decay_by slot = decay_loop ?e 0 (annual_loop 0 INITIAL_ANNUAL_SAT) 0"
    by (simp add: validator_emitted_decay_by_def min_def)
  also have "\<dots> = (\<Sum>y < EMISSION_YEARS. ?r y * min SLOTS_PER_YEAR (?e - y * SLOTS_PER_YEAR))"
    by (simp only: decay_loop_sum add_0 lessThan_atLeast0)
  also have "\<dots> = (\<Sum>s < ?e. ?r (s div SLOTS_PER_YEAR))"
    by (rule piecewise_sum) (simp_all add: token_consts)
  also have "\<dots> = (\<Sum>s < ?e. validator_reward_decay_sat s)"
    by (rule sum.cong) (auto simp: validator_reward_decay_sat_def)
  also have "\<dots> = (\<Sum>s < slot. validator_reward_decay_sat s)"
    by (rule sum.mono_neutral_left) (auto simp: validator_reward_decay_sat_def)
  finally show ?thesis .
qed

lemma halving_loop_sum:
  "halving_loop e y acc = acc +
     (\<Sum>k \<in> {y..<HALVINGS}. INITIAL_REWARD_SAT div 2 ^ k * min HALVING_PERIOD_SLOTS (e - k * HALVING_PERIOD_SLOTS))"
proof (induction "HALVINGS - y" arbitrary: y acc)
  case 0
  then show ?case
    by (subst halving_loop.simps) simp
next
  case (Suc n)
  let ?f = "\<lambda>k. INITIAL_REWARD_SAT div 2 ^ k * min HALVING_PERIOD_SLOTS (e - k * HALVING_PERIOD_SLOTS)"
  have y: "y < HALVINGS"
    using Suc.hyps(2) by simp
  show ?case
  proof (cases "e \<le> y * HALVING_PERIOD_SLOTS")
    case True
    have "?f k = 0" if "y \<le> k" for k
      using period_over [OF True that] by simp
    then show ?thesis
      using y True by (subst halving_loop.simps) simp
  next
    case False
    have "halving_loop e y acc = halving_loop e (Suc y) (acc + ?f y)"
      using y False by (subst halving_loop.simps) (simp add: Let_def min_def)
    also have "\<dots> = acc + ?f y + (\<Sum>k \<in> {Suc y..<HALVINGS}. ?f k)"
      using Suc.hyps by (intro Suc.hyps(1)) simp
    also have "\<dots> = acc + (\<Sum>k \<in> {y..<HALVINGS}. ?f k)"
      using y by (simp add: sum.atLeast_Suc_lessThan)
    finally show ?thesis .
  qed
qed

lemma emitted_halving_sum:
  "validator_emitted_halving_by slot = (\<Sum>s < slot. validator_reward_halving_sat s)"
proof -
  let ?e = "min slot EMISSION_SLOTS"
  have cut: "s div HALVING_PERIOD_SLOTS < HALVINGS" if "s < EMISSION_SLOTS" for s
    using that by (simp add: token_consts div_less_iff_less_mult)
  have "validator_emitted_halving_by slot
      = (\<Sum>y < HALVINGS. INITIAL_REWARD_SAT div 2 ^ y * min HALVING_PERIOD_SLOTS (?e - y * HALVING_PERIOD_SLOTS))"
    by (simp add: validator_emitted_halving_by_def halving_loop_sum lessThan_atLeast0 min_def)
  also have "\<dots> = (\<Sum>s < ?e. INITIAL_REWARD_SAT div 2 ^ (s div HALVING_PERIOD_SLOTS))"
    by (rule piecewise_sum) (simp_all add: token_consts)
  also have "\<dots> = (\<Sum>s < ?e. validator_reward_halving_sat s)"
    by (rule sum.cong) (auto simp: validator_reward_halving_sat_def Let_def dest: cut)
  also have "\<dots> = (\<Sum>s < slot. validator_reward_halving_sat s)"
    by (rule sum.mono_neutral_left) (auto simp: validator_reward_halving_sat_def)
  finally show ?thesis .
qed

lemma emitted_flat_sum: "validator_emitted_flat_by slot = (\<Sum>s < slot. validator_reward_flat_sat s)"
proof -
  let ?e = "min slot EMISSION_SLOTS"
  have "validator_emitted_flat_by slot = (\<Sum>s < ?e. validator_reward_flat_sat 0)"
    by (simp add: validator_emitted_flat_by_def Let_def min_def)
  also have "\<dots> = (\<Sum>s < ?e. validator_reward_flat_sat s)"
    by (rule sum.cong) (auto simp: validator_reward_flat_sat_def token_consts)
  also have "\<dots> = (\<Sum>s < slot. validator_reward_flat_sat s)"
    by (rule sum.mono_neutral_left) (auto simp: validator_reward_flat_sat_def)
  finally show ?thesis .
qed

lemma decay_total: "validator_emitted_decay_by EMISSION_SLOTS + EMISSION_DUST_SAT = VALIDATOR_EMISSION_SAT"
  by (simp add: validator_emitted_decay_by_def decay_loop.simps token_consts)

lemma halving_total: "validator_emitted_halving_by EMISSION_SLOTS \<le> VALIDATOR_EMISSION_SAT"
  by code_simp

lemma emitted_saturates:
  "EMISSION_SLOTS \<le> slot \<Longrightarrow> validator_emitted_decay_by slot = validator_emitted_decay_by EMISSION_SLOTS"
  by (simp add: validator_emitted_decay_by_def)

lemma emitted_mono: "s \<le> t \<Longrightarrow> validator_emitted_decay_by s \<le> validator_emitted_decay_by t"
  unfolding emitted_decay_sum by (rule sum_mono2) auto

section \<open>Vesting schedules\<close>

lemma vested_sat_eq:
  assumes "total_bloch \<le> TOTAL_SUPPLY_BLOCH" "cliff + duration \<le> 2 ^ 32" "0 < duration"
  shows "vested_sat total_bloch slot cliff duration
    = Some (total_bloch * SAT_PER_BLOCH * (min slot (cliff + duration) - cliff) div duration)"
proof -
  have total: "total_bloch * SAT_PER_BLOCH \<le> 10 ^ 19"
    using assms(1) by (simp add: token_consts)
  have "total_bloch * SAT_PER_BLOCH * (slot - cliff) \<le> 10 ^ 19 * 2 ^ 32" if "slot < cliff + duration"
    using total that assms(2) by (intro mult_le_mono) auto
  then have fits: "total_bloch * SAT_PER_BLOCH * (slot - cliff) \<le> u128_max" if "slot < cliff + duration"
    using that by (simp add: u128_max_def)
  have "total_bloch * SAT_PER_BLOCH \<le> u128_max" "cliff + duration \<le> u64_max"
    using total assms(2) by (simp_all add: u128_max_def u64_max_def)
  then show ?thesis
    using assms(3) fits by (auto simp: vested_sat_def checked_fits min_def)
qed

lemma vested_range_le: "(t :: nat) * (min slot (c + d) - c) div d \<le> t"
proof (cases "d = 0")
  case False
  have "t * (min slot (c + d) - c) div d \<le> t * d div d"
    by (intro div_le_mono mult_le_mono) auto
  then show ?thesis
    using False by simp
qed simp

lemma vested_range_mono: "s \<le> s' \<Longrightarrow> (t :: nat) * (min s (c + d) - c) div d \<le> t * (min s' (c + d) - c) div d"
  by (intro div_le_mono mult_le_mono) auto

text \<open>Amount of a bucket of \<open>t\<close> satoshis vested linearly over \<open>d\<close> slots after a cliff of \<open>c\<close>.\<close>

definition linear_vest :: "nat \<Rightarrow> nat \<Rightarrow> nat \<Rightarrow> nat \<Rightarrow> nat" where
  "linear_vest t c d slot = t * (min slot (c + d) - c) div d"

lemma linear_vest_le: "linear_vest t c d slot \<le> t"
  by (simp add: linear_vest_def vested_range_le)

lemma linear_vest_mono: "s \<le> s' \<Longrightarrow> linear_vest t c d s \<le> linear_vest t c d s'"
  by (simp add: linear_vest_def vested_range_mono)

lemma linear_vest_end: "c + d \<le> slot \<Longrightarrow> 0 < d \<Longrightarrow> linear_vest t c d slot = t"
  by (simp add: linear_vest_def)

lemma founder_vest: "founder_vested_sat slot = linear_vest (FOUNDER_BLOCH * SAT_PER_BLOCH) FOUNDER_CLIFF_SLOTS FOUNDER_VESTING_SLOTS slot"
proof -
  have "0 < FOUNDER_VESTING_SLOTS"
    by (simp add: token_consts)
  then show ?thesis
    unfolding founder_vested_sat_def linear_vest_def FOUNDER_VESTING_END_SLOT_def Let_def
    by (auto simp: min_def)
qed

lemma vc_vest: "vc_vested_sat slot = Some (linear_vest (VC_BLOCH * SAT_PER_BLOCH) VC_CLIFF_SLOTS VC_VESTING_SLOTS slot)"
  unfolding vc_vested_sat_def linear_vest_def by (rule vested_sat_eq) (simp_all add: token_consts)

lemma team_vest: "team_vested_sat slot = Some (linear_vest (TEAM_BLOCH * SAT_PER_BLOCH) TEAM_CLIFF_SLOTS TEAM_VESTING_SLOTS slot)"
  unfolding team_vested_sat_def linear_vest_def by (rule vested_sat_eq) (simp_all add: token_consts)

lemma marketing_vest: "marketing_vested_sat slot = Some (1000000000 * SAT_PER_BLOCH
    + linear_vest (3000000000 * SAT_PER_BLOCH) 0 MARKETING_VESTING_SLOTS slot)"
proof -
  have "vested_sat 3000000000 slot 0 MARKETING_VESTING_SLOTS
      = Some (linear_vest (3000000000 * SAT_PER_BLOCH) 0 MARKETING_VESTING_SLOTS slot)"
    unfolding linear_vest_def by (rule vested_sat_eq) (simp_all add: token_consts)
  moreover have "1000000000 * SAT_PER_BLOCH + linear_vest (3000000000 * SAT_PER_BLOCH) 0 MARKETING_VESTING_SLOTS slot \<le> u128_max"
    using linear_vest_le [of "3000000000 * SAT_PER_BLOCH" 0 MARKETING_VESTING_SLOTS slot]
    by (simp add: token_consts u128_max_def)
  moreover have "MARKETING_BLOCH - MARKETING_BLOCH * MARKETING_TGE_NUMERATOR div MARKETING_TGE_DENOMINATOR = 3000000000"
    "MARKETING_BLOCH * SAT_PER_BLOCH * MARKETING_TGE_NUMERATOR div MARKETING_TGE_DENOMINATOR = 1000000000 * SAT_PER_BLOCH"
    by (simp_all add: token_consts)
  ultimately show ?thesis
    by (simp add: marketing_vested_sat_def checked_fits)
qed

lemmas vests = founder_vest vc_vest team_vest marketing_vest

lemma insider_unlocked_sum:
  "insider_unlocked_sat slot = Some
     (linear_vest (FOUNDER_BLOCH * SAT_PER_BLOCH) FOUNDER_CLIFF_SLOTS FOUNDER_VESTING_SLOTS slot
      + linear_vest (TEAM_BLOCH * SAT_PER_BLOCH) TEAM_CLIFF_SLOTS TEAM_VESTING_SLOTS slot
      + linear_vest (VC_BLOCH * SAT_PER_BLOCH) VC_CLIFF_SLOTS VC_VESTING_SLOTS slot
      + (1000000000 * SAT_PER_BLOCH + linear_vest (3000000000 * SAT_PER_BLOCH) 0 MARKETING_VESTING_SLOTS slot))"
  (is "_ = Some (?f + ?t + ?v + (?k + ?m))")
proof -
  have "?f \<le> 10 ^ 18" "?t \<le> 10 ^ 18" "?v \<le> 10 ^ 18" "?k + ?m \<le> 10 ^ 18"
    using linear_vest_le [of "FOUNDER_BLOCH * SAT_PER_BLOCH"] linear_vest_le [of "TEAM_BLOCH * SAT_PER_BLOCH"]
      linear_vest_le [of "VC_BLOCH * SAT_PER_BLOCH"] linear_vest_le [of "3000000000 * SAT_PER_BLOCH" 0 MARKETING_VESTING_SLOTS slot]
    by (simp_all add: token_consts)
  then have "?f + ?t \<le> u128_max" "?f + ?t + ?v \<le> u128_max" "?f + ?t + ?v + (?k + ?m) \<le> u128_max"
    by (simp_all add: u128_max_def)
  then show ?thesis
    by (simp add: insider_unlocked_sat_def vests checked_fits)
qed

section \<open>Properties\<close>

text \<open>C32. The closed accounting of each emission curve is the sum of the rewards it pays: for the decay,
  the halving and the flat curve, what has been emitted by a slot is what the slots before it paid.\<close>

theorem emission_is_sum_of_rewards:
  "validator_emitted_decay_by slot = (\<Sum>s < slot. validator_reward_decay_sat s) \<and>
   validator_emitted_halving_by slot = (\<Sum>s < slot. validator_reward_halving_sat s) \<and>
   validator_emitted_flat_by slot = (\<Sum>s < slot. validator_reward_flat_sat s)"
  using emitted_decay_sum emitted_halving_sum emitted_flat_sum by blast

text \<open>C33. The hard cap: genesis issuance plus everything the decay curve has paid by any slot stays within the
  total supply, and once emission is over exactly the named dust is left unissued.\<close>

theorem supply_cap_holds:
  "GENESIS_ISSUED_SAT + validator_emitted_decay_by slot + EMISSION_DUST_SAT \<le> TOTAL_SUPPLY_SAT \<and>
   (EMISSION_SLOTS \<le> slot \<longrightarrow>
     GENESIS_ISSUED_SAT + validator_emitted_decay_by slot + EMISSION_DUST_SAT = TOTAL_SUPPLY_SAT)"
proof -
  have cap: "GENESIS_ISSUED_SAT + VALIDATOR_EMISSION_SAT = TOTAL_SUPPLY_SAT"
    by (simp add: token_consts)
  show ?thesis
  proof (cases "EMISSION_SLOTS \<le> slot")
    case True
    show ?thesis
      using cap decay_total unfolding emitted_saturates [OF True] by linarith
  next
    case False
    then have "validator_emitted_decay_by slot \<le> validator_emitted_decay_by EMISSION_SLOTS"
      by (intro emitted_mono) simp
    then show ?thesis
      using cap decay_total False by linarith
  qed
qed

theorem supply_cap_holds_witness:
  "GENESIS_ISSUED_SAT + validator_emitted_decay_by 42076800 + EMISSION_DUST_SAT = TOTAL_SUPPLY_SAT"
  using supply_cap_holds [of 42076800] by (simp add: EMISSION_SLOTS_def EMISSION_YEARS_def SLOTS_PER_YEAR_def)

text \<open>Vesting never panics, never moves back and never exceeds the insider allocations, and from the end of
  the founder's schedule on all of it is unlocked, to the satoshi.\<close>

theorem insider_vesting:
  assumes "s \<le> s'"
  shows "\<exists>a b. insider_unlocked_sat s = Some a \<and> insider_unlocked_sat s' = Some b \<and> a \<le> b \<and>
    b \<le> (FOUNDER_BLOCH + TEAM_BLOCH + VC_BLOCH + MARKETING_BLOCH) * SAT_PER_BLOCH \<and>
    (FOUNDER_VESTING_END_SLOT \<le> s' \<longrightarrow>
      b = (FOUNDER_BLOCH + TEAM_BLOCH + VC_BLOCH + MARKETING_BLOCH) * SAT_PER_BLOCH)"
proof -
  let ?sum = "\<lambda>slot. linear_vest (FOUNDER_BLOCH * SAT_PER_BLOCH) FOUNDER_CLIFF_SLOTS FOUNDER_VESTING_SLOTS slot
      + linear_vest (TEAM_BLOCH * SAT_PER_BLOCH) TEAM_CLIFF_SLOTS TEAM_VESTING_SLOTS slot
      + linear_vest (VC_BLOCH * SAT_PER_BLOCH) VC_CLIFF_SLOTS VC_VESTING_SLOTS slot
      + (1000000000 * SAT_PER_BLOCH + linear_vest (3000000000 * SAT_PER_BLOCH) 0 MARKETING_VESTING_SLOTS slot)"
  have "?sum s \<le> ?sum s'"
    using assms by (intro add_mono linear_vest_mono) auto
  moreover have "?sum s' \<le> FOUNDER_BLOCH * SAT_PER_BLOCH + TEAM_BLOCH * SAT_PER_BLOCH + VC_BLOCH * SAT_PER_BLOCH
      + (1000000000 * SAT_PER_BLOCH + 3000000000 * SAT_PER_BLOCH)"
    by (intro add_mono linear_vest_le order_refl)
  moreover have "?sum s' = FOUNDER_BLOCH * SAT_PER_BLOCH + TEAM_BLOCH * SAT_PER_BLOCH + VC_BLOCH * SAT_PER_BLOCH
      + (1000000000 * SAT_PER_BLOCH + 3000000000 * SAT_PER_BLOCH)" if "FOUNDER_VESTING_END_SLOT \<le> s'"
    using that by (subst linear_vest_end, simp add: token_consts, simp add: token_consts)+ simp
  ultimately show ?thesis
    unfolding insider_unlocked_sum by (simp add: MARKETING_BLOCH_def distrib_right)
qed

theorem insider_vesting_witness:
  "\<exists>a b. insider_unlocked_sat 1000 = Some a \<and> insider_unlocked_sat 99999999 = Some b \<and> a \<le> b \<and>
    b = 34000000000 * SAT_PER_BLOCH"
  using insider_vesting [of 1000 99999999]
  by (auto simp: FOUNDER_VESTING_END_SLOT_def FOUNDER_CLIFF_SLOTS_def FOUNDER_VESTING_SLOTS_def SLOTS_PER_YEAR_def
      FOUNDER_BLOCH_def TEAM_BLOCH_def VC_BLOCH_def MARKETING_BLOCH_def)

end
