(* ===== verification/Rewards.thy ===== *)
theory Rewards
  imports Tokenomics
begin

text \<open>
  Validator revenue (\<^verbatim>\<open>bloch-pos-committee/src/rewards.rs\<close>): the split of a block's fees between the
  producer and the burn, and the split of an epoch's issuance between an operator and its delegators.
  The arithmetic is \<^verbatim>\<open>u128\<close> and panics on overflow, so the operations are option-valued.
\<close>

section \<open>Operations\<close>

definition BPS :: u128 where
  "BPS = 10000"

definition BASE_FEE_BURN_BPS :: u128 where
  "BASE_FEE_BURN_BPS = 5000"

definition PRIORITY_FEE_PRODUCER_BPS :: u128 where
  "PRIORITY_FEE_PRODUCER_BPS = 10000"

definition MAX_COMMISSION_BPS :: u128 where
  "MAX_COMMISSION_BPS = 10000"

record fee_split =
  to_producer :: u128
  burned :: u128

definition split_fees_at :: "u128 \<Rightarrow> u128 \<Rightarrow> u64 \<Rightarrow> fee_split option" where
  "split_fees_at base_fee priority_fee slot =
     (if EMISSION_SLOTS \<le> slot
      then do { s \<leftarrow> checked_add u128_max base_fee priority_fee; Some \<lparr> to_producer = s, burned = 0 \<rparr> }
      else do {
        b \<leftarrow> checked_mul u128_max base_fee BASE_FEE_BURN_BPS;
        let base_burn = b div BPS;
        p \<leftarrow> checked_mul u128_max priority_fee PRIORITY_FEE_PRODUCER_BPS;
        let prio_producer = p div BPS;
        kept \<leftarrow> checked_sub base_fee base_burn;
        to_producer \<leftarrow> checked_add u128_max kept prio_producer;
        lost \<leftarrow> checked_sub priority_fee prio_producer;
        burned \<leftarrow> checked_add u128_max base_burn lost;
        Some \<lparr> to_producer = to_producer, burned = burned \<rparr>
      })"

definition split_fees :: "u128 \<Rightarrow> u128 \<Rightarrow> fee_split option" where
  "split_fees base_fee priority_fee = split_fees_at base_fee priority_fee 0"

record stake_account =
  self_stake :: u128
  delegated_stake :: u128
  commission_bps :: u128
  credits :: u64
  max_credits :: u64

record payout =
  operator :: u128
  delegators :: u128
  forfeited :: u128

text \<open>The common part of the two reward rules: split an amount by the origin of the stake, then move the
  commission on the delegated side to the operator.\<close>

definition split_by_origin :: "stake_account \<Rightarrow> u128 \<Rightarrow> u128 \<Rightarrow> (u128 \<times> u128) option" where
  "split_by_origin acct stake amount = do {
     d \<leftarrow> checked_mul u128_max amount (delegated_stake acct);
     let delegator_gross = d div stake;
     operator_gross \<leftarrow> checked_sub amount delegator_gross;
     c \<leftarrow> checked_mul u128_max delegator_gross (min (commission_bps acct) MAX_COMMISSION_BPS);
     let commission = c div BPS;
     operator \<leftarrow> checked_add u128_max operator_gross commission;
     delegators \<leftarrow> checked_sub delegator_gross commission;
     Some (operator, delegators)
   }"

definition distribute :: "stake_account \<Rightarrow> u128 \<Rightarrow> u128 \<Rightarrow> payout option" where
  "distribute acct epoch_issuance total_stake = do {
     stake \<leftarrow> checked_add u128_max (self_stake acct) (delegated_stake acct);
     if total_stake = 0 \<or> stake = 0 \<or> max_credits acct = 0
     then Some \<lparr> operator = 0, delegators = 0, forfeited = 0 \<rparr>
     else do {
       g \<leftarrow> checked_mul u128_max epoch_issuance stake;
       let gross = g div total_stake;
       e \<leftarrow> checked_mul u128_max gross (min (credits acct) (max_credits acct));
       let earned = e div max_credits acct;
       forfeited \<leftarrow> checked_sub gross earned;
       (operator, delegators) \<leftarrow> split_by_origin acct stake earned;
       Some \<lparr> operator = operator, delegators = delegators, forfeited = forfeited \<rparr>
     }
   }"

section \<open>Lemmas\<close>

lemma share_le: "d \<le> s \<Longrightarrow> (a :: nat) * d div s \<le> a"
  by (simp add: div_mul_share_le)

text \<open>Amounts up to \<open>10 ^ 19\<close> satoshis, the total supply, leave room for one product.\<close>

lemma supply_product: "a \<le> 10 ^ 19 \<Longrightarrow> b \<le> 10 ^ 19 \<Longrightarrow> a * b \<le> u128_max"
  using mult_le_mono [of a "10 ^ 19" b "10 ^ 19"] by (simp add: u128_max_def)

lemma split_by_origin_conserves:
  "split_by_origin acct stake amount = Some (op, del) \<Longrightarrow> op + del = amount"
  by (auto simp: split_by_origin_def bind_eq_Some_conv checked_mul_eq_Some checked_sub_eq_Some
      checked_add_eq_Some Let_def)

lemma split_by_origin_total:
  assumes "amount \<le> 10 ^ 19" "delegated_stake acct \<le> stake" "stake \<le> 10 ^ 19" "0 < stake"
  shows "\<exists>op del. split_by_origin acct stake amount = Some (op, del)"
proof -
  let ?d = "amount * delegated_stake acct div stake"
  let ?c = "?d * min (commission_bps acct) MAX_COMMISSION_BPS div BPS"
  have d: "?d \<le> amount" "amount * delegated_stake acct \<le> u128_max"
    using assms by (simp_all add: share_le supply_product)
  then have c: "?c \<le> ?d" "?d * min (commission_bps acct) MAX_COMMISSION_BPS \<le> u128_max"
    using assms by (auto simp: MAX_COMMISSION_BPS_def BPS_def intro!: share_le supply_product)
  then have "amount - ?d + ?c \<le> u128_max"
    using d assms by (simp add: u128_max_def)
  then show ?thesis
    using d c by (simp add: split_by_origin_def checked_fits Let_def)
qed

section \<open>Properties\<close>

text \<open>C34. Issuance is conserved: what a validator, its delegators and the forfeit receive is together exactly
  the pro-rata share of the epoch's issuance, rounded down; and on amounts within the supply the
  computation never overflows.\<close>

theorem distribute_conserves:
  assumes "epoch_issuance \<le> TOTAL_SUPPLY_SAT" "total_stake \<le> TOTAL_SUPPLY_SAT"
    and "self_stake acct + delegated_stake acct \<le> total_stake" "max_credits acct \<le> u64_max"
  shows "\<exists>p. distribute acct epoch_issuance total_stake = Some p \<and>
    operator p + delegators p + forfeited p =
      (if max_credits acct = 0 then 0
       else epoch_issuance * (self_stake acct + delegated_stake acct) div total_stake)"
proof (cases "total_stake = 0 \<or> self_stake acct + delegated_stake acct = 0 \<or> max_credits acct = 0")
  case True
  then show ?thesis
    using assms by (auto simp: distribute_def checked_add_def u128_max_def TOTAL_SUPPLY_SAT_def TOTAL_SUPPLY_BLOCH_def SAT_PER_BLOCH_def)
next
  case False
  let ?stake = "self_stake acct + delegated_stake acct"
  let ?gross = "epoch_issuance * ?stake div total_stake"
  let ?earned = "?gross * min (credits acct) (max_credits acct) div max_credits acct"
  have small: "epoch_issuance \<le> 10 ^ 19" "?stake \<le> 10 ^ 19"
    using assms by (simp_all add: TOTAL_SUPPLY_SAT_def TOTAL_SUPPLY_BLOCH_def SAT_PER_BLOCH_def)
  have gross: "?gross \<le> epoch_issuance" "epoch_issuance * ?stake \<le> u128_max"
    using assms(3) small by (simp_all add: share_le supply_product)
  have earned: "?earned \<le> ?gross"
    by (rule share_le) simp
  have "?gross * min (credits acct) (max_credits acct) \<le> 10 ^ 19 * u64_max"
    using gross small assms(4) by (intro mult_le_mono) auto
  then have fits: "?gross * min (credits acct) (max_credits acct) \<le> u128_max"
    by (simp add: u128_max_def u64_max_def)
  obtain op del where od: "split_by_origin acct ?stake ?earned = Some (op, del)"
    using split_by_origin_total [of ?earned acct ?stake] gross earned small False by auto
  have "?stake \<le> u128_max"
    using small by (simp add: u128_max_def)
  then have "distribute acct epoch_issuance total_stake =
      Some \<lparr> operator = op, delegators = del, forfeited = ?gross - ?earned \<rparr>"
    using False gross fits earned od by (auto simp: distribute_def checked_fits Let_def)
  then show ?thesis
    using split_by_origin_conserves [OF od] earned False by simp
qed

definition demo_account :: stake_account where
  "demo_account = \<lparr> self_stake = 70, delegated_stake = 30, commission_bps = 500, credits = 9, max_credits = 10 \<rparr>"

theorem distribute_conserves_witness:
  "\<exists>p. distribute demo_account 1000 500 = Some p \<and> operator p + delegators p + forfeited p = 200"
  using distribute_conserves [of 1000 500 demo_account]
  by (simp add: demo_account_def TOTAL_SUPPLY_SAT_def TOTAL_SUPPLY_BLOCH_def SAT_PER_BLOCH_def u64_max_def)

text \<open>Fees are conserved in both eras: producer share and burn add up to the fees, during emission half of the
  base fee (rounded down) is burned and the whole priority fee goes to the producer, and after emission
  nothing is burned.\<close>

theorem split_fees_conserves:
  assumes "split_fees_at base_fee priority_fee slot = Some s"
  shows "to_producer s + burned s = base_fee + priority_fee \<and>
    burned s = (if slot < EMISSION_SLOTS then base_fee div 2 else 0)"
proof -
  have half: "b * 5000 div 10000 = b div 2" for b :: nat
    by simp
  show ?thesis
    using assms
    by (auto simp: split_fees_at_def bind_eq_Some_conv checked_mul_eq_Some checked_sub_eq_Some checked_add_eq_Some
        Let_def BASE_FEE_BURN_BPS_def BPS_def PRIORITY_FEE_PRODUCER_BPS_def half split: if_splits)
qed

theorem split_fees_conserves_witness:
  "\<exists>s. split_fees_at 11 5 0 = Some s \<and> to_producer s + burned s = 16 \<and> burned s = 5"
proof -
  have run: "split_fees_at 11 5 0 = Some \<lparr> to_producer = 11, burned = 5 \<rparr>"
    by code_simp
  show ?thesis
    using split_fees_conserves [OF run] run by (simp add: EMISSION_SLOTS_def EMISSION_YEARS_def SLOTS_PER_YEAR_def)
qed

end
