(* ===== verification/Fee_Market.thy ===== *)
theory Fee_Market
  imports Rewards Params
begin

text \<open>
  The fee market (\<^verbatim>\<open>bloch-pos-committee/src/fee_market.rs\<close>): gas of a transaction, the base-fee
  controller over gas and bytes, settlement in whole satoshis, and the split of the producer's fees.
  Operations that panic on overflow are option-valued; the saturating ones saturate.
\<close>

section \<open>Block capacity\<close>

definition MAX_BLOCK_TX_BYTES :: u64 where
  "MAX_BLOCK_TX_BYTES = 262144"

definition BLOCK_GAS_LIMIT :: u64 where
  "BLOCK_GAS_LIMIT = 60000000"

definition BLOCK_GAS_TARGET :: u64 where
  "BLOCK_GAS_TARGET = BLOCK_GAS_LIMIT div 2"

definition BLOCK_TX_BYTES_TARGET :: u64 where
  "BLOCK_TX_BYTES_TARGET = MAX_BLOCK_TX_BYTES div 2"

definition MAX_BLOCK_TX_BYTES_V2 :: u64 where
  "MAX_BLOCK_TX_BYTES_V2 = 524288"

definition BLOCK_TX_BYTES_TARGET_V2 :: u64 where
  "BLOCK_TX_BYTES_TARGET_V2 = MAX_BLOCK_TX_BYTES_V2 div 2"

definition BLOCK_BYTES_V2_ACTIVATION_EPOCH :: u64 where
  "BLOCK_BYTES_V2_ACTIVATION_EPOCH = 800"

definition max_block_tx_bytes :: "u64 \<Rightarrow> u64" where
  "max_block_tx_bytes epoch =
     (if epoch < BLOCK_BYTES_V2_ACTIVATION_EPOCH then MAX_BLOCK_TX_BYTES else MAX_BLOCK_TX_BYTES_V2)"

definition block_tx_bytes_target :: "u64 \<Rightarrow> u64" where
  "block_tx_bytes_target epoch =
     (if epoch < BLOCK_BYTES_V2_ACTIVATION_EPOCH then BLOCK_TX_BYTES_TARGET else BLOCK_TX_BYTES_TARGET_V2)"

section \<open>Gas\<close>

definition GAS_PER_BYTE :: u64 where
  "GAS_PER_BYTE = 16"

definition TX_FLAT_GAS :: u64 where
  "TX_FLAT_GAS = 5000"

definition HYBRID_VERIFY_INSTRUCTIONS :: u64 where
  "HYBRID_VERIFY_INSTRUCTIONS = 7274849"

definition INSTRUCTIONS_PER_GAS :: u64 where
  "INSTRUCTIONS_PER_GAS = 100"

definition HYBRID_VERIFY_GAS :: u64 where
  "HYBRID_VERIFY_GAS = HYBRID_VERIFY_INSTRUCTIONS div INSTRUCTIONS_PER_GAS"

definition SECP256K1_VERIFY_GAS :: u64 where
  "SECP256K1_VERIFY_GAS = 3000"

definition SHIELDED_VERIFY_GAS_PROVISIONAL :: u64 where
  "SHIELDED_VERIFY_GAS_PROVISIONAL = 25 * HYBRID_VERIFY_GAS"

definition SUITE_ENVELOPE_MAGIC :: bytes where
  "SUITE_ENVELOPE_MAGIC = [0xB1, 0x0C]"

definition SUITE_SLHDSA128S_FALCON1024 :: nat where
  "SUITE_SLHDSA128S_FALCON1024 = 3"

definition SLHDSA_FALCON_ENVELOPED_PUBKEY_LEN :: usize where
  "SLHDSA_FALCON_ENVELOPED_PUBKEY_LEN = 4 + 32 + 1793"

definition HF3_SLH_SUITE_EPOCH :: u64 where
  "HF3_SLH_SUITE_EPOCH = u64_max"

definition FALCON1024_VERIFY_INSTRUCTIONS :: u64 where
  "FALCON1024_VERIFY_INSTRUCTIONS = 1312901"

definition SLHDSA128S_VERIFY_INSTRUCTIONS :: u64 where
  "SLHDSA128S_VERIFY_INSTRUCTIONS = 76056212"

definition MLDSA65_VERIFY_NATIVE_NS :: u64 where
  "MLDSA65_VERIFY_NATIVE_NS = 53600"

definition FALCON1024_VERIFY_NATIVE_NS :: u64 where
  "FALCON1024_VERIFY_NATIVE_NS = 102000"

definition SLHDSA128S_VERIFY_NATIVE_NS :: u64 where
  "SLHDSA128S_VERIFY_NATIVE_NS = 2181500"

definition HYBRID_VERIFY_NATIVE_NS :: u64 where
  "HYBRID_VERIFY_NATIVE_NS = MLDSA65_VERIFY_NATIVE_NS + FALCON1024_VERIFY_NATIVE_NS"

text \<open>\<open>u128::div_ceil\<close>, and the truncating cast of the result.\<close>

definition div_ceil :: "nat \<Rightarrow> nat \<Rightarrow> nat" where
  "div_ceil a b = (if a mod b = 0 then a div b else a div b + 1)"

definition pair_verify_gas :: "u64 \<Rightarrow> u64 \<Rightarrow> u64" where
  "pair_verify_gas instructions native_ns =
     (let by_instructions = instructions div INSTRUCTIONS_PER_GAS;
          by_time = div_ceil (HYBRID_VERIFY_GAS * native_ns) HYBRID_VERIFY_NATIVE_NS mod (u64_max + 1)
      in if by_time < by_instructions then by_instructions else by_time)"

definition SLHDSA_FALCON_VERIFY_GAS :: u64 where
  "SLHDSA_FALCON_VERIFY_GAS =
     pair_verify_gas (SLHDSA128S_VERIFY_INSTRUCTIONS + FALCON1024_VERIFY_INSTRUCTIONS)
       (SLHDSA128S_VERIFY_NATIVE_NS + FALCON1024_VERIFY_NATIVE_NS)"

definition per_suite_verify_gas_active :: "u64 \<Rightarrow> bool" where
  "per_suite_verify_gas_active epoch = epoch_gate_active epoch HF3_SLH_SUITE_EPOCH"

datatype verify_suite = Hybrid | SlhDsaFalcon

definition verify_suite_of :: "bytes \<Rightarrow> verify_suite" where
  "verify_suite_of pubkey =
     (if length pubkey \<noteq> SLHDSA_FALCON_ENVELOPED_PUBKEY_LEN
         \<or> pubkey ! 0 \<noteq> SUITE_ENVELOPE_MAGIC ! 0 \<or> pubkey ! 1 \<noteq> SUITE_ENVELOPE_MAGIC ! 1 then Hybrid
      else if le_value [pubkey ! 2, pubkey ! 3] = SUITE_SLHDSA128S_FALCON1024 then SlhDsaFalcon
      else Hybrid)"

definition suite_verify_gas :: "verify_suite \<Rightarrow> u64" where
  "suite_verify_gas suite =
     (case suite of Hybrid \<Rightarrow> HYBRID_VERIFY_GAS | SlhDsaFalcon \<Rightarrow> SLHDSA_FALCON_VERIFY_GAS)"

definition verify_cost_units :: "bytes \<Rightarrow> u64" where
  "verify_cost_units pubkey = div_ceil (suite_verify_gas (verify_suite_of pubkey)) HYBRID_VERIFY_GAS"

datatype tx_class = Eutxo u32 | EutxoSuites u32 u32 | EvmPq | EvmSecp256k1 | Shielded

definition eutxo_class_for_keys_with :: "bool \<Rightarrow> bytes list \<Rightarrow> tx_class" where
  "eutxo_class_for_keys_with armed keys =
     (let (hybrid, slh_falcon) = foldl (\<lambda>(h, s) key. case verify_suite_of key of
              Hybrid \<Rightarrow> (saturating_add u32_max h 1, s)
            | SlhDsaFalcon \<Rightarrow> (h, saturating_add u32_max s 1)) (0, 0) keys
      in if \<not> armed \<or> slh_falcon = 0 then Eutxo (saturating_add u32_max hybrid slh_falcon)
         else EutxoSuites hybrid slh_falcon)"

definition eutxo_class_for_keys :: "u64 \<Rightarrow> bytes list \<Rightarrow> tx_class" where
  "eutxo_class_for_keys epoch keys = eutxo_class_for_keys_with (per_suite_verify_gas_active epoch) keys"

definition verify_gas :: "tx_class \<Rightarrow> u64" where
  "verify_gas class = (case class of
     Eutxo inputs \<Rightarrow> saturating_mul u64_max HYBRID_VERIFY_GAS inputs
   | EutxoSuites hybrid slh_falcon \<Rightarrow>
       saturating_add u64_max (saturating_mul u64_max HYBRID_VERIFY_GAS hybrid)
         (saturating_mul u64_max SLHDSA_FALCON_VERIFY_GAS slh_falcon)
   | EvmPq \<Rightarrow> HYBRID_VERIFY_GAS
   | EvmSecp256k1 \<Rightarrow> SECP256K1_VERIFY_GAS
   | Shielded \<Rightarrow> SHIELDED_VERIFY_GAS_PROVISIONAL)"

definition intrinsic_gas :: "tx_class \<Rightarrow> u64 \<Rightarrow> u64" where
  "intrinsic_gas class tx_bytes =
     saturating_add u64_max (saturating_add u64_max TX_FLAT_GAS (saturating_mul u64_max tx_bytes GAS_PER_BYTE))
       (verify_gas class)"

section \<open>The price\<close>

definition MILLISAT_PER_SAT :: u128 where
  "MILLISAT_PER_SAT = 1000"

definition MIN_BASE_FEE_MILLISAT_PER_GAS :: u128 where
  "MIN_BASE_FEE_MILLISAT_PER_GAS = 10"

definition MAX_BASE_FEE_MILLISAT_PER_GAS :: u128 where
  "MAX_BASE_FEE_MILLISAT_PER_GAS = TOTAL_SUPPLY_SAT * MILLISAT_PER_SAT"

definition BASE_FEE_CHANGE_DENOMINATOR :: u128 where
  "BASE_FEE_CHANGE_DENOMINATOR = 8"

record block_usage =
  gas_used :: u64
  usage_tx_bytes :: u64

definition clamp_base_fee :: "u128 \<Rightarrow> u128" where
  "clamp_base_fee v =
     (if v < MIN_BASE_FEE_MILLISAT_PER_GAS then MIN_BASE_FEE_MILLISAT_PER_GAS
      else if MAX_BASE_FEE_MILLISAT_PER_GAS < v then MAX_BASE_FEE_MILLISAT_PER_GAS
      else v)"

text \<open>The axis that is used more, by cross-multiplication; the products of two \<^verbatim>\<open>u64\<close> fit \<^verbatim>\<open>u128\<close>.\<close>

definition scarce_axis :: "block_usage \<Rightarrow> u64 \<Rightarrow> u128 \<times> u128" where
  "scarce_axis parent byte_target =
     (if usage_tx_bytes parent * BLOCK_GAS_TARGET \<le> gas_used parent * byte_target
      then (gas_used parent, BLOCK_GAS_TARGET) else (usage_tx_bytes parent, byte_target))"

definition next_base_fee :: "u128 \<Rightarrow> block_usage \<Rightarrow> u64 \<Rightarrow> u128 option" where
  "next_base_fee parent_base_fee parent epoch =
     (let (used, target) = scarce_axis parent (block_tx_bytes_target epoch);
          base = clamp_base_fee parent_base_fee
      in if used = target then Some base
         else if target < used then do {
           x \<leftarrow> checked_mul u128_max base (used - target);
           let delta = x div target div BASE_FEE_CHANGE_DENOMINATOR;
           y \<leftarrow> checked_add u128_max base (if delta = 0 then 1 else delta);
           Some (clamp_base_fee y)
         }
         else do {
           x \<leftarrow> checked_mul u128_max base (target - used);
           let delta = x div target div BASE_FEE_CHANGE_DENOMINATOR;
           y \<leftarrow> checked_sub base delta;
           Some (clamp_base_fee y)
         })"

definition ceil_div :: "u128 \<Rightarrow> u128 \<Rightarrow> u128" where
  "ceil_div n d = n div d + (if n mod d \<noteq> 0 then 1 else 0)"

definition part_sat :: "u64 \<Rightarrow> u128 \<Rightarrow> u128" where
  "part_sat gas price_millisat_per_gas =
     ceil_div (saturating_mul u128_max gas price_millisat_per_gas) MILLISAT_PER_SAT"

definition fee_parts_sat :: "u64 \<Rightarrow> u128 \<Rightarrow> u128 \<Rightarrow> u128 \<times> u128" where
  "fee_parts_sat gas base_fee_millisat_per_gas tip_millisat_per_gas =
     (part_sat gas base_fee_millisat_per_gas, part_sat gas tip_millisat_per_gas)"

section \<open>Producer fees\<close>

definition distribute_producer_fees :: "stake_account \<Rightarrow> u128 \<Rightarrow> payout option" where
  "distribute_producer_fees acct producer_fee_sat = do {
     stake \<leftarrow> checked_add u128_max (self_stake acct) (delegated_stake acct);
     if stake = 0 then Some \<lparr> operator = producer_fee_sat, delegators = 0, forfeited = 0 \<rparr>
     else do {
       (operator, delegators) \<leftarrow> split_by_origin acct stake producer_fee_sat;
       Some \<lparr> operator = operator, delegators = delegators, forfeited = 0 \<rparr>
     }
   }"

fun fee_shares :: "u128 \<Rightarrow> u128 \<Rightarrow> (u32 \<times> u128) list \<Rightarrow> u128 \<Rightarrow> ((u32 \<times> u128) list \<times> u128) option" where
  "fee_shares delegators_sat whole [] paid = Some ([], paid)"
| "fee_shares delegators_sat whole ((d, s) # stakes) paid = do {
     x \<leftarrow> checked_mul u128_max delegators_sat s;
     let share = x div whole;
     paid' \<leftarrow> checked_add u128_max paid share;
     (parts, end_paid) \<leftarrow> fee_shares delegators_sat whole stakes paid';
     Some ((d, share) # parts, end_paid)
   }"

definition split_delegator_fees :: "(u32 \<times> u128) list \<Rightarrow> u128 \<Rightarrow> ((u32 \<times> u128) list \<times> u128) option" where
  "split_delegator_fees stakes delegators_sat = do {
     whole \<leftarrow> checked_sum u128_max (map snd stakes);
     if whole = 0 \<or> delegators_sat = 0 then Some (map (\<lambda>(d, _). (d, 0)) stakes, delegators_sat)
     else do {
       (parts, paid) \<leftarrow> fee_shares delegators_sat whole stakes 0;
       rest \<leftarrow> checked_sub delegators_sat paid;
       Some (parts, rest)
     }
   }"

section \<open>Charging a transaction\<close>

record tx_charge =
  charge_gas :: u64
  charge_tx_bytes :: u64
  base_fee_sat :: u128
  priority_fee_sat :: u128

definition charge :: "tx_class \<Rightarrow> u64 \<Rightarrow> u128 \<Rightarrow> u128 \<Rightarrow> tx_charge" where
  "charge class tx_bytes base_fee_millisat_per_gas tip_millisat_per_gas =
     (let gas = intrinsic_gas class tx_bytes;
          (base, tip) = fee_parts_sat gas base_fee_millisat_per_gas tip_millisat_per_gas
      in \<lparr> charge_gas = gas, charge_tx_bytes = tx_bytes, base_fee_sat = base, priority_fee_sat = tip \<rparr>)"

section \<open>The controller\<close>

lemmas fee_consts = BLOCK_GAS_LIMIT_def BLOCK_GAS_TARGET_def MAX_BLOCK_TX_BYTES_def MAX_BLOCK_TX_BYTES_V2_def
  BLOCK_TX_BYTES_TARGET_def BLOCK_TX_BYTES_TARGET_V2_def MIN_BASE_FEE_MILLISAT_PER_GAS_def
  MAX_BASE_FEE_MILLISAT_PER_GAS_def BASE_FEE_CHANGE_DENOMINATOR_def MILLISAT_PER_SAT_def
  TOTAL_SUPPLY_SAT_def TOTAL_SUPPLY_BLOCH_def SAT_PER_BLOCH_def

lemma byte_target_half: "2 * block_tx_bytes_target epoch = max_block_tx_bytes epoch" "0 < block_tx_bytes_target epoch"
  "max_block_tx_bytes epoch \<le> MAX_BLOCK_TX_BYTES_V2"
  by (simp_all add: block_tx_bytes_target_def max_block_tx_bytes_def fee_consts)

lemma clamp_range: "MIN_BASE_FEE_MILLISAT_PER_GAS \<le> clamp_base_fee v" "clamp_base_fee v \<le> MAX_BASE_FEE_MILLISAT_PER_GAS"
  by (simp_all add: clamp_base_fee_def fee_consts)

text \<open>The chosen axis is over its target exactly when one of the two is.\<close>

lemma scarce_axis_over:
  assumes "scarce_axis u bt = (used, target)" "0 < bt"
  shows "target < used \<longleftrightarrow> BLOCK_GAS_TARGET < gas_used u \<or> bt < usage_tx_bytes u" "0 < target"
proof -
  have gt: "0 < BLOCK_GAS_TARGET"
    by (simp add: fee_consts)
  show "0 < target"
    using assms gt by (auto simp: scarce_axis_def split: if_splits)
  show "target < used \<longleftrightarrow> BLOCK_GAS_TARGET < gas_used u \<or> bt < usage_tx_bytes u"
  proof (cases "usage_tx_bytes u * BLOCK_GAS_TARGET \<le> gas_used u * bt")
    case True
    have "usage_tx_bytes u \<le> bt" if "gas_used u \<le> BLOCK_GAS_TARGET"
    proof -
      have "usage_tx_bytes u * BLOCK_GAS_TARGET \<le> BLOCK_GAS_TARGET * bt"
        using True that mult_le_mono1 order_trans by blast
      then show ?thesis
        using gt by (simp add: mult.commute)
    qed
    moreover have "used = gas_used u" "target = BLOCK_GAS_TARGET"
      using True assms(1) by (simp_all add: scarce_axis_def)
    ultimately show ?thesis
      by linarith
  next
    case False
    have "gas_used u \<le> BLOCK_GAS_TARGET" if "usage_tx_bytes u \<le> bt"
    proof -
      have "gas_used u * bt < bt * BLOCK_GAS_TARGET"
        using False that mult_le_mono1 [OF that, of BLOCK_GAS_TARGET] by linarith
      then show ?thesis
        using assms(2) by (simp add: mult.commute)
    qed
    moreover have "used = usage_tx_bytes u" "target = bt"
      using False assms(1) by (simp_all add: scarce_axis_def)
    ultimately show ?thesis
      by linarith
  qed
qed

text \<open>One step of at most an eighth, up or down.\<close>

lemma step_le_eighth: "d \<le> t \<Longrightarrow> (b :: nat) * d div t div 8 \<le> b div 8"
  by (intro div_le_mono share_le)

lemma base_product:
  assumes "x \<le> BLOCK_GAS_LIMIT"
  shows "clamp_base_fee v * x \<le> u128_max"
proof -
  have "clamp_base_fee v * x \<le> MAX_BASE_FEE_MILLISAT_PER_GAS * BLOCK_GAS_LIMIT"
    using clamp_range(2) assms by (intro mult_le_mono)
  also have "\<dots> \<le> u128_max"
    by (simp add: fee_consts u128_max_def)
  finally show ?thesis .
qed

lemma clamp_step:
  assumes "base = clamp_base_fee v" "delta \<le> base div 8"
  shows "clamp_base_fee (base + delta) \<le> base + base div 8" "base \<le> clamp_base_fee (base + delta)"
    "clamp_base_fee (base - delta) \<le> base" "base \<le> clamp_base_fee (base - delta) + base div 8"
    "0 < delta \<Longrightarrow> base < clamp_base_fee (base + delta) \<or> clamp_base_fee (base + delta) = MAX_BASE_FEE_MILLISAT_PER_GAS"
  using assms clamp_range [of v] by (auto simp: clamp_base_fee_def)

lemma next_base_fee_up:
  fixes v :: u128
  assumes "scarce_axis u (block_tx_bytes_target epoch) = (used, target)" "target < used" "used \<le> 2 * target"
    and "used \<le> BLOCK_GAS_LIMIT"
  defines "base \<equiv> clamp_base_fee v"
  shows "\<exists>delta. 0 < delta \<and> delta \<le> base div 8 \<and> next_base_fee v u epoch = Some (clamp_base_fee (base + delta))"
proof -
  let ?x = "base * (used - target) div target div BASE_FEE_CHANGE_DENOMINATOR"
  have "?x \<le> base div 8"
    using assms(3) by (simp add: BASE_FEE_CHANGE_DENOMINATOR_def step_le_eighth)
  moreover have eight: "1 \<le> base div 8" "base \<le> MAX_BASE_FEE_MILLISAT_PER_GAS"
    using clamp_range [of v] by (auto simp: base_def MIN_BASE_FEE_MILLISAT_PER_GAS_def)
  ultimately have d: "(if ?x = 0 then 1 else ?x) \<le> base div 8"
    by simp
  have "base * (used - target) \<le> u128_max"
    unfolding base_def using assms(4) by (intro base_product) simp
  moreover have "base + (if ?x = 0 then 1 else ?x) \<le> u128_max"
    using d eight(2) by (simp add: fee_consts u128_max_def)
  ultimately have "next_base_fee v u epoch = Some (clamp_base_fee (base + (if ?x = 0 then 1 else ?x)))"
    using assms(1,2) by (simp add: next_base_fee_def checked_fits Let_def flip: base_def)
  then show ?thesis
    using d by (intro exI [of _ "if ?x = 0 then 1 else ?x"]) simp
qed

lemma next_base_fee_down:
  fixes v :: u128
  assumes "scarce_axis u (block_tx_bytes_target epoch) = (used, target)" "used < target" "target \<le> BLOCK_GAS_LIMIT"
  defines "base \<equiv> clamp_base_fee v"
  shows "\<exists>delta. delta \<le> base div 8 \<and> next_base_fee v u epoch = Some (clamp_base_fee (base - delta))"
proof -
  let ?x = "base * (target - used) div target div BASE_FEE_CHANGE_DENOMINATOR"
  have d: "?x \<le> base div 8"
    by (simp add: BASE_FEE_CHANGE_DENOMINATOR_def step_le_eighth)
  have "base * (target - used) \<le> u128_max"
    unfolding base_def using assms(3) by (intro base_product) simp
  moreover have "?x \<le> base"
    using d by (rule order_trans) simp
  ultimately have "next_base_fee v u epoch = Some (clamp_base_fee (base - ?x))"
    using assms(1,2) by (simp add: next_base_fee_def checked_fits Let_def flip: base_def)
  then show ?thesis
    using d by blast
qed

section \<open>Shares\<close>

lemma fee_shares_eq:
  "fee_shares D T stakes paid = Some (parts, e) \<Longrightarrow>
     parts = map (\<lambda>(d, s). (d, D * s div T)) stakes \<and> e = paid + (\<Sum>(d, s) \<leftarrow> stakes. D * s div T)"
proof (induction stakes arbitrary: paid parts)
  case (Cons x stakes)
  obtain d s where x: "x = (d, s)"
    by (cases x)
  with Cons.prems obtain rest where parts: "parts = (d, D * s div T) # rest"
    and rest: "fee_shares D T stakes (paid + D * s div T) = Some (rest, e)"
    by (auto simp: bind_eq_Some_conv checked_mul_eq_Some checked_add_eq_Some Let_def)
  show ?case
    using Cons.IH [OF rest] x parts by simp
qed simp

lemma sum_shares_bound:
  assumes "0 < T"
  shows "(\<Sum>(d, s) \<leftarrow> stakes. D * s div T) * T \<le> D * sum_list (map snd stakes) \<and>
    D * sum_list (map snd stakes) \<le> (\<Sum>(d, s) \<leftarrow> stakes. D * s div T) * T + length stakes * (T - 1)"
proof (induction stakes)
  case (Cons e stakes)
  obtain d s where e: "e = (d, s)"
    by (cases e)
  have "D * s div T * T \<le> D * s" "D * s \<le> D * s div T * T + (T - 1)"
    using assms div_mult_mod_eq [of "D * s" T] mod_less_divisor [OF assms, of "D * s"]
    by (simp, linarith)
  then show ?case
    using Cons.IH unfolding e list.map sum_list.Cons case_prod_conv snd_conv list.size add_mult_distrib
      add_mult_distrib2 mult_Suc by linarith
qed simp

lemma fee_shares_total:
  assumes "D \<le> 10 ^ 19" "\<And>d s. (d, s) \<in> set stakes \<Longrightarrow> s \<le> 10 ^ 19"
  shows "paid + (\<Sum>(d, s) \<leftarrow> stakes. D * s div T) \<le> u128_max \<Longrightarrow> \<exists>parts e. fee_shares D T stakes paid = Some (parts, e)"
  using assms(2)
proof (induction stakes arbitrary: paid)
  case (Cons e stakes)
  obtain d s where e: "e = (d, s)"
    by (cases e)
  have "D * s \<le> u128_max"
    using assms(1) Cons.prems(2) e by (intro supply_product) auto
  moreover have "paid + D * s div T \<le> u128_max"
    using Cons.prems(1) by (simp add: e)
  moreover have "paid + D * s div T + (\<Sum>(d, s) \<leftarrow> stakes. D * s div T) \<le> u128_max"
    using Cons.prems(1) by (simp add: e add.assoc)
  then obtain parts e' where "fee_shares D T stakes (paid + D * s div T) = Some (parts, e')"
    using Cons.IH Cons.prems(2) by (meson list.set_intros(2))
  ultimately show ?case
    by (simp add: e checked_fits Let_def)
qed simp

section \<open>Properties\<close>

text \<open>C35. The base-fee controller: for a parent within the block caps it never overflows and the next price stays
  between floor and ceiling and within an eighth of the parent's; when the gas or the bytes were over
  target the price strictly rises (or is at the ceiling), and when neither was it does not rise.\<close>

theorem base_fee_controller:
  assumes "gas_used u \<le> BLOCK_GAS_LIMIT" "usage_tx_bytes u \<le> max_block_tx_bytes epoch"
  shows "\<exists>f. next_base_fee v u epoch = Some f \<and>
    MIN_BASE_FEE_MILLISAT_PER_GAS \<le> f \<and> f \<le> MAX_BASE_FEE_MILLISAT_PER_GAS \<and>
    f \<le> clamp_base_fee v + clamp_base_fee v div 8 \<and> clamp_base_fee v \<le> f + clamp_base_fee v div 8 \<and>
    (if BLOCK_GAS_TARGET < gas_used u \<or> block_tx_bytes_target epoch < usage_tx_bytes u
     then clamp_base_fee v < f \<or> f = MAX_BASE_FEE_MILLISAT_PER_GAS else f \<le> clamp_base_fee v)"
proof -
  obtain used target where ax: "scarce_axis u (block_tx_bytes_target epoch) = (used, target)"
    by fastforce
  note over = scarce_axis_over [OF ax byte_target_half(2)]
  have range: "used \<le> 2 * target" "used \<le> BLOCK_GAS_LIMIT" "target \<le> BLOCK_GAS_LIMIT"
    using ax assms byte_target_half [of epoch] by (auto simp: scarce_axis_def fee_consts split: if_splits)
  consider "target < used" | "used < target" | "used = target"
    by linarith
  then show ?thesis
  proof cases
    case 1
    from next_base_fee_up [OF ax 1 range(1,2), of v] obtain delta where
      "0 < delta" "delta \<le> clamp_base_fee v div 8" "next_base_fee v u epoch = Some (clamp_base_fee (clamp_base_fee v + delta))"
      by blast
    then show ?thesis
      using clamp_step [OF refl, of delta v] clamp_range over(1) 1 by auto
  next
    case 2
    from next_base_fee_down [OF ax 2 range(3), of v] obtain delta where
      "delta \<le> clamp_base_fee v div 8" "next_base_fee v u epoch = Some (clamp_base_fee (clamp_base_fee v - delta))"
      by blast
    then show ?thesis
      using clamp_step [OF refl, of delta v] clamp_range over(1) 2 by auto
  next
    case 3
    then show ?thesis
      using ax over(1) clamp_range by (auto simp: next_base_fee_def Let_def)
  qed
qed

theorem base_fee_controller_witness:
  "\<exists>f. next_base_fee 1000 \<lparr> gas_used = 20000000, usage_tx_bytes = 524288 \<rparr> 900 = Some f \<and> 1000 < f \<and> f \<le> 1125"
proof -
  have c: "clamp_base_fee 1000 = 1000" "max_block_tx_bytes 900 = 524288" "block_tx_bytes_target 900 = 262144"
    by code_simp+
  have "next_base_fee 1000 \<lparr> gas_used = 20000000, usage_tx_bytes = 524288 \<rparr> 900 \<noteq> Some MAX_BASE_FEE_MILLISAT_PER_GAS"
    by code_simp
  then show ?thesis
    using base_fee_controller [of "\<lparr> gas_used = 20000000, usage_tx_bytes = 524288 \<rparr>" 900 1000]
    by (auto simp: c BLOCK_GAS_LIMIT_def)
qed

text \<open>What rounding leaves over is less than one unit per share.\<close>

lemma rounding_rest:
  fixes S D T n :: nat
  assumes "D * T \<le> S * T + n * (T - 1)" "0 < T" "0 < n"
  shows "D - S < n"
proof -
  have "n * (T - 1) < n * T"
    using assms(2,3) by simp
  moreover have "(D - S) * T \<le> n * (T - 1)"
    using assms(1) by (simp add: diff_mult_distrib)
  ultimately have "(D - S) * T < n * T"
    by linarith
  then show ?thesis
    by simp
qed

text \<open>Splitting the delegators' fees conserves them: the shares and the returned remainder add up to the amount,
  every delegator is listed once in the order given with its truncated pro-rata share, and the remainder
  is smaller than the number of delegators, or the whole amount when nothing can be shared.\<close>

theorem split_delegator_fees_conserves:
  assumes "delegators_sat \<le> TOTAL_SUPPLY_SAT" "sum_list (map snd stakes) \<le> TOTAL_SUPPLY_SAT"
  shows "\<exists>parts rest. split_delegator_fees stakes delegators_sat = Some (parts, rest) \<and>
    sum_list (map snd parts) + rest = delegators_sat \<and>
    parts = map (\<lambda>(d, s). (d, delegators_sat * s div sum_list (map snd stakes))) stakes \<and>
    (0 < sum_list (map snd stakes) \<longrightarrow> rest < max 1 (length stakes))"
proof -
  define T where "T = sum_list (map snd stakes)"
  let ?D = delegators_sat
  have small: "?D \<le> 10 ^ 19" "T \<le> 10 ^ 19"
    using assms by (simp_all add: fee_consts T_def)
  then have sum: "checked_sum u128_max (map snd stakes) = Some T"
    by (simp add: checked_sum_eq u128_max_def flip: T_def)
  show ?thesis
  proof (cases "T = 0 \<or> ?D = 0")
    case True
    then show ?thesis
      using sum by (auto simp: split_delegator_fees_def o_def case_prod_unfold simp flip: T_def)
  next
    case False
    define S where "S = (\<Sum>(d, s) \<leftarrow> stakes. ?D * s div T)"
    have T: "0 < T"
      using False by simp
    have bound: "S * T \<le> ?D * T" "?D * T \<le> S * T + length stakes * (T - 1)"
      using sum_shares_bound [OF T, of ?D stakes] by (simp_all add: S_def flip: T_def)
    then have le: "S \<le> ?D"
      using T by simp
    have each: "s \<le> 10 ^ 19" if "(d, s) \<in> set stakes" for d s
    proof -
      have "s \<in> set (map snd stakes)"
        using that by force
      then show ?thesis
        using member_le_sum_list [of s "map snd stakes"] small(2) by (simp flip: T_def)
    qed
    have "0 + S \<le> u128_max"
      using le small(1) by (simp add: u128_max_def)
    then have "\<exists>parts e. fee_shares ?D T stakes 0 = Some (parts, e)"
      by (intro fee_shares_total [OF small(1) each]) (assumption, simp add: S_def)
    then obtain parts e where p: "fee_shares ?D T stakes 0 = Some (parts, e)"
      by blast
    then have parts: "parts = map (\<lambda>(d, s). (d, ?D * s div T)) stakes" "e = S"
      using fee_shares_eq [OF p] by (simp_all add: S_def)
    have "0 < length stakes"
      using T by (cases stakes) (simp_all add: T_def)
    then have "?D - S < length stakes"
      by (rule rounding_rest [OF bound(2) T])
    moreover have "split_delegator_fees stakes ?D = Some (parts, ?D - S)"
      using sum False p parts(2) le by (simp add: split_delegator_fees_def checked_fits)
    moreover have "sum_list (map snd parts) = S"
      by (simp add: parts(1) S_def o_def case_prod_unfold)
    ultimately show ?thesis
      using le parts(1) by (simp flip: T_def)
  qed
qed

theorem split_delegator_fees_conserves_witness:
  "\<exists>parts rest. split_delegator_fees [(1, 3), (2, 3), (3, 1)] 100 = Some (parts, rest) \<and>
     sum_list (map snd parts) + rest = 100 \<and> map fst parts = [1, 2, 3] \<and> rest < 3"
  using split_delegator_fees_conserves [of 100 "[(1, 3), (2, 3), (3, 1)]"] by (auto simp: fee_consts)

end
