(* ===== verification/Delegation.thy ===== *)
theory Delegation
  imports Attestation Ordered_Map Rewards "HOL-Library.Product_Lexorder"
begin

text \<open>
  Delegated stake (\<^verbatim>\<open>bloch-pos-committee/src/delegation.rs\<close>): the epoch walk that warms
  delegations up and cools them down under the churn budget, the per-validator cap, and the
  concentration metrics read from the resolved registry.

  The parallel vectors \<^verbatim>\<open>queue\<close> and \<^verbatim>\<open>activated\<close> of the walk are one list
  of slots, a delegation with the satoshis of it that are active.  A result
  \<^term>\<open>None\<close> is an overflow panic.
\<close>

section \<open>Constants and data\<close>

definition WARMUP_RATE_BPS :: u128 where
  "WARMUP_RATE_BPS = 25"

definition delegation_MIN_DELEGATION_SAT :: u128 where
  "delegation_MIN_DELEGATION_SAT = 10 * SAT_PER_BLOCH"

definition MIN_CHURN_SAT :: u128 where
  "MIN_CHURN_SAT = 500000 * SAT_PER_BLOCH"

definition MAX_VALIDATOR_STAKE_BPS :: u128 where
  "MAX_VALIDATOR_STAKE_BPS = 100"

definition CAP_FIXPOINT_ROUNDS :: u32 where
  "CAP_FIXPOINT_ROUNDS = 32"

definition COOLDOWN_EPOCHS :: u64 where
  "COOLDOWN_EPOCHS = 32"

record delegation =
  delegator :: u32
  validator :: u32
  amount_sat :: u128
  requested_epoch :: u64
  deactivate_epoch :: "u64 option"
  eligible :: bool

type_synonym queue_key = "u64 \<times> u32 \<times> u32 \<times> u128"

definition queue_key :: "delegation \<Rightarrow> queue_key" where
  "queue_key d = (requested_epoch d, validator d, delegator d, amount_sat d)"

datatype stake_state = Activating | Active | Deactivating | Inactive

record registry =
  registry_epoch :: u64
  stakes :: "(u32, u128) btree_map"
  total_active :: u128
  admitted :: "queue_key list"
  activated :: "(queue_key \<times> u128) list"

section \<open>The epoch walk\<close>

type_synonym stake_slot = "delegation \<times> u128"

record walk =
  walk_active :: "(u32, u128) btree_map"
  walk_total :: u128
  walk_slots :: "stake_slot list"

definition epoch_budget :: "u64 \<Rightarrow> u128 \<Rightarrow> u128 option" where
  "epoch_budget e acc =
     (if e = 0 then Some u128_max
      else do {
        p \<leftarrow> checked_mul u128_max acc WARMUP_RATE_BPS;
        Some (if p div 10000 > MIN_CHURN_SAT then p div 10000 else MIN_CHURN_SAT)
      })"

text \<open>One slot of the activation loop; the loop state is the budget used, the total and the stake
  by validator.\<close>

type_synonym pass_state = "u128 \<times> u128 \<times> (u32, u128) btree_map"

fun activate_one :: "u64 \<Rightarrow> u128 \<Rightarrow> pass_state \<Rightarrow> stake_slot \<Rightarrow> (pass_state \<times> u128) option" where
  "activate_one e budget (used, acc, m) (d, a) = (
     if requested_epoch d > e \<or> (case deactivate_epoch d of None \<Rightarrow> False | Some de \<Rightarrow> de \<le> e)
     then Some ((used, acc, m), a)
     else do {
       remaining \<leftarrow> checked_sub (amount_sat d) a;
       if remaining = 0 \<or> used \<ge> budget then Some ((used, acc, m), a)
       else do {
         let taken = min remaining (budget - used);
         used' \<leftarrow> checked_add u128_max used taken;
         a' \<leftarrow> checked_add u128_max a taken;
         acc' \<leftarrow> checked_add u128_max acc taken;
         s \<leftarrow> checked_add u128_max (get_or 0 m (validator d)) taken;
         Some ((used', acc', om_insert (validator d) s m), a')
       }
     })"

fun release_one :: "u64 \<Rightarrow> u128 \<Rightarrow> pass_state \<Rightarrow> stake_slot \<Rightarrow> (pass_state \<times> u128) option" where
  "release_one e budget (released, acc, m) (d, a) =
     (case deactivate_epoch d of
       None \<Rightarrow> Some ((released, acc, m), a)
     | Some de \<Rightarrow>
         if de > e \<or> a = 0 \<or> released \<ge> budget then Some ((released, acc, m), a)
         else do {
           let give = min a (budget - released);
           released' \<leftarrow> checked_add u128_max released give;
           a' \<leftarrow> checked_sub a give;
           acc' \<leftarrow> checked_sub acc give;
           m' \<leftarrow> (case map_of m (validator d) of
               None \<Rightarrow> Some m
             | Some s \<Rightarrow> do {
                 s' \<leftarrow> checked_sub s give;
                 Some (if s' = 0 then om_remove (validator d) m else om_insert (validator d) s' m)
               });
           Some ((released', acc', m'), a')
         })"

fun slot_pass :: "(pass_state \<Rightarrow> stake_slot \<Rightarrow> (pass_state \<times> u128) option) \<Rightarrow> pass_state \<Rightarrow> stake_slot list
    \<Rightarrow> (pass_state \<times> stake_slot list) option" where
  "slot_pass f st [] = Some (st, [])"
| "slot_pass f st (x # xs) = do {
     (st', a) \<leftarrow> f st x;
     (st'', ys) \<leftarrow> slot_pass f st' xs;
     Some (st'', (fst x, a) # ys)
   }"

definition epoch_step :: "walk \<Rightarrow> u64 \<Rightarrow> walk option" where
  "epoch_step w e = do {
     budget \<leftarrow> epoch_budget e (walk_total w);
     ((used, acc, m), xs) \<leftarrow> slot_pass (activate_one e budget) (0, walk_total w, walk_active w) (walk_slots w);
     ((released, acc', m'), ys) \<leftarrow> slot_pass (release_one e budget) (0, acc, m) xs;
     Some \<lparr> walk_active = m', walk_total = acc', walk_slots = ys \<rparr>
   }"

fun walk_epochs :: "u64 list \<Rightarrow> walk \<Rightarrow> walk option" where
  "walk_epochs [] w = Some w"
| "walk_epochs (e # es) w = do { w' \<leftarrow> epoch_step w e; walk_epochs es w' }"

definition resolve_queue :: "delegation list \<Rightarrow> delegation list" where
  "resolve_queue ds = sort_key queue_key
     (filter (\<lambda>d. eligible d \<and> amount_sat d \<ge> delegation_MIN_DELEGATION_SAT) ds)"

definition start_walk :: "delegation list \<Rightarrow> walk" where
  "start_walk ds = \<lparr> walk_active = [], walk_total = 0, walk_slots = map (\<lambda>d. (d, 0)) (resolve_queue ds) \<rparr>"

definition registry_of :: "u64 \<Rightarrow> walk \<Rightarrow> registry" where
  "registry_of epoch w = \<lparr> registry_epoch = epoch, stakes = walk_active w, total_active = walk_total w,
     admitted = sort (map (\<lambda>(d, a). queue_key d) (filter (\<lambda>(d, a). a = amount_sat d) (walk_slots w))),
     activated = sort (map (\<lambda>(d, a). (queue_key d, a)) (filter (\<lambda>(d, a). a > 0) (walk_slots w))) \<rparr>"

definition resolve :: "delegation list \<Rightarrow> u64 \<Rightarrow> registry option" where
  "resolve ds epoch =
     (if resolve_queue ds = []
      then Some \<lparr> registry_epoch = epoch, stakes = [], total_active = 0, admitted = [], activated = [] \<rparr>
      else do {
        w \<leftarrow> walk_epochs [0..<Suc epoch] (start_walk ds);
        Some (registry_of epoch w)
      })"

section \<open>Reading the registry\<close>

fun cap_loop :: "nat \<Rightarrow> u128 list \<Rightarrow> u128 \<Rightarrow> u128 option" where
  "cap_loop 0 ss cap = Some cap"
| "cap_loop (Suc rounds) ss cap = do {
     capped_total \<leftarrow> checked_sum u128_max (map (\<lambda>s. if s > cap then cap else s) ss);
     p \<leftarrow> checked_mul u128_max capped_total MAX_VALIDATOR_STAKE_BPS;
     if p div 10000 = cap then Some cap else cap_loop rounds ss (p div 10000)
   }"

definition cap_sat :: "registry \<Rightarrow> u128 option" where
  "cap_sat r =
     (if total_active r = 0 then Some 0
      else do {
        p \<leftarrow> checked_mul u128_max (total_active r) MAX_VALIDATOR_STAKE_BPS;
        cap_loop CAP_FIXPOINT_ROUNDS (values_of (stakes r)) (p div 10000)
      })"

definition div_or_zero :: "u128 \<Rightarrow> u128 \<Rightarrow> u128" where
  "div_or_zero value divisor = (if divisor = 0 then 0 else value div divisor)"

definition saturating_sum :: "u128 list \<Rightarrow> u128" where
  "saturating_sum ss = foldl (saturating_add u128_max) 0 ss"

fun combined_cap_loop :: "nat \<Rightarrow> u128 list \<Rightarrow> u128 \<Rightarrow> u128" where
  "combined_cap_loop 0 ss cap = cap"
| "combined_cap_loop (Suc rounds) ss cap = (
     let capped_total = saturating_sum (map (\<lambda>s. if s > cap then cap else s) ss);
         next = div_or_zero (saturating_mul u128_max capped_total MAX_VALIDATOR_STAKE_BPS) 10000
     in if next = cap then cap else combined_cap_loop rounds ss next)"

definition combined_cap_sat :: "u128 list \<Rightarrow> u128" where
  "combined_cap_sat ss = (
     let n = length (filter (\<lambda>s. s > 0) ss) in
     if n = 0 then 0
     else
       let whole = saturating_sum ss;
           cap = combined_cap_loop CAP_FIXPOINT_ROUNDS ss
             (div_or_zero (saturating_mul u128_max whole MAX_VALIDATOR_STAKE_BPS) 10000);
           floor = div_or_zero whole n
       in if cap < floor then floor else cap)"

definition validators :: "registry \<Rightarrow> validator list option" where
  "validators r = do {
     cap \<leftarrow> cap_sat r;
     Some (map (\<lambda>(v, s).
       let capped = if cap > 0 \<and> s > cap then cap else s
       in \<lparr> index = v, effective_stake = (if capped > u64_max then u64_max else capped) \<rparr>) (stakes r))
   }"

definition validators_with_absolute_cap :: "registry \<Rightarrow> u128 \<Rightarrow> validator list" where
  "validators_with_absolute_cap r cap =
     map (\<lambda>(v, s). \<lparr> index = v, effective_stake = min (min s cap) u64_max \<rparr>) (stakes r)"

definition stake_of :: "registry \<Rightarrow> u32 \<Rightarrow> u128" where
  "stake_of r v = get_or 0 (stakes r) v"

definition top_share_bps :: "registry \<Rightarrow> u128 option" where
  "top_share_bps r =
     (if total_active r = 0 then Some 0
      else do {
        p \<leftarrow> checked_mul u128_max (foldr max (values_of (stakes r)) 0) 10000;
        Some (p div total_active r)
      })"

fun nakamoto_loop :: "u128 \<Rightarrow> u128 list \<Rightarrow> u128 \<Rightarrow> usize \<Rightarrow> usize option" where
  "nakamoto_loop threshold [] acc i = Some i"
| "nakamoto_loop threshold (s # ss) acc i = do {
     acc' \<leftarrow> checked_add u128_max acc s;
     if acc' > threshold then Some (i + 1) else nakamoto_loop threshold ss acc' (i + 1)
   }"

definition nakamoto_coefficient :: "registry \<Rightarrow> usize option" where
  "nakamoto_coefficient r =
     (if total_active r = 0 then Some 0
      else nakamoto_loop (total_active r div 3) (rev (sort (values_of (stakes r)))) 0 0)"

text \<open>\<open>binary_search_by_key\<close> on the sorted vector; where a key occurs twice the library leaves the
  choice open, and the first entry is taken here.\<close>

definition activated_sat :: "registry \<Rightarrow> delegation \<Rightarrow> u128" where
  "activated_sat r d = get_or 0 (activated r) (queue_key d)"

definition state_of :: "registry \<Rightarrow> delegation \<Rightarrow> stake_state option" where
  "state_of r d =
     (if \<not> eligible d \<or> amount_sat d < delegation_MIN_DELEGATION_SAT then Some Inactive
      else
        let waiting = (if queue_key d \<in> set (admitted r) then Active else Activating) in
        case deactivate_epoch d of
          None \<Rightarrow> Some waiting
        | Some de \<Rightarrow> do {
            until \<leftarrow> checked_add u64_max de COOLDOWN_EPOCHS;
            Some (if registry_epoch r \<ge> until then Inactive
                  else if registry_epoch r \<ge> de then Deactivating else waiting)
          })"

fun apply_slash :: "delegation list \<Rightarrow> u32 \<Rightarrow> u128 \<Rightarrow> u128 list option" where
  "apply_slash [] v penalty_bps = Some []"
| "apply_slash (d # ds) v penalty_bps = do {
     loss \<leftarrow> (if validator d = v \<and> eligible d
             then do { p \<leftarrow> checked_mul u128_max (amount_sat d) (min penalty_bps 10000); Some (p div 10000) }
             else Some 0);
     rest \<leftarrow> apply_slash ds v penalty_bps;
     Some (loss # rest)
   }"

section \<open>Bookkeeping of the walk\<close>

text \<open>The stake of a validator is the sum of the active parts of its slots; the running total and
  the stake map are determined by the slots.\<close>

definition slot_stake :: "stake_slot list \<Rightarrow> u32 \<Rightarrow> nat" where
  "slot_stake xs v = (\<Sum>(d, a) \<leftarrow> xs. if validator d = v then a else 0)"

definition slot_total :: "stake_slot list \<Rightarrow> nat" where
  "slot_total xs = sum_list (map snd xs)"

definition stake_map_ok :: "stake_slot list \<Rightarrow> (u32, u128) btree_map \<Rightarrow> bool" where
  "stake_map_ok xs m = (om_wf m \<and> (\<forall>v. map_of m v = (if slot_stake xs v = 0 then None else Some (slot_stake xs v))))"

definition slots_ok :: "stake_slot list \<Rightarrow> bool" where
  "slots_ok xs = list_all (\<lambda>(d, a). a \<le> amount_sat d) xs"

lemma slot_stake_simps [simp]:
  "slot_stake [] v = 0"
  "slot_stake ((d, a) # xs) v = (if validator d = v then a else 0) + slot_stake xs v"
  "slot_stake (xs @ ys) v = slot_stake xs v + slot_stake ys v"
  by (simp_all add: slot_stake_def)

lemma slot_total_simps [simp]:
  "slot_total [] = 0" "slot_total ((d, a) # xs) = a + slot_total xs"
  "slot_total (xs @ ys) = slot_total xs + slot_total ys"
  by (simp_all add: slot_total_def)

lemma slots_ok_simps [simp]:
  "slots_ok []" "slots_ok ((d, a) # xs) \<longleftrightarrow> a \<le> amount_sat d \<and> slots_ok xs"
  "slots_ok (xs @ ys) \<longleftrightarrow> slots_ok xs \<and> slots_ok ys"
  by (simp_all add: slots_ok_def)

lemma slot_stake_le_total: "slot_stake xs v \<le> slot_total xs"
  by (induction xs) auto

lemma slot_total_le_amounts: "slots_ok xs \<Longrightarrow> slot_total xs \<le> sum_list (map (amount_sat \<circ> fst) xs)"
  by (induction xs) auto

lemma get_or_stake: "stake_map_ok xs m \<Longrightarrow> get_or 0 m v = slot_stake xs v"
  by (simp add: stake_map_ok_def get_or_def)

lemma stake_map_raise:
  assumes "stake_map_ok (pre @ (d, a) # post) m" "0 < t"
  shows "stake_map_ok (pre @ (d, a + t) # post) (om_insert (validator d) (slot_stake (pre @ (d, a) # post) (validator d) + t) m)"
  using assms by (auto simp: stake_map_ok_def om_wf_insert om_insert_lookup)

lemma stake_map_lower:
  assumes "stake_map_ok (pre @ (d, a) # post) m" "t \<le> a"
    and "s = slot_stake (pre @ (d, a) # post) (validator d) - t"
  shows "stake_map_ok (pre @ (d, a - t) # post)
    (if s = 0 then om_remove (validator d) m else om_insert (validator d) s m)"
  using assms by (auto simp: stake_map_ok_def om_wf_insert om.wf_del om_insert_lookup om_remove_lookup)

text \<open>The budgets bound what moves: the part used so far is what the total has grown or shrunk by.\<close>

lemma activate_one_ok:
  assumes "stake_map_ok (pre @ (d, a) # post) m" "acc = slot_total (pre @ (d, a) # post)"
    and "a \<le> amount_sat d" "slot_total pre + amount_sat d + slot_total post \<le> u128_max"
    and "used \<le> budget" "budget \<le> u128_max"
  shows "\<exists>t m'. activate_one e budget (used, acc, m) (d, a) = Some ((used + t, acc + t, m'), a + t) \<and>
    stake_map_ok (pre @ (d, a + t) # post) m' \<and> a + t \<le> amount_sat d \<and> used + t \<le> budget"
proof (cases "e < requested_epoch d \<or> (case deactivate_epoch d of None \<Rightarrow> False | Some de \<Rightarrow> de \<le> e)
    \<or> amount_sat d - a = 0 \<or> budget \<le> used")
  case True
  then have "activate_one e budget (used, acc, m) (d, a) = Some ((used, acc, m), a)"
    using assms(3) by (auto simp: checked_fits)
  then show ?thesis
    using assms by (intro exI [of _ 0] exI [of _ m]) simp
next
  case False
  define t where "t = min (amount_sat d - a) (budget - used)"
  have t: "0 < t" "a + t \<le> amount_sat d" "used + t \<le> budget"
    using False assms(3,5) by (auto simp: t_def)
  have "slot_stake (pre @ (d, a) # post) (validator d) + t \<le> u128_max"
    using t(2) assms(4) slot_stake_le_total [of "pre @ (d, a) # post" "validator d"] by simp
  moreover have "acc + t \<le> u128_max" "a + t \<le> u128_max" "used + t \<le> u128_max"
    using t assms(2,4,6) by simp_all
  ultimately have "activate_one e budget (used, acc, m) (d, a) = Some ((used + t, acc + t,
      om_insert (validator d) (slot_stake (pre @ (d, a) # post) (validator d) + t) m), a + t)"
    using False assms(3) get_or_stake [OF assms(1)] by (simp add: checked_fits flip: t_def)
  then show ?thesis
    using t stake_map_raise [OF assms(1) t(1)] by blast
qed

lemma release_one_ok:
  assumes "stake_map_ok (pre @ (d, a) # post) m" "acc = slot_total (pre @ (d, a) # post)"
    and "released \<le> budget" "budget \<le> u128_max"
  shows "\<exists>t m'. release_one e budget (released, acc, m) (d, a) = Some ((released + t, acc - t, m'), a - t) \<and>
    stake_map_ok (pre @ (d, a - t) # post) m' \<and> t \<le> a \<and> released + t \<le> budget \<and>
    (t < a \<longrightarrow> deactivate_epoch d = None \<or> e < the (deactivate_epoch d) \<or> released + t = budget)"
proof (cases "deactivate_epoch d = None \<or> e < the (deactivate_epoch d) \<or> a = 0 \<or> budget \<le> released")
  case True
  then have "release_one e budget (released, acc, m) (d, a) = Some ((released, acc, m), a)"
    by (auto split: option.splits)
  then show ?thesis
    using assms True by (intro exI [of _ 0] exI [of _ m]) auto
next
  case False
  then obtain de where de: "deactivate_epoch d = Some de" "\<not> e < de"
    by auto
  define t where "t = min a (budget - released)"
  define s where "s = slot_stake (pre @ (d, a) # post) (validator d)"
  have t: "0 < t" "t \<le> a" "released + t \<le> budget" "t < a \<longrightarrow> released + t = budget"
    using False assms(3) by (auto simp: t_def)
  have s: "map_of m (validator d) = Some s" "t \<le> s"
    using assms(1) t(1,2) by (auto simp: stake_map_ok_def s_def)
  have "release_one e budget (released, acc, m) (d, a) = Some ((released + t, acc - t,
      if s - t = 0 then om_remove (validator d) m else om_insert (validator d) (s - t) m), a - t)"
    using False de s t assms(2,4) by (simp add: checked_fits flip: t_def)
  moreover have "stake_map_ok (pre @ (d, a - t) # post)
      (if s - t = 0 then om_remove (validator d) m else om_insert (validator d) (s - t) m)"
    by (rule stake_map_lower [OF assms(1) t(2)]) (simp add: s_def)
  ultimately show ?thesis
    using t by blast
qed

declare activate_one.simps [simp del] release_one.simps [simp del]

abbreviation amounts :: "stake_slot list \<Rightarrow> nat" where
  "amounts xs \<equiv> sum_list (map (amount_sat \<circ> fst) xs)"

lemma activate_pass_ok:
  assumes "stake_map_ok (pre @ xs) m" "acc = slot_total (pre @ xs)" "slots_ok xs"
    and "slot_total pre + amounts xs \<le> u128_max" "used \<le> budget" "budget \<le> u128_max"
  shows "\<exists>t m' ys. slot_pass (activate_one e budget) (used, acc, m) xs = Some ((used + t, acc + t, m'), ys) \<and>
    stake_map_ok (pre @ ys) m' \<and> slot_total ys = slot_total xs + t \<and> slots_ok ys \<and> map fst ys = map fst xs \<and>
    used + t \<le> budget"
  using assms
proof (induction xs arbitrary: pre used acc m)
  case Nil
  then show ?case
    by (intro exI [of _ 0] exI [of _ m] exI [of _ "[]"]) simp
next
  case (Cons x xs)
  obtain d a where x: "x = (d, a)"
    by (cases x)
  have "slot_total xs \<le> amounts xs"
    using Cons.prems(3) by (intro slot_total_le_amounts) (simp add: x)
  then have "slot_total pre + amount_sat d + slot_total xs \<le> u128_max"
    using Cons.prems(4) by (simp add: x o_def)
  then obtain t m' where one: "activate_one e budget (used, acc, m) (d, a) = Some ((used + t, acc + t, m'), a + t)"
      "stake_map_ok (pre @ (d, a + t) # xs) m'" "a + t \<le> amount_sat d" "used + t \<le> budget"
    using activate_one_ok [of pre d a xs m acc used budget e] Cons.prems by (auto simp: x)
  have "\<exists>t' m'' ys. slot_pass (activate_one e budget) (used + t, acc + t, m') xs
        = Some ((used + t + t', acc + t + t', m''), ys) \<and>
      stake_map_ok ((pre @ [(d, a + t)]) @ ys) m'' \<and> slot_total ys = slot_total xs + t' \<and> slots_ok ys \<and>
      map fst ys = map fst xs \<and> used + t + t' \<le> budget"
    using Cons.prems one by (intro Cons.IH) (simp_all add: x)
  then obtain t' m'' ys where rest: "slot_pass (activate_one e budget) (used + t, acc + t, m') xs
        = Some ((used + t + t', acc + t + t', m''), ys)"
      "stake_map_ok ((pre @ [(d, a + t)]) @ ys) m''" "slot_total ys = slot_total xs + t'" "slots_ok ys"
      "map fst ys = map fst xs" "used + t + t' \<le> budget"
    by blast
  then show ?case
    using one by (intro exI [of _ "t + t'"] exI [of _ m''] exI [of _ "(d, a + t) # ys"]) (simp add: x add.assoc)
qed

text \<open>A release pass that did not use up its budget has emptied every slot that was due.\<close>

definition drained :: "u64 \<Rightarrow> stake_slot list \<Rightarrow> bool" where
  "drained e xs = list_all (\<lambda>(d, a). case deactivate_epoch d of None \<Rightarrow> True | Some de \<Rightarrow> de \<le> e \<longrightarrow> a = 0) xs"

lemma drained_simps [simp]:
  "drained e []"
  "drained e ((d, a) # xs) \<longleftrightarrow> (deactivate_epoch d = None \<or> e < the (deactivate_epoch d) \<or> a = 0) \<and> drained e xs"
  by (auto simp: drained_def split: option.splits)

lemma release_pass_ok:
  assumes "stake_map_ok (pre @ xs) m" "acc = slot_total (pre @ xs)" "slots_ok xs"
    and "released \<le> budget" "budget \<le> u128_max"
  shows "\<exists>t m' ys. slot_pass (release_one e budget) (released, acc, m) xs = Some ((released + t, acc - t, m'), ys) \<and>
    stake_map_ok (pre @ ys) m' \<and> slot_total ys + t = slot_total xs \<and> slots_ok ys \<and> map fst ys = map fst xs \<and>
    released + t \<le> budget \<and> (released + t < budget \<longrightarrow> drained e ys)"
  using assms
proof (induction xs arbitrary: pre released acc m)
  case Nil
  then show ?case
    by (intro exI [of _ 0] exI [of _ m] exI [of _ "[]"]) simp
next
  case (Cons x xs)
  obtain d a where x: "x = (d, a)"
    by (cases x)
  obtain t m' where one: "release_one e budget (released, acc, m) (d, a) = Some ((released + t, acc - t, m'), a - t)"
      "stake_map_ok (pre @ (d, a - t) # xs) m'" "t \<le> a" "released + t \<le> budget"
      "t < a \<longrightarrow> deactivate_epoch d = None \<or> e < the (deactivate_epoch d) \<or> released + t = budget"
    using release_one_ok [of pre d a xs m acc released budget e] Cons.prems by (auto simp: x)
  have "\<exists>t' m'' ys. slot_pass (release_one e budget) (released + t, acc - t, m') xs
        = Some ((released + t + t', acc - t - t', m''), ys) \<and>
      stake_map_ok ((pre @ [(d, a - t)]) @ ys) m'' \<and> slot_total ys + t' = slot_total xs \<and> slots_ok ys \<and>
      map fst ys = map fst xs \<and> released + t + t' \<le> budget \<and> (released + t + t' < budget \<longrightarrow> drained e ys)"
    using Cons.prems one(1-4) by (intro Cons.IH) (simp_all add: x)
  then obtain t' m'' ys where rest: "slot_pass (release_one e budget) (released + t, acc - t, m') xs
        = Some ((released + t + t', acc - t - t', m''), ys)"
      "stake_map_ok ((pre @ [(d, a - t)]) @ ys) m''" "slot_total ys + t' = slot_total xs" "slots_ok ys"
      "map fst ys = map fst xs" "released + t + t' \<le> budget" "released + t + t' < budget \<longrightarrow> drained e ys"
    by blast
  have "drained e ((d, a - t) # ys)" if "released + (t + t') < budget"
    using that rest(6,7) one(3,5) by auto
  moreover have "a - t \<le> amount_sat d"
    using Cons.prems(3) by (auto simp: x)
  ultimately show ?case
    using one(1,3) rest Cons.prems(3)
    by (intro exI [of _ "t + t'"] exI [of _ m''] exI [of _ "(d, a - t) # ys"]) (simp add: x add.assoc diff_diff_left)
qed

section \<open>One epoch\<close>

definition churn_limit :: "u64 \<Rightarrow> nat \<Rightarrow> nat" where
  "churn_limit e whole = (if e = 0 then u128_max else max (whole * 25 div 10000) MIN_CHURN_SAT)"

definition walk_ok :: "walk \<Rightarrow> bool" where
  "walk_ok w = (stake_map_ok (walk_slots w) (walk_active w) \<and> walk_total w = slot_total (walk_slots w) \<and>
     slots_ok (walk_slots w) \<and> amounts (walk_slots w) * 25 \<le> u128_max)"

lemma churn_limit_le: "whole * 25 \<le> u128_max \<Longrightarrow> churn_limit e whole \<le> u128_max"
  by (auto simp: churn_limit_def MIN_CHURN_SAT_def SAT_PER_BLOCH_def u128_max_def)

lemma epoch_budget_eq: "whole * 25 \<le> u128_max \<Longrightarrow> epoch_budget e whole = Some (churn_limit e whole)"
  by (simp add: epoch_budget_def churn_limit_def WARMUP_RATE_BPS_def checked_fits max_def)

lemma walk_ok_total: "walk_ok w \<Longrightarrow> walk_total w * 25 \<le> u128_max"
  using slot_total_le_amounts [of "walk_slots w"] by (simp add: walk_ok_def)

lemma epoch_step_ok:
  assumes "walk_ok w"
  shows "\<exists>w' up down. epoch_step w e = Some w' \<and> walk_ok w' \<and> map fst (walk_slots w') = map fst (walk_slots w) \<and>
    walk_total w' + down = walk_total w + up \<and>
    up \<le> churn_limit e (walk_total w) \<and> down \<le> churn_limit e (walk_total w) \<and>
    (down < churn_limit e (walk_total w) \<longrightarrow> drained e (walk_slots w'))"
proof -
  define B where "B = churn_limit e (walk_total w)"
  have w: "stake_map_ok ([] @ walk_slots w) (walk_active w)" "walk_total w = slot_total ([] @ walk_slots w)"
      "slots_ok (walk_slots w)" "slot_total [] + amounts (walk_slots w) \<le> u128_max"
    using assms by (simp_all add: walk_ok_def)
  have B: "B \<le> u128_max" "epoch_budget e (walk_total w) = Some B"
    using walk_ok_total [OF assms] by (simp_all add: B_def churn_limit_le epoch_budget_eq)
  obtain t m xs where up: "slot_pass (activate_one e B) (0, walk_total w, walk_active w) (walk_slots w)
        = Some ((0 + t, walk_total w + t, m), xs)"
      "stake_map_ok ([] @ xs) m" "slot_total xs = slot_total (walk_slots w) + t" "slots_ok xs"
      "map fst xs = map fst (walk_slots w)" "0 + t \<le> B"
    using activate_pass_ok [OF w le0 B(1), of e] by blast
  have acc: "walk_total w + t = slot_total ([] @ xs)"
    using up(3) w(2) by simp
  obtain t' m' ys where down: "slot_pass (release_one e B) (0, walk_total w + t, m) xs
        = Some ((0 + t', walk_total w + t - t', m'), ys)"
      "stake_map_ok ([] @ ys) m'" "slot_total ys + t' = slot_total xs" "slots_ok ys"
      "map fst ys = map fst xs" "0 + t' \<le> B" "0 + t' < B \<longrightarrow> drained e ys"
    using release_pass_ok [OF up(2) acc up(4) le0 B(1), of e] by blast
  define w' where "w' = \<lparr> walk_active = m', walk_total = walk_total w + t - t', walk_slots = ys \<rparr>"
  have "map (amount_sat \<circ> fst) ys = map (amount_sat \<circ> fst) (walk_slots w)"
    using down(5) up(5) by (metis map_map)
  then have "walk_ok w'"
    using assms down acc by (simp add: walk_ok_def w'_def)
  moreover have "epoch_step w e = Some w'"
    using B(2) up(1) down(1) by (simp add: epoch_step_def w'_def)
  moreover have "walk_total w' + t' = walk_total w + t"
    using down(3) acc by (simp add: w'_def)
  ultimately show ?thesis
    using up(5,6) down(5-7) unfolding B_def [symmetric]
    by (intro exI [of _ w'] exI [of _ t] exI [of _ t']) (simp add: w'_def)
qed

lemma walk_epochs_ok:
  assumes "walk_ok w"
  shows "\<exists>w'. walk_epochs es w = Some w' \<and> walk_ok w' \<and> map fst (walk_slots w') = map fst (walk_slots w)"
  using assms
proof (induction es arbitrary: w)
  case (Cons e es)
  obtain w1 where "epoch_step w e = Some w1" "walk_ok w1" "map fst (walk_slots w1) = map fst (walk_slots w)"
    using epoch_step_ok [OF Cons.prems] by blast
  then show ?case
    using Cons.IH [of w1] by auto
qed simp

lemma walk_epochs_append: "walk_epochs (es @ es') w = do { w' \<leftarrow> walk_epochs es w; walk_epochs es' w' }"
  by (induction es arbitrary: w) (simp_all split: bind_split)

lemma queue_amounts_le: "sum_list (map amount_sat (resolve_queue ds)) \<le> sum_list (map amount_sat ds)"
  unfolding resolve_queue_def
  by (subst sum_list_perm [of _ "map amount_sat (filter (\<lambda>d. eligible d \<and> delegation_MIN_DELEGATION_SAT \<le> amount_sat d) ds)"])
    (simp_all add: sum_list_filter_le)

lemma start_walk_ok:
  assumes "sum_list (map amount_sat ds) * 25 \<le> u128_max"
  shows "walk_ok (start_walk ds)" "map fst (walk_slots (start_walk ds)) = resolve_queue ds"
proof -
  note queue_amounts_le [of ds]
  moreover have "slot_total (map (\<lambda>d. (d, 0)) q) = 0" "slot_stake (map (\<lambda>d. (d, 0)) q) v = 0"
      "slots_ok (map (\<lambda>d. (d, 0)) q)" for q v
    by (induction q) auto
  ultimately show "walk_ok (start_walk ds)"
    using assms by (simp add: start_walk_def walk_ok_def stake_map_ok_def om.wf_empty o_def)
qed (simp add: start_walk_def o_def)

section \<open>The resolved registry\<close>

text \<open>The early return on an empty queue gives what the walk would have given.\<close>

lemma walk_epochs_idle: "walk_epochs es \<lparr> walk_active = [], walk_total = 0, walk_slots = [] \<rparr>
    = Some \<lparr> walk_active = [], walk_total = 0, walk_slots = [] \<rparr>"
  by (induction es) (simp_all add: epoch_step_def epoch_budget_eq)

lemma resolve_shortcut:
  "resolve ds epoch = do { w \<leftarrow> walk_epochs [0..<Suc epoch] (start_walk ds); Some (registry_of epoch w) }"
proof (cases "resolve_queue ds = []")
  case True
  then have "start_walk ds = \<lparr> walk_active = [], walk_total = 0, walk_slots = [] \<rparr>"
    by (simp add: start_walk_def)
  then show ?thesis
    using True walk_epochs_idle [of "[0..<Suc epoch]"] by (simp add: resolve_def registry_of_def del: upt_Suc)
qed (simp add: resolve_def del: upt_Suc)

lemma resolve_walk:
  assumes "sum_list (map amount_sat ds) * 25 \<le> u128_max"
  obtains w where "walk_epochs [0..<Suc epoch] (start_walk ds) = Some w" "walk_ok w"
    and "map fst (walk_slots w) = resolve_queue ds" "resolve ds epoch = Some (registry_of epoch w)"
proof -
  obtain w where "walk_epochs [0..<Suc epoch] (start_walk ds) = Some w" "walk_ok w"
      "map fst (walk_slots w) = resolve_queue ds"
    using walk_epochs_ok [OF start_walk_ok(1) [OF assms]] start_walk_ok(2) [OF assms] by metis
  then show thesis
    using that resolve_shortcut by simp
qed

lemma resolve_walk_Suc:
  assumes "sum_list (map amount_sat ds) * 25 \<le> u128_max"
    and "walk_epochs [0..<Suc epoch] (start_walk ds) = Some w" "epoch_step w (Suc epoch) = Some w'"
  shows "resolve ds (Suc epoch) = Some (registry_of (Suc epoch) w')"
proof -
  have "[0..<Suc (Suc epoch)] = [0..<Suc epoch] @ [Suc epoch]"
    by simp
  then show ?thesis
    unfolding resolve_shortcut using assms by (simp only: walk_epochs_append) simp
qed

lemma sum_slot_stakes:
  assumes "finite S" "\<And>d a. (d, a) \<in> set xs \<Longrightarrow> 0 < a \<Longrightarrow> validator d \<in> S"
  shows "(\<Sum>v \<in> S. slot_stake xs v) = slot_total xs"
  using assms(2)
proof (induction xs)
  case (Cons x xs)
  obtain d a where x: "x = (d, a)"
    by (cases x)
  have "(\<Sum>v \<in> S. if validator d = v then a else 0) = a"
    using Cons.prems [of d a] assms(1) by (cases "a = 0") (simp_all add: x)
  moreover have "sum (slot_stake xs) S = slot_total xs"
    using Cons.prems by (intro Cons.IH) (meson list.set_intros(2))
  ultimately show ?case
    by (simp add: x sum.distrib)
qed simp

lemma slot_stake_pos: "(d, a) \<in> set xs \<Longrightarrow> 0 < a \<Longrightarrow> 0 < slot_stake xs (validator d)"
  by (induction xs) auto

lemma stake_map_sum:
  assumes "stake_map_ok xs m"
  shows "sum_list (values_of m) = slot_total xs"
proof -
  have "validator d \<in> set (keys_of m)" if "(d, a) \<in> set xs" "0 < a" for d a
    using assms slot_stake_pos [OF that] map_of_key [of m "validator d"] by (simp add: stake_map_ok_def)
  then have "(\<Sum>v \<in> set (keys_of m). slot_stake xs v) = slot_total xs"
    by (intro sum_slot_stakes) auto
  then show ?thesis
    using sum_values_distinct [of m] om.wf_distinct [of m] assms get_or_stake [OF assms]
    by (simp add: stake_map_ok_def)
qed

lemma stake_map_nonzero:
  assumes "stake_map_ok xs m"
  shows "0 \<notin> set (values_of m)"
proof
  assume "0 \<in> set (values_of m)"
  then obtain v where "(v, 0) \<in> set m"
    by auto
  moreover have "distinct (keys_of m)"
    using assms om.wf_distinct by (auto simp: stake_map_ok_def)
  ultimately have "map_of m v = Some 0"
    by simp
  then show False
    using assms by (simp add: stake_map_ok_def split: if_splits)
qed

text \<open>What the registry lists of the slots.\<close>

lemma registry_of_simps [simp]:
  "registry_epoch (registry_of e w) = e" "stakes (registry_of e w) = walk_active w"
  "total_active (registry_of e w) = walk_total w"
  by (simp_all add: registry_of_def)

lemma activated_mset: "mset (activated (registry_of e w))
    = mset (map (\<lambda>(d, a). (queue_key d, a)) (filter (\<lambda>(d, a). a > 0) (walk_slots w)))"
  by (simp add: registry_of_def)

lemma drop_zero_slots:
  fixes f :: "queue_key \<Rightarrow> nat \<Rightarrow> nat"
  assumes "\<And>k. f k 0 = 0"
  shows "(\<Sum>(d, a) \<leftarrow> filter (\<lambda>(d, a). a > 0) xs. f (queue_key d) a) = (\<Sum>(d, a) \<leftarrow> xs. f (queue_key d) a)"
  by (induction xs) (auto simp: assms simp del: split_paired_All)

lemma sum_activated:
  fixes f :: "queue_key \<Rightarrow> nat \<Rightarrow> nat"
  assumes "\<And>k. f k 0 = 0"
  shows "(\<Sum>(k, a) \<leftarrow> activated (registry_of e w). f k a) = (\<Sum>(d, a) \<leftarrow> walk_slots w. f (queue_key d) a)"
proof -
  have "mset (map (\<lambda>(k, a). f k a) (activated (registry_of e w)))
      = mset (map (\<lambda>(d, a). f (queue_key d) a) (filter (\<lambda>(d, a). a > 0) (walk_slots w)))"
    by (simp add: activated_mset image_mset.compositionality o_def case_prod_unfold)
  then have "(\<Sum>(k, a) \<leftarrow> activated (registry_of e w). f k a)
      = (\<Sum>(d, a) \<leftarrow> filter (\<lambda>(d, a). a > 0) (walk_slots w). f (queue_key d) a)"
    by (rule sum_list_perm)
  also have "\<dots> = (\<Sum>(d, a) \<leftarrow> walk_slots w. f (queue_key d) a)"
    by (rule drop_zero_slots) (rule assms)
  finally show ?thesis .
qed

text \<open>C36. The registry accounts for every satoshi: on delegations whose sum the 128-bit arithmetic can
  scale, resolving never panics; the stakes are sorted by validator without zero entries and add up to the total, the
  activated parts add up to the same total and, per validator, to its stake; and every activated
  part belongs to an eligible delegation of at least the minimum and does not exceed it.\<close>

theorem resolve_accounts:
  assumes "sum_list (map amount_sat ds) * 25 \<le> u128_max"
  shows "\<exists>r. resolve ds epoch = Some r \<and> om_wf (stakes r) \<and> 0 \<notin> set (values_of (stakes r)) \<and>
    sum_list (values_of (stakes r)) = total_active r \<and> sum_list (map snd (activated r)) = total_active r \<and>
    (\<forall>v. stake_of r v = (\<Sum>((_, v', _), a) \<leftarrow> activated r. if v' = v then a else 0)) \<and>
    (\<forall>(k, a) \<in> set (activated r). \<exists>d \<in> set ds. queue_key d = k \<and> eligible d \<and>
       delegation_MIN_DELEGATION_SAT \<le> amount_sat d \<and> 0 < a \<and> a \<le> amount_sat d)"
proof -
  obtain w where w: "walk_ok w" "map fst (walk_slots w) = resolve_queue ds" "resolve ds epoch = Some (registry_of epoch w)"
    using resolve_walk [OF assms] by metis
  define r where "r = registry_of epoch w"
  have ok: "stake_map_ok (walk_slots w) (walk_active w)" "walk_total w = slot_total (walk_slots w)" "slots_ok (walk_slots w)"
    using w(1) by (simp_all add: walk_ok_def)
  have A: "sum_list (map snd (activated r)) = total_active r"
    using sum_activated [of "\<lambda>_ a. a" epoch w] ok(2) by (simp add: r_def slot_total_def case_prod_unfold)
  have S: "stake_of r v = (\<Sum>((_, v', _), a) \<leftarrow> activated r. if v' = v then a else 0)" for v
    using sum_activated [of "\<lambda>(_, v', _) a. if v' = v then a else 0" epoch w] get_or_stake [OF ok(1), of v]
    by (simp add: stake_of_def r_def slot_stake_def queue_key_def case_prod_unfold if_distrib cong: if_cong)
  have D: "\<exists>d \<in> set ds. queue_key d = k \<and> eligible d \<and> delegation_MIN_DELEGATION_SAT \<le> amount_sat d \<and>
      0 < a \<and> a \<le> amount_sat d" if mem: "(k, a) \<in> set (activated r)" for k a
  proof -
    obtain d where d: "(d, a) \<in> set (walk_slots w)" "k = queue_key d" "0 < a"
      using mem by (auto simp: r_def registry_of_def)
    have "d \<in> set (map fst (walk_slots w))"
      using d(1) by force
    moreover have "a \<le> amount_sat d"
      using d(1) ok(3) by (auto simp: slots_ok_def list_all_iff)
    ultimately show ?thesis
      unfolding w(2)
      using d by (auto simp: resolve_queue_def)
  qed
  have N: "0 \<notin> set (values_of (stakes r))"
    using stake_map_nonzero [OF ok(1)] by (simp add: r_def)
  have V: "om_wf (stakes r)" "sum_list (values_of (stakes r)) = total_active r"
    using ok stake_map_sum [OF ok(1)] by (simp_all add: r_def stake_map_ok_def)
  show ?thesis
  proof (intro exI [of _ r] conjI allI)
    show "resolve ds epoch = Some r"
      using w(3) by (simp add: r_def)
  qed (use A S D N V in blast)+
qed

text \<open>Where every slot has asked to leave nothing activates, so an epoch releases its whole budget
  or empties the set.\<close>

lemma activate_pass_idle:
  assumes "\<And>d. d \<in> set (map fst xs) \<Longrightarrow> \<exists>de \<le> e. deactivate_epoch d = Some de"
  shows "slot_pass (activate_one e budget) st xs = Some (st, xs)"
  using assms
proof (induction xs)
  case (Cons x xs)
  obtain d a used acc m where x: "x = (d, a)" "st = (used, acc, m)"
    by (cases x, cases st)
  obtain de where "de \<le> e" "deactivate_epoch d = Some de"
    using Cons.prems [of d] by (auto simp: x)
  then have "activate_one e budget st x = Some (st, a)"
    by (simp add: x activate_one.simps)
  then show ?case
    using Cons by (simp add: x)
qed simp

lemma drained_total:
  assumes "\<And>d. d \<in> set (map fst xs) \<Longrightarrow> \<exists>de \<le> e. deactivate_epoch d = Some de" "drained e xs"
  shows "slot_total xs = 0"
  using assms
proof (induction xs)
  case (Cons x xs)
  obtain d a where x: "x = (d, a)"
    by (cases x)
  obtain de where "de \<le> e" "deactivate_epoch d = Some de"
    using Cons.prems(1) [of d] by (auto simp: x)
  then show ?case
    using Cons by (simp add: x)
qed simp

lemma draining_step:
  assumes "walk_ok w" "\<And>d. d \<in> set (map fst (walk_slots w)) \<Longrightarrow> \<exists>de \<le> Suc e. deactivate_epoch d = Some de"
  shows "\<exists>w'. epoch_step w (Suc e) = Some w' \<and> walk_total w' \<le> walk_total w - MIN_CHURN_SAT"
proof -
  define B where "B = churn_limit (Suc e) (walk_total w)"
  have B: "B \<le> u128_max" "epoch_budget (Suc e) (walk_total w) = Some B" "MIN_CHURN_SAT \<le> B"
    using walk_ok_total [OF assms(1)] by (simp_all add: B_def churn_limit_le epoch_budget_eq) (simp add: churn_limit_def)
  have w: "stake_map_ok ([] @ walk_slots w) (walk_active w)" "walk_total w = slot_total ([] @ walk_slots w)"
      "slots_ok (walk_slots w)"
    using assms(1) by (simp_all add: walk_ok_def)
  obtain t m ys where rel: "slot_pass (release_one (Suc e) B) (0, walk_total w, walk_active w) (walk_slots w)
        = Some ((0 + t, walk_total w - t, m), ys)"
      "slot_total ys + t = slot_total (walk_slots w)" "map fst ys = map fst (walk_slots w)"
      "0 + t \<le> B" "0 + t < B \<longrightarrow> drained (Suc e) ys"
    using release_pass_ok [OF w le0 B(1), of "Suc e"] by blast
  have "walk_total w - t \<le> walk_total w - MIN_CHURN_SAT"
  proof (cases "t < B")
    case True
    then have "slot_total ys = 0"
      using rel(3,5) assms(2) by (intro drained_total [of ys "Suc e"]) simp_all
    then show ?thesis
      using rel(2) w(2) by simp
  next
    case False
    then show ?thesis
      using B(3) by simp
  qed
  moreover have "epoch_step w (Suc e) = Some \<lparr> walk_active = m, walk_total = walk_total w - t, walk_slots = ys \<rparr>"
    using B(2) rel(1) activate_pass_idle [OF assms(2)] by (simp add: epoch_step_def)
  ultimately show ?thesis
    by simp
qed

definition sample_delegation :: "u32 \<Rightarrow> u32 \<Rightarrow> nat \<Rightarrow> u64 \<Rightarrow> u64 option \<Rightarrow> delegation" where
  "sample_delegation who v amount e de = \<lparr> delegator = who, validator = v, amount_sat = amount * SAT_PER_BLOCH,
     requested_epoch = e, deactivate_epoch = de, eligible = True \<rparr>"

lemmas sample_defs = sample_delegation_def SAT_PER_BLOCH_def u128_max_def

theorem resolve_accounts_witness:
  "\<exists>r. resolve [sample_delegation 1 7 1000000 1 None, sample_delegation 2 7 300000 0 None] 1 = Some r \<and>
    total_active r = 80000000000000 \<and> sum_list (map snd (activated r)) = 80000000000000"
proof -
  let ?ds = "[sample_delegation 1 7 1000000 1 None, sample_delegation 2 7 300000 0 None]"
  have "map_option total_active (resolve ?ds 1) = Some 80000000000000"
    by code_simp
  then show ?thesis
    using resolve_accounts [of ?ds 1] by (auto simp: sample_defs)
qed

text \<open>C16. The churn limit holds absolutely: from one epoch to the next the active total rises by at most, and
  falls by at most, the larger of 0.25 percent of the stake active before and the fixed floor.\<close>

theorem churn_is_limited:
  assumes "sum_list (map amount_sat ds) * 25 \<le> u128_max"
    and "resolve ds epoch = Some r" "resolve ds (Suc epoch) = Some r'"
  shows "total_active r' \<le> total_active r + max (total_active r * 25 div 10000) MIN_CHURN_SAT \<and>
    total_active r \<le> total_active r' + max (total_active r * 25 div 10000) MIN_CHURN_SAT"
proof -
  obtain w where w: "walk_epochs [0..<Suc epoch] (start_walk ds) = Some w" "walk_ok w"
      "resolve ds epoch = Some (registry_of epoch w)"
    using resolve_walk [OF assms(1)] by metis
  obtain w' up down where w': "epoch_step w (Suc epoch) = Some w'" "walk_total w' + down = walk_total w + up"
      "up \<le> churn_limit (Suc epoch) (walk_total w)" "down \<le> churn_limit (Suc epoch) (walk_total w)"
    using epoch_step_ok [OF w(2)] by metis
  have "r = registry_of epoch w" "r' = registry_of (Suc epoch) w'"
    using assms w(3) resolve_walk_Suc [OF assms(1) w(1) w'(1)] by simp_all
  then show ?thesis
    using w' unfolding churn_limit_def by auto
qed

theorem churn_is_limited_witness:
  "\<exists>r r'. resolve [sample_delegation 1 7 9000000 1 None] 1 = Some r \<and> resolve [sample_delegation 1 7 9000000 1 None] 2 = Some r'
    \<and> total_active r' \<le> total_active r + max (total_active r * 25 div 10000) MIN_CHURN_SAT"
proof -
  let ?ds = "[sample_delegation 1 7 9000000 1 None]"
  have fits: "sum_list (map amount_sat ?ds) * 25 \<le> u128_max"
    by (simp add: sample_defs)
  obtain r r' where "resolve ?ds 1 = Some r" "resolve ?ds (Suc 1) = Some r'"
    using resolve_walk [OF fits] by metis
  moreover from this have "total_active r' \<le> total_active r + max (total_active r * 25 div 10000) MIN_CHURN_SAT"
    using churn_is_limited [OF fits] by blast
  moreover have "Suc 1 = 2"
    by simp
  ultimately show ?thesis
    by metis
qed

text \<open>C37. A drain completes: once every delegation has asked to leave, the active total falls by at least the
  churn floor in every further epoch until it is zero.\<close>

theorem drain_completes:
  assumes "sum_list (map amount_sat ds) * 25 \<le> u128_max"
    and "\<forall>d \<in> set ds. \<exists>de \<le> epoch. deactivate_epoch d = Some de"
    and "resolve ds epoch = Some r"
  shows "\<exists>r'. resolve ds (epoch + n) = Some r' \<and> total_active r' \<le> total_active r - n * MIN_CHURN_SAT"
proof (induction n)
  case 0
  then show ?case
    using assms(3) by simp
next
  case (Suc n)
  let ?e = "epoch + n"
  obtain w where w: "walk_epochs [0..<Suc ?e] (start_walk ds) = Some w" "walk_ok w"
      "map fst (walk_slots w) = resolve_queue ds" "resolve ds ?e = Some (registry_of ?e w)"
    using resolve_walk [OF assms(1)] by metis
  have gone: "\<exists>de \<le> Suc ?e. deactivate_epoch d = Some de" if "d \<in> set (map fst (walk_slots w))" for d
    using that assms(2) unfolding w(3) resolve_queue_def by force
  obtain w' where "epoch_step w (Suc ?e) = Some w'" "walk_total w' \<le> walk_total w - MIN_CHURN_SAT"
    using draining_step [OF w(2) gone] by blast
  then show ?case
    using Suc w(4) resolve_walk_Suc [OF assms(1) w(1)] by (auto intro: order_trans diff_le_mono)
qed

theorem drain_completes_witness:
  "\<exists>r. resolve [sample_delegation 1 7 900000 0 (Some 3)] 5 = Some r \<and> total_active r = 0"
proof -
  let ?ds = "[sample_delegation 1 7 900000 0 (Some 3)]"
  have "map_option total_active (resolve ?ds 3) = Some 40000000000000"
    by code_simp
  then obtain r where r: "resolve ?ds 3 = Some r" "total_active r = 40000000000000"
    by auto
  have "\<exists>r'. resolve ?ds (3 + 2) = Some r' \<and> total_active r' \<le> total_active r - 2 * MIN_CHURN_SAT"
    by (rule drain_completes) (use r(1) in \<open>simp_all add: sample_defs\<close>)
  then show ?thesis
    using r(2) by (simp add: MIN_CHURN_SAT_def SAT_PER_BLOCH_def)
qed

text \<open>The result does not depend on the order in which a node holds the delegations, as long as two eligible
  records with the same queue key are the same record.\<close>

theorem resolve_order_free:
  assumes "mset ds = mset ds'"
    and "\<forall>d \<in> set ds. \<forall>d' \<in> set ds. queue_key d = queue_key d' \<longrightarrow> d = d'"
  shows "resolve ds epoch = resolve ds' epoch"
proof -
  let ?P = "\<lambda>d. eligible d \<and> amount_sat d \<ge> delegation_MIN_DELEGATION_SAT"
  have "inj_on queue_key (set (filter ?P ds))"
    using assms(2) by (auto simp: inj_on_def)
  moreover have "mset (filter ?P ds) = mset (sort_key queue_key (filter ?P ds'))"
    using assms(1) by simp
  ultimately have "resolve_queue ds = resolve_queue ds'"
    unfolding resolve_queue_def by (intro sort_key_inj_key_eq) simp_all
  then show ?thesis
    by (simp add: resolve_def start_walk_def)
qed

theorem resolve_order_free_witness:
  "resolve [sample_delegation 1 7 600000 1 None, sample_delegation 2 8 600000 1 None] 1
    = resolve [sample_delegation 2 8 600000 1 None, sample_delegation 1 7 600000 1 None] 1"
  by (rule resolve_order_free) (simp_all add: sample_defs queue_key_def)

text \<open>The queue key does not settle every tie: two records that differ in the deactivation epoch only resolve to
  different totals in the two orders.\<close>

theorem resolve_tie_order:
  "map_option total_active (resolve [sample_delegation 1 7 1000000 1 None, sample_delegation 1 7 1000000 1 (Some 2)] 2)
     = Some (1000000 * SAT_PER_BLOCH) \<and>
   map_option total_active (resolve [sample_delegation 1 7 1000000 1 (Some 2), sample_delegation 1 7 1000000 1 None] 2)
     = Some (500000 * SAT_PER_BLOCH)"
  by code_simp

text \<open>Two equal records share a queue key, so asking for each gives the part of one of them twice.\<close>

lemma activated_sat_twice:
  "let d = sample_delegation 1 7 1000000 1 None in
   case resolve [d, d] 1 of
     None \<Rightarrow> False
   | Some r \<Rightarrow> activated_sat r d + activated_sat r d = 2 * total_active r \<and> 0 < total_active r"
  by code_simp

section \<open>Concentration\<close>

text \<open>The largest members of a descending list outweigh every other choice of as many.\<close>

lemma take_shift:
  fixes xs :: "nat list"
  shows "sorted_wrt (\<ge>) (x # xs) \<Longrightarrow> sum_list (take j xs) \<le> sum_list (take j (x # xs))"
proof (induction xs arbitrary: x j)
  case (Cons y ys)
  show ?case
  proof (cases j)
    case (Suc i)
    have "sum_list (take i ys) \<le> sum_list (take i (y # ys))" "y \<le> x"
      using Cons by simp_all
    then show ?thesis
      using Suc by simp
  qed simp
qed simp

lemma take_descending:
  fixes xs :: "nat list"
  assumes "sorted_wrt (\<ge>) xs" "M \<subseteq># mset xs" "size M \<le> j"
  shows "sum_mset M \<le> sum_list (take j xs)"
  using assms
proof (induction xs arbitrary: M j)
  case (Cons x xs)
  show ?case
  proof (cases "x \<in># M")
    case True
    then obtain M' where M': "M = add_mset x M'"
      by (metis mset_add)
    then obtain i where j: "j = Suc i" "size M' \<le> i"
      using Cons.prems(3) by (cases j) auto
    have "sum_mset M' \<le> sum_list (take i xs)"
      using Cons.prems M' j by (intro Cons.IH) simp_all
    then show ?thesis
      using M' j by simp
  next
    case False
    have sub: "M \<subseteq># mset xs"
    proof (rule mset_subset_eqI)
      show "count M a \<le> count (mset xs) a" for a
        using mset_subset_eq_count [OF Cons.prems(2), of a] False by (cases "a = x") (auto simp: not_in_iff)
    qed
    then have le: "sum_mset M \<le> sum_list (take j xs)"
      using Cons.prems by (intro Cons.IH) simp_all
    have "sum_list (take j xs) \<le> sum_list (take j (x # xs))"
      using Cons.prems(1) by (rule take_shift)
    then show ?thesis
      using le by simp
  qed
qed simp

lemma nakamoto_loop_ok:
  assumes "acc \<le> th" "th < acc + sum_list ss" "acc + sum_list ss \<le> u128_max"
  shows "\<exists>k. nakamoto_loop th ss acc i = Some (i + k) \<and> k \<le> length ss \<and>
    th < acc + sum_list (take k ss) \<and> (\<forall>j < k. acc + sum_list (take j ss) \<le> th)"
  using assms
proof (induction ss arbitrary: acc i)
  case (Cons s ss)
  show ?case
  proof (cases "th < acc + s")
    case True
    then show ?thesis
      using Cons.prems by (intro exI [of _ 1]) (simp add: checked_fits)
  next
    case False
    obtain k where k: "nakamoto_loop th ss (acc + s) (i + 1) = Some (i + 1 + k)" "k \<le> length ss"
        "th < acc + s + sum_list (take k ss)" "\<forall>j < k. acc + s + sum_list (take j ss) \<le> th"
      using Cons.IH [of "acc + s" "i + 1"] Cons.prems False by auto
    have "acc + sum_list (take j (s # ss)) \<le> th" if "j < Suc k" for j
      using that k(4) False Cons.prems(1) by (cases j) (auto simp: add.assoc)
    then show ?thesis
      using k False Cons.prems by (intro exI [of _ "Suc k"]) (simp add: checked_fits add.assoc)
  qed
qed simp

text \<open>No set of that size weighs more than the heaviest members.\<close>

lemma sum_le_largest:
  fixes f :: "'a \<Rightarrow> nat"
  assumes "distinct ks" "sorted_wrt (\<ge>) (map f ks)" "V \<subseteq> set ks"
  shows "sum f V \<le> sum_list (take (card V) (map f ks))"
proof -
  have "image_mset f (mset_set V) \<subseteq># image_mset f (mset_set (set ks))"
    using assms(3) by (intro image_mset_subseteq_mono subset_imp_msubset_mset_set) simp_all
  moreover have "image_mset f (mset_set (set ks)) = mset (map f ks)"
    using assms(1) by (simp add: mset_set_set)
  ultimately have "sum_mset (image_mset f (mset_set V)) \<le> sum_list (take (card V) (map f ks))"
    using assms(2) by (intro take_descending) simp_all
  then show ?thesis
    by (simp add: sum_unfold_sum_mset)
qed

text \<open>The concentration metric is exact: it is the smallest number of operators whose stakes together
  exceed a third of the active total.\<close>

theorem nakamoto_minimal:
  assumes "sum_list (map amount_sat ds) * 25 \<le> u128_max"
    and "resolve ds epoch = Some r" "0 < total_active r"
  shows "\<exists>k. nakamoto_coefficient r = Some k \<and>
    (\<exists>V \<subseteq> set (keys_of (stakes r)). card V = k \<and> total_active r div 3 < sum (stake_of r) V) \<and>
    (\<forall>V \<subseteq> set (keys_of (stakes r)). card V < k \<longrightarrow> sum (stake_of r) V \<le> total_active r div 3)"
proof -
  obtain w where w: "walk_ok w" "r = registry_of epoch w"
    using resolve_walk [OF assms(1)] assms(2) by (metis option.inject)
  define T ks f where "T = total_active r" and "ks = rev (sort_key (stake_of r) (keys_of (stakes r)))"
    and "f = stake_of r"
  have m: "distinct (keys_of (stakes r))" "sum_list (values_of (stakes r)) = T"
    using w stake_map_sum [of "walk_slots w" "walk_active w"] om.wf_distinct
    by (auto simp: walk_ok_def stake_map_ok_def T_def)
  have vals: "values_of (stakes r) = map f (keys_of (stakes r))"
    using m(1) by (auto simp: f_def stake_of_def get_or_def)
  have ks: "distinct ks" "set ks = set (keys_of (stakes r))" "rev (sort (values_of (stakes r))) = map f ks"
    using m(1) unfolding vals by (simp_all add: ks_def f_def map_sort_key flip: rev_map)
  have sum: "sum_list (map f ks) = T"
    unfolding ks(3) [symmetric] m(2) [symmetric] by (rule sum_list_perm) simp
  have "T * 25 \<le> u128_max"
    using walk_ok_total [OF w(1)] w(2) by (simp add: T_def)
  then obtain k where k: "nakamoto_loop (T div 3) (map f ks) 0 0 = Some k" "k \<le> length ks"
      "T div 3 < sum_list (take k (map f ks))" "\<forall>j < k. sum_list (take j (map f ks)) \<le> T div 3"
    using nakamoto_loop_ok [of 0 "T div 3" "map f ks" 0] sum assms(3) by (auto simp: T_def)
  have "sum f (set (take k ks)) = sum_list (take k (map f ks))" "card (set (take k ks)) = k"
    using ks(1) k(2) by (simp_all add: sum_list_distinct_conv_sum_set take_map distinct_card)
  moreover have "sum f V \<le> T div 3" if V: "V \<subseteq> set ks" "card V < k" for V
  proof -
    have "sorted_wrt (\<ge>) (map f ks)"
      unfolding ks(3) [symmetric] by (simp add: sorted_wrt_rev)
    then have "sum f V \<le> sum_list (take (card V) (map f ks))"
      by (rule sum_le_largest [OF ks(1) _ V(1)])
    then show ?thesis
      using k(4) V(2) le_trans by blast
  qed
  moreover have "nakamoto_coefficient r = Some k"
    using k(1) assms(3) ks(3) by (simp add: nakamoto_coefficient_def T_def)
  ultimately show ?thesis
    using k(3) unfolding T_def [symmetric] f_def [symmetric] ks(2) [symmetric]
    by (intro exI [of _ k]) (metis set_take_subset)
qed

theorem nakamoto_minimal_witness:
  "\<exists>r. resolve [sample_delegation 1 7 300 0 None, sample_delegation 2 8 400 0 None, sample_delegation 3 9 200 0 None] 0 = Some r \<and>
    (\<exists>V \<subseteq> set (keys_of (stakes r)). card V = 1 \<and> total_active r div 3 < sum (stake_of r) V)"
proof -
  let ?ds = "[sample_delegation 1 7 300 0 None, sample_delegation 2 8 400 0 None, sample_delegation 3 9 200 0 None]"
  have "(case resolve ?ds 0 of None \<Rightarrow> False | Some r \<Rightarrow> 0 < total_active r \<and> nakamoto_coefficient r = Some 1)"
    by code_simp
  then obtain r where "resolve ?ds 0 = Some r" "0 < total_active r" "nakamoto_coefficient r = Some 1"
    by (auto split: option.splits)
  then show ?thesis
    using nakamoto_minimal [of ?ds 0 r] by (simp add: sample_defs)
qed

section \<open>The per-validator cap\<close>

text \<open>One round of the cap rule, and the interval in which the bounded iteration ends: it never
  falls below a cap that the rule supports.\<close>

definition cap_round :: "u128 list \<Rightarrow> nat \<Rightarrow> nat" where
  "cap_round ss c = sum_list (map (\<lambda>s. min s c) ss) * MAX_VALIDATOR_STAKE_BPS div 10000"

lemma cap_round_mono: "c \<le> c' \<Longrightarrow> cap_round ss c \<le> cap_round ss c'"
  unfolding cap_round_def by (intro div_le_mono mult_le_mono1 sum_list_map_le) auto

lemma cap_round_le: "cap_round ss c \<le> sum_list ss * MAX_VALIDATOR_STAKE_BPS div 10000"
  unfolding cap_round_def using sum_list_map_le [of ss "\<lambda>s. min s c" "\<lambda>s. s"]
  by (intro div_le_mono mult_le_mono1) simp

lemma cap_loop_ok:
  assumes "sum_list ss * MAX_VALIDATOR_STAKE_BPS \<le> u128_max" "cap_round ss c \<le> c"
  shows "\<exists>c'. cap_loop n ss c = Some c' \<and> c' \<le> c \<and> cap_round ss c' \<le> c' \<and>
    (\<forall>x \<le> c. x \<le> cap_round ss x \<longrightarrow> x \<le> c')"
  using assms(2)
proof (induction n arbitrary: c)
  case (Suc n)
  have fold: "sum_list (map (\<lambda>s. if s > c then c else s) ss) = sum_list (map (\<lambda>s. min s c) ss)"
    by (rule arg_cong [of _ _ sum_list]) (auto simp: min_def)
  have "sum_list (map (\<lambda>s. min s c) ss) \<le> sum_list ss"
    using sum_list_map_le [of ss "\<lambda>s. min s c" "\<lambda>s. s"] by simp
  then have fits: "sum_list (map (\<lambda>s. min s c) ss) * MAX_VALIDATOR_STAKE_BPS \<le> u128_max"
    using assms(1) by (meson le_trans mult_le_mono1)
  moreover from fits have "sum_list (map (\<lambda>s. min s c) ss) \<le> u128_max"
    by (simp add: MAX_VALIDATOR_STAKE_BPS_def)
  ultimately have step: "cap_loop (Suc n) ss c = (if cap_round ss c = c then Some c else cap_loop n ss (cap_round ss c))"
    by (simp add: checked_sum_eq fold checked_fits cap_round_def)
  show ?case
  proof (cases "cap_round ss c = c")
    case False
    obtain c' where c': "cap_loop n ss (cap_round ss c) = Some c'" "c' \<le> cap_round ss c" "cap_round ss c' \<le> c'"
        "\<forall>x \<le> cap_round ss c. x \<le> cap_round ss x \<longrightarrow> x \<le> c'"
      using Suc.IH [OF cap_round_mono [OF Suc.prems]] by blast
    have "x \<le> c'" if "x \<le> c" "x \<le> cap_round ss x" for x
    proof -
      have "x \<le> cap_round ss c"
        using that(2) cap_round_mono [OF that(1)] by (rule le_trans)
      then show ?thesis
        using c'(4) that(2) by simp
    qed
    moreover have "c' \<le> c"
      using c'(2) Suc.prems by (rule le_trans)
    ultimately show ?thesis
      using c'(1,3) False unfolding step by (intro exI [of _ c']) simp
  next
    case True
    then show ?thesis
      unfolding step by auto
  qed
qed auto

lemma resolve_total_le:
  assumes "sum_list (map amount_sat ds) * 25 \<le> u128_max" "resolve ds epoch = Some r"
  shows "total_active r \<le> sum_list (map amount_sat ds)"
proof -
  obtain w where w: "walk_ok w" "r = registry_of epoch w" "map fst (walk_slots w) = resolve_queue ds"
    using resolve_walk [OF assms(1)] assms(2) by (metis option.inject)
  have "total_active r \<le> amounts (walk_slots w)"
    using w(1,2) slot_total_le_amounts by (simp add: walk_ok_def)
  also have "\<dots> = sum_list (map amount_sat (resolve_queue ds))"
    by (simp flip: w(3))
  also have "\<dots> \<le> sum_list (map amount_sat ds)"
    by (rule queue_amounts_le)
  finally show ?thesis .
qed

lemma cap_sat_ok:
  assumes "sum_list (values_of (stakes r)) = total_active r" "total_active r * MAX_VALIDATOR_STAKE_BPS \<le> u128_max"
  obtains c where "cap_sat r = Some c" "c \<le> total_active r div 100" "cap_round (values_of (stakes r)) c \<le> c"
    and "\<forall>x. x \<le> cap_round (values_of (stakes r)) x \<longrightarrow> x \<le> c"
proof (cases "total_active r = 0")
  case True
  then have "cap_round (values_of (stakes r)) x = 0" for x
    using cap_round_le [of "values_of (stakes r)" x] assms(1) by simp
  then show thesis
    using that [of 0] True by (simp add: cap_sat_def)
next
  case False
  define T ss where "T = total_active r" and "ss = values_of (stakes r)"
  let ?c = "T * MAX_VALIDATOR_STAKE_BPS div 10000"
  have sum: "sum_list ss = T" and small: "T * MAX_VALIDATOR_STAKE_BPS \<le> u128_max"
    using assms by (simp_all add: T_def ss_def)
  have le: "cap_round ss x \<le> ?c" for x
    using cap_round_le [of ss x] sum by simp
  obtain c where c: "cap_loop CAP_FIXPOINT_ROUNDS ss ?c = Some c" "c \<le> ?c" "cap_round ss c \<le> c"
      "\<forall>x \<le> ?c. x \<le> cap_round ss x \<longrightarrow> x \<le> c"
    using cap_loop_ok [OF _ le, of CAP_FIXPOINT_ROUNDS] small sum by metis
  have "\<forall>x. x \<le> cap_round ss x \<longrightarrow> x \<le> c"
    using c(4) le le_trans by blast
  moreover have "?c = T div 100"
    using div_mult_mult2 [of 100 T 100] by (simp add: MAX_VALIDATOR_STAKE_BPS_def)
  moreover have "cap_sat r = Some c"
    using c(1) False small by (simp add: cap_sat_def T_def ss_def checked_fits)
  ultimately show thesis
    using that [of c] c(2,3) by (simp add: T_def ss_def)
qed

lemma validators_capped:
  assumes "cap_sat r = Some c"
  obtains vs where "validators r = Some vs" "map index vs = keys_of (stakes r)"
    and "0 < c \<longrightarrow> (\<forall>v \<in> set vs. effective_stake v \<le> c)"
    and "c = 0 \<longrightarrow> map effective_stake vs = map (min u64_max) (values_of (stakes r))"
proof
  define vs where "vs = map (\<lambda>(v, s). let capped = if c > 0 \<and> s > c then c else s
    in \<lparr> index = v, effective_stake = (if capped > u64_max then u64_max else capped) \<rparr>) (stakes r)"
  show "validators r = Some vs" "map index vs = keys_of (stakes r)"
    using assms by (simp_all add: validators_def vs_def case_prod_unfold Let_def o_def)
  show "0 < c \<longrightarrow> (\<forall>v \<in> set vs. effective_stake v \<le> c)"
    by (auto simp: vs_def Let_def)
  show "c = 0 \<longrightarrow> map effective_stake vs = map (min u64_max) (values_of (stakes r))"
    by (auto simp: vs_def Let_def min_def)
qed

text \<open>The per-validator cap: the bounded iteration never panics, ends at or below one percent of the active
  total and at or above every cap that one percent of the capped total supports, so that whenever it
  converges it is the largest fixed point; a positive cap binds every operator's weight, and a cap
  that has shrunk to zero is not applied at all.\<close>

theorem cap_brackets_fixed_points:
  assumes "sum_list (map amount_sat ds) * MAX_VALIDATOR_STAKE_BPS \<le> u128_max" "resolve ds epoch = Some r"
  shows "\<exists>c vs. cap_sat r = Some c \<and> c \<le> total_active r div 100 \<and>
    cap_round (values_of (stakes r)) c \<le> c \<and>
    (\<forall>x. x \<le> cap_round (values_of (stakes r)) x \<longrightarrow> x \<le> c) \<and>
    validators r = Some vs \<and> map index vs = keys_of (stakes r) \<and>
    (0 < c \<longrightarrow> (\<forall>v \<in> set vs. effective_stake v \<le> c)) \<and>
    (c = 0 \<longrightarrow> map effective_stake vs = map (min u64_max) (values_of (stakes r)))"
proof -
  have fits: "sum_list (map amount_sat ds) * 25 \<le> u128_max"
    using assms(1) by (simp add: MAX_VALIDATOR_STAKE_BPS_def)
  obtain w where w: "walk_ok w" "r = registry_of epoch w" "map fst (walk_slots w) = resolve_queue ds"
    using resolve_walk [OF fits] assms(2) by (metis option.inject)
  have sum: "sum_list (values_of (stakes r)) = total_active r"
    using w(1,2) stake_map_sum [of "walk_slots w" "walk_active w"] by (simp add: walk_ok_def)
  have small: "total_active r * MAX_VALIDATOR_STAKE_BPS \<le> u128_max"
    using resolve_total_le [OF fits assms(2)] assms(1) by (simp add: MAX_VALIDATOR_STAKE_BPS_def)
  obtain c where c: "cap_sat r = Some c" "c \<le> total_active r div 100" "cap_round (values_of (stakes r)) c \<le> c"
      "\<forall>x. x \<le> cap_round (values_of (stakes r)) x \<longrightarrow> x \<le> c"
    by (rule cap_sat_ok [OF sum small])
  obtain vs where "validators r = Some vs" "map index vs = keys_of (stakes r)" "0 < c \<longrightarrow> (\<forall>v \<in> set vs. effective_stake v \<le> c)"
      "c = 0 \<longrightarrow> map effective_stake vs = map (min u64_max) (values_of (stakes r))"
    by (rule validators_capped [OF c(1)])
  then show ?thesis
    using c by blast
qed

theorem cap_brackets_fixed_points_witness:
  "\<exists>r c. resolve [sample_delegation 1 7 300 0 None, sample_delegation 2 8 400 0 None] 0 = Some r \<and>
    cap_sat r = Some c \<and> c \<le> total_active r div 100"
proof -
  let ?ds = "[sample_delegation 1 7 300 0 None, sample_delegation 2 8 400 0 None]"
  have "sum_list (map amount_sat ?ds) * 25 \<le> u128_max" "sum_list (map amount_sat ?ds) * MAX_VALIDATOR_STAKE_BPS \<le> u128_max"
    by (simp_all add: sample_defs MAX_VALIDATOR_STAKE_BPS_def)
  moreover obtain r where "resolve ?ds 0 = Some r"
    using resolve_walk [OF calculation(1)] by metis
  ultimately show ?thesis
    using cap_brackets_fixed_points [of ?ds 0 r] by blast
qed

lemma cap_loop_numeral: "cap_loop (numeral k) ss cap = do {
     capped_total \<leftarrow> checked_sum u128_max (map (\<lambda>s. if s > cap then cap else s) ss);
     p \<leftarrow> checked_mul u128_max capped_total MAX_VALIDATOR_STAKE_BPS;
     if p div 10000 = cap then Some cap else cap_loop (pred_numeral k) ss (p div 10000)
   }"
  by (simp only: numeral_eq_Suc [of k] cap_loop.simps)

text \<open>With two operators every round divides the cap by at least fifty, until it is zero and the
  operator with nine tenths of the stake keeps them.\<close>

lemma cap_vanishes:
  "(case resolve [sample_delegation 1 7 900 0 None, sample_delegation 2 8 100 0 None] 0 of
     None \<Rightarrow> False
   | Some r \<Rightarrow> cap_sat r = Some 0 \<and>
       map_option (map effective_stake) (validators r) = Some [900 * SAT_PER_BLOCH, 100 * SAT_PER_BLOCH])"
proof -
  let ?ds = "[sample_delegation 1 7 900 0 None, sample_delegation 2 8 100 0 None]"
  have "map_option (\<lambda>r. (stakes r, total_active r)) (resolve ?ds 0)
      = Some ([(7, 90000000000), (8, 10000000000)], 100000000000)"
    by code_simp
  then obtain r where r: "resolve ?ds 0 = Some r" "stakes r = [(7, 90000000000), (8, 10000000000)]"
      "total_active r = 100000000000"
    by auto
  have "cap_sat r = Some 0"
    by (simp add: cap_sat_def r CAP_FIXPOINT_ROUNDS_def cap_loop_numeral checked_sum_eq checked_mul_def u128_max_def
        MAX_VALIDATOR_STAKE_BPS_def)
  then show ?thesis
    unfolding r(1) by (simp add: r(2) validators_def SAT_PER_BLOCH_def u64_max_def)
qed

text \<open>The combined form is floored at the equal share, so it leaves some weight to every roster and
  never touches a stake at or below that share.\<close>

lemma saturating_sum_eq: "sum_list ss \<le> u128_max \<Longrightarrow> saturating_sum ss = sum_list ss"
proof -
  have "acc + sum_list ss \<le> u128_max \<Longrightarrow> foldl (saturating_add u128_max) acc ss = acc + sum_list ss" for acc
    by (induction ss arbitrary: acc) (simp_all add: saturating_add_def min_absorb2)
  then show "sum_list ss \<le> u128_max \<Longrightarrow> saturating_sum ss = sum_list ss"
    by (simp add: saturating_sum_def)
qed

lemma combined_cap_floor:
  assumes "sum_list ss \<le> u128_max"
  shows "sum_list ss div length (filter (\<lambda>s. s > 0) ss) \<le> combined_cap_sat ss"
  using assms by (auto simp: combined_cap_sat_def Let_def div_or_zero_def saturating_sum_eq)

lemma combined_cap_positive:
  assumes "sum_list ss \<le> u128_max" "s \<in> set ss" "0 < s"
  shows "0 < combined_cap_sat ss"
proof -
  let ?n = "length (filter (\<lambda>s. s > 0) ss)"
  have "?n \<le> sum_list ss"
    by (induction ss) auto
  moreover have "0 < ?n"
    using assms(2,3) by (auto simp: filter_empty_conv)
  ultimately have "0 < sum_list ss div ?n"
    by (simp add: div_greater_zero_iff)
  then show ?thesis
    using combined_cap_floor [OF assms(1)] by linarith
qed

text \<open>A slash takes from every delegation behind the operator the same fraction, at most all of it,
  and nothing from the others.\<close>

lemma apply_slash_pro_rata:
  assumes "\<And>d. d \<in> set ds \<Longrightarrow> amount_sat d * 10000 \<le> u128_max"
  shows "apply_slash ds v bps = Some (map (\<lambda>d. if validator d = v \<and> eligible d
    then amount_sat d * min bps 10000 div 10000 else 0) ds)"
  using assms
proof (induction ds)
  case (Cons d ds)
  have "amount_sat d * min bps 10000 \<le> amount_sat d * 10000"
    by (intro mult_le_mono) simp_all
  moreover have "amount_sat d * 10000 \<le> u128_max"
    using Cons.prems by simp
  ultimately have "checked_mul u128_max (amount_sat d) (min bps 10000) = Some (amount_sat d * min bps 10000)"
    by (intro checked_fits) (rule le_trans)
  then show ?case
    using Cons by simp
qed simp

end
