(* ===== verification/Sampling.thy ===== *)
theory Sampling
  imports Attestation
begin

text \<open>
  Stake-weighted sampling (\<^verbatim>\<open>sample.rs\<close>), the slot clock and proposer duties
  (\<^verbatim>\<open>schedule.rs\<close>) and the two entry points of \<^verbatim>\<open>lib.rs\<close> in
  \<^verbatim>\<open>bloch-pos-committee/src\<close>.

  SHAKE256 comes from the \<^verbatim>\<open>sha3\<close> crate: the parameter \<open>xof\<close> gives the byte at each
  position of the stream squeezed from a seed.  The source draws 128-bit words until one is below a
  limit; that loop ends only if the stream has such a word, so a draw is a partial function and
  \<open>xof_fair\<close> states what the code relies on.  A result \<^term>\<open>None\<close> is a call that does not
  return.
\<close>

section \<open>The random stream\<close>

type_synonym xof = "bytes \<Rightarrow> nat \<Rightarrow> byte"

definition stream_word :: "(nat \<Rightarrow> byte) \<Rightarrow> nat \<Rightarrow> u128" where
  "stream_word stream pos = le_value (map stream [pos..<pos + 16])"

partial_function (option) draw_below :: "(nat \<Rightarrow> byte) \<Rightarrow> u128 \<Rightarrow> nat \<Rightarrow> (u128 \<times> nat) option" where
  [code]: "draw_below stream limit pos =
     (let v = stream_word stream pos in
      if v < limit then Some (v, pos + 16) else draw_below stream limit (pos + 16))"

definition xof_fair :: "(nat \<Rightarrow> byte) \<Rightarrow> bool" where
  "xof_fair stream = (\<forall>pos. \<exists>n. stream_word stream (pos + 16 * n) < 2 ^ 127)"

definition rejection_limit :: "u128 \<Rightarrow> u128" where
  "rejection_limit bound = u128_max div bound * bound"

lemma draw_below_ok:
  assumes "xof_fair stream" "2 ^ 127 \<le> limit"
  shows "\<exists>v pos'. draw_below stream limit pos = Some (v, pos') \<and> v < limit"
proof -
  obtain n where n: "stream_word stream (pos + 16 * n) < limit"
    using assms unfolding xof_fair_def by (meson less_le_trans)
  then show ?thesis
  proof (induction n arbitrary: pos)
    case 0
    then show ?case
      by (subst draw_below.simps) simp
  next
    case (Suc n)
    then have "stream_word stream (pos + 16 + 16 * n) < limit"
      by (simp add: algebra_simps)
    then show ?case
      using Suc.IH [of "pos + 16"] by (subst draw_below.simps) (auto simp: Let_def)
  qed
qed

lemma rejection_limit_ge: "0 < bound \<Longrightarrow> bound \<le> 2 ^ 127 \<Longrightarrow> 2 ^ 127 \<le> rejection_limit bound"
proof -
  assume "0 < bound" "bound \<le> 2 ^ 127"
  then have "u128_max - u128_max mod bound = rejection_limit bound" "u128_max mod bound < bound"
    by (simp_all add: rejection_limit_def minus_mod_eq_div_mult)
  then show "2 ^ 127 \<le> rejection_limit bound"
    using \<open>bound \<le> 2 ^ 127\<close> by (simp add: u128_max_def)
qed

section \<open>Sampling\<close>

definition ROLE_SLOT :: byte where
  "ROLE_SLOT = 1"

definition ROLE_EPOCH :: byte where
  "ROLE_EPOCH = 2"

definition COMMITTEE_SIZE :: usize where
  "COMMITTEE_SIZE = 128"

definition SLOT_SUBCOMMITTEE_SIZE :: usize where
  "SLOT_SUBCOMMITTEE_SIZE = 8"

datatype role = SlotSubcommittee | EpochCommittee

fun role_tag :: "role \<Rightarrow> byte" where
  "role_tag SlotSubcommittee = ROLE_SLOT"
| "role_tag EpochCommittee = ROLE_EPOCH"

text \<open>\<open>dedup_by_key\<close> keeps the first of each run of equal keys.\<close>

function dedup_by_key :: "('a \<Rightarrow> 'k) \<Rightarrow> 'a list \<Rightarrow> 'a list" where
  "dedup_by_key f [] = []"
| "dedup_by_key f (x # xs) = x # dedup_by_key f (dropWhile (\<lambda>y. f y = f x) xs)"
  by pat_completeness auto
termination
  by (relation "measure (length \<circ> snd)") (auto simp: le_imp_less_Suc length_dropWhile_le)

text \<open>The sort is \<open>sort_unstable_by_key\<close>; among equal keys, which a well-formed registry does not
  have, the order given is kept here.\<close>

definition eligible_validators :: "validator list \<Rightarrow> validator list" where
  "eligible_validators vs = dedup_by_key index (sort_key index (filter (\<lambda>v. effective_stake v > 0) vs))"

text \<open>The running sums; fewer than \<open>2 ^ 64\<close> terms below \<open>2 ^ 64\<close> do not leave 128 bits.\<close>

fun cumulative :: "u128 \<Rightarrow> validator list \<Rightarrow> u128 list" where
  "cumulative acc [] = []"
| "cumulative acc (v # vs) = (acc + effective_stake v) # cumulative (acc + effective_stake v) vs"

definition sortition_seed :: "hash32 \<Rightarrow> u64 \<Rightarrow> byte \<Rightarrow> bytes" where
  "sortition_seed beacon_mix i tag = DS_SORTITION @ beacon_mix @ le_bytes 8 i @ [tag]"

definition partition_point :: "u128 list \<Rightarrow> u128 \<Rightarrow> usize" where
  "partition_point cs r = length (takeWhile (\<lambda>c. c \<le> r) cs)"

fun draw_loop :: "(nat \<Rightarrow> byte) \<Rightarrow> u128 list \<Rightarrow> u128 \<Rightarrow> u32 list \<Rightarrow> usize \<Rightarrow> nat \<Rightarrow> bool list \<Rightarrow> u32 list \<Rightarrow> nat
    \<Rightarrow> (bool list \<times> u32 list) option" where
  "draw_loop stream cs whole idx k 0 taken chosen pos = Some (taken, chosen)"
| "draw_loop stream cs whole idx k (Suc draws_left) taken chosen pos =
     (if length chosen < k then do {
        (v, pos') \<leftarrow> draw_below stream (rejection_limit whole) pos;
        let p = partition_point cs (v mod whole);
        if p < length taken then
          if \<not> taken ! p
          then draw_loop stream cs whole idx k draws_left (taken[p := True]) (chosen @ [idx ! p]) pos'
          else draw_loop stream cs whole idx k draws_left taken chosen pos'
        else None
      }
      else Some (taken, chosen))"

fun fill_seats :: "usize \<Rightarrow> (bool \<times> u32) list \<Rightarrow> u32 list \<Rightarrow> u32 list" where
  "fill_seats k [] chosen = chosen"
| "fill_seats k ((t, i) # xs) chosen =
     (if length chosen = k then chosen
      else if \<not> t then fill_seats k xs (chosen @ [i]) else fill_seats k xs chosen)"

definition sample :: "xof \<Rightarrow> hash32 \<Rightarrow> u64 \<Rightarrow> role \<Rightarrow> validator list \<Rightarrow> usize \<Rightarrow> u32 list option" where
  "sample xof beacon_mix slot_index role vs k = (
     let eligible = eligible_validators vs; idx = map index eligible in
     if eligible = [] \<or> k = 0 then Some []
     else if length eligible \<le> k then Some (sort idx)
     else do {
       let whole = sum_list (map effective_stake eligible);
       (taken, chosen) \<leftarrow> draw_loop (xof (sortition_seed beacon_mix slot_index (role_tag role)))
         (cumulative 0 eligible) whole idx k MAX_DRAWS_PER_SLOT (replicate (length eligible) False) [] 0;
       Some (sort (if length chosen < k then fill_seats k (zip taken idx) chosen else chosen))
     })"

definition epoch_of :: "u64 \<Rightarrow> u64" where
  "epoch_of s = s div SLOTS_PER_EPOCH"

section \<open>The slot clock\<close>

definition slot_at :: "u64 \<Rightarrow> u64 \<Rightarrow> u64 option" where
  "slot_at genesis_time timestamp = (case checked_sub timestamp genesis_time of
     Some elapsed \<Rightarrow> Some (elapsed div SLOT_DURATION_SECS) | None \<Rightarrow> None)"

definition slot_start :: "u64 \<Rightarrow> u64 \<Rightarrow> u64 option" where
  "slot_start genesis_time s = (case checked_mul u64_max s SLOT_DURATION_SECS of
     Some offset \<Rightarrow> checked_add u64_max genesis_time offset | None \<Rightarrow> None)"

definition first_slot_of_epoch :: "u64 \<Rightarrow> u64 option" where
  "first_slot_of_epoch epoch = checked_mul u64_max epoch SLOTS_PER_EPOCH"

definition last_slot_of_epoch :: "u64 \<Rightarrow> u64 option" where
  "last_slot_of_epoch epoch = (case first_slot_of_epoch epoch of
     Some first \<Rightarrow> checked_add u64_max first (SLOTS_PER_EPOCH - 1) | None \<Rightarrow> None)"

definition epoch_at :: "u64 \<Rightarrow> u64 \<Rightarrow> u64 option" where
  "epoch_at genesis_time timestamp = (case slot_at genesis_time timestamp of
     Some s \<Rightarrow> Some (epoch_of s) | None \<Rightarrow> None)"

definition epoch_start :: "u64 \<Rightarrow> u64 \<Rightarrow> u64 option" where
  "epoch_start genesis_time epoch = (case first_slot_of_epoch epoch of
     Some first \<Rightarrow> slot_start genesis_time first | None \<Rightarrow> None)"

section \<open>Proposer duties\<close>

text \<open>The outer option is the call that does not return, the inner one the slot without proposer.\<close>

definition proposer :: "xof \<Rightarrow> hash32 \<Rightarrow> u64 \<Rightarrow> validator list \<Rightarrow> u32 option option" where
  "proposer xof beacon_mix s vs = do {
     c \<leftarrow> sample xof beacon_mix s SlotSubcommittee vs 1;
     Some (case c of [] \<Rightarrow> None | i # _ \<Rightarrow> Some i)
   }"

record epoch_schedule =
  schedule_epoch :: u64
  proposers :: "u32 option list"

definition proposer_at :: "epoch_schedule \<Rightarrow> u64 \<Rightarrow> u32 option" where
  "proposer_at sch s =
     (if epoch_of s \<noteq> schedule_epoch sch then None
      else do {
        first \<leftarrow> first_slot_of_epoch (schedule_epoch sch);
        offset \<leftarrow> checked_sub s first;
        proposers sch ! offset
      })"

fun proposer_roster :: "xof \<Rightarrow> hash32 \<Rightarrow> validator list \<Rightarrow> u64 list \<Rightarrow> u32 option list option" where
  "proposer_roster xof beacon_mix vs [] = Some []"
| "proposer_roster xof beacon_mix vs (s # ss) = do {
     p \<leftarrow> proposer xof beacon_mix s vs;
     ps \<leftarrow> proposer_roster xof beacon_mix vs ss;
     Some (p # ps)
   }"

definition epoch_schedule_of :: "xof \<Rightarrow> hash32 \<Rightarrow> u64 \<Rightarrow> validator list \<Rightarrow> epoch_schedule option option" where
  "epoch_schedule_of xof beacon_mix epoch vs = (
     case first_slot_of_epoch epoch of
       None \<Rightarrow> Some None
     | Some first \<Rightarrow> (case last_slot_of_epoch epoch of
         None \<Rightarrow> Some None
       | Some _ \<Rightarrow> do {
           ps \<leftarrow> proposer_roster xof beacon_mix vs [first..<first + SLOTS_PER_EPOCH];
           Some (Some \<lparr> schedule_epoch = epoch, proposers = ps \<rparr>)
         }))"

section \<open>The eligible list\<close>

lemma dedup_by_key_id: "distinct (map f xs) \<Longrightarrow> dedup_by_key f xs = xs"
proof (induction xs)
  case (Cons x xs)
  have "dropWhile (\<lambda>y. f y = f x) xs = xs"
    using Cons.prems by (cases xs) auto
  then show ?case
    using Cons by simp
qed simp

lemma insert_between: "B \<subseteq> insert a A \<Longrightarrow> A \<subseteq> B \<Longrightarrow> insert a A = insert a B"
  by blast

lemma dropWhile_key_greater:
  fixes f :: "'a \<Rightarrow> 'k::linorder"
  assumes "sorted (map f (x # xs))" "y \<in> set (dropWhile (\<lambda>y. f y = f x) xs)"
  shows "f x < f y"
proof (cases "dropWhile (\<lambda>y. f y = f x) xs")
  case (Cons z zs)
  have "f x \<noteq> f z"
    using Cons hd_dropWhile [of "\<lambda>y. f y = f x" xs] by simp
  moreover have "z \<in> set xs"
    using Cons by (metis list.set_intros(1) set_dropWhileD)
  then have "f x \<le> f z"
    using assms(1) by simp
  moreover have "sorted (map f (dropWhile (\<lambda>y. f y = f x) xs))"
    using assms(1) by (simp add: sorted_wrt_map sorted_wrt_dropWhile)
  then have "f z \<le> f y"
    using assms(2) by (auto simp: Cons)
  ultimately show ?thesis
    by simp
next
  case Nil
  with assms(2) have "y \<in> set []"
    by (simp only:)
  then show ?thesis
    by simp
qed

lemma dedup_by_key_sorted:
  fixes f :: "'a \<Rightarrow> 'k::linorder"
  shows "sorted (map f xs) \<Longrightarrow> sorted_wrt (<) (map f (dedup_by_key f xs)) \<and> f ` set (dedup_by_key f xs) = f ` set xs
    \<and> set (dedup_by_key f xs) \<subseteq> set xs"
proof (induction f xs rule: dedup_by_key.induct)
  case (2 f x xs)
  define ys where "ys = dropWhile (\<lambda>y. f y = f x) xs"
  have split: "set xs = set (takeWhile (\<lambda>y. f y = f x) xs) \<union> set ys"
    by (metis set_append takeWhile_dropWhile_id ys_def)
  have "sorted (map f (takeWhile (\<lambda>y. f y = f x) xs @ ys))" "\<forall>y \<in> set xs. f x \<le> f y"
    using "2.prems" by (simp_all add: ys_def)
  then have sorted: "sorted (map f ys)"
    by (simp add: sorted_append)
  have least: "f x < f y" if "y \<in> set ys" for y
    using "2.prems" that unfolding ys_def by (rule dropWhile_key_greater)
  have head: "f y = f x" if "y \<in> set (takeWhile (\<lambda>y. f y = f x) xs)" for y
    using that by (auto dest: set_takeWhileD)
  note IH = "2.IH" [folded ys_def, OF sorted]
  have sub: "set ys \<subseteq> set xs"
    unfolding split by simp
  have "f y \<in> insert (f x) (f ` set ys)" if "y \<in> set xs" for y
    using that head [of y] unfolding split by (cases "y \<in> set ys") simp_all
  then have "f ` set xs \<subseteq> insert (f x) (f ` set ys)"
    by (rule image_subsetI)
  then have image: "insert (f x) (f ` set ys) = insert (f x) (f ` set xs)"
    using image_mono [OF sub] by (rule insert_between)
  note sorted_IH = conjunct1 [OF IH] and image_IH = conjunct1 [OF conjunct2 [OF IH]]
    and sub_IH = conjunct2 [OF conjunct2 [OF IH]]
  have "f x < f y" if "y \<in> set (dedup_by_key f ys)" for y
    by (rule least) (rule subsetD [OF sub_IH that])
  moreover have "set (dedup_by_key f ys) \<subseteq> insert x (set xs)"
    by (rule subset_insertI2) (rule subset_trans [OF sub_IH sub])
  moreover have "insert (f x) (f ` set (dedup_by_key f ys)) = insert (f x) (f ` set xs)"
    unfolding image_IH by (rule image)
  ultimately show ?case
    using sorted_IH by (simp flip: ys_def)
qed simp

lemma eligible_props:
  "sorted_wrt (<) (map index (eligible_validators vs))"
  "index ` set (eligible_validators vs) = index ` {v \<in> set vs. 0 < effective_stake v}"
  "set (eligible_validators vs) \<subseteq> {v \<in> set vs. 0 < effective_stake v}"
  using dedup_by_key_sorted [of index "sort_key index (filter (\<lambda>v. effective_stake v > 0) vs)"]
  by (auto simp: eligible_validators_def)

lemma eligible_distinct: "distinct (map index (eligible_validators vs))"
  using eligible_props(1) strict_sorted_iff by blast

lemma eligible_total_pos: "eligible_validators vs \<noteq> [] \<Longrightarrow> 0 < sum_list (map effective_stake (eligible_validators vs))"
proof (cases "eligible_validators vs")
  case (Cons v us)
  then have "0 < effective_stake v"
    using eligible_props(3) [of vs] by auto
  then show ?thesis
    by (simp add: Cons)
qed simp

lemma eligible_total_le: "sum_list (map effective_stake (eligible_validators vs)) \<le> sum_list (map effective_stake vs)"
proof -
  have "distinct (eligible_validators vs)"
    using eligible_distinct [of vs] by (simp add: distinct_map)
  then have "mset (eligible_validators vs) \<subseteq># mset vs"
    using eligible_props(3) [of vs] by (intro mset_subset_eqI) (auto simp: distinct_count_atmost_1 count_greater_eq_one_iff)
  then obtain N where "mset vs = mset (eligible_validators vs) + N"
    by (metis mset_subset_eq_exists_conv)
  then have "sum_mset (mset (map effective_stake vs))
      = sum_mset (mset (map effective_stake (eligible_validators vs))) + sum_mset (image_mset effective_stake N)"
    by simp
  then show ?thesis
    unfolding sum_mset_sum_list by simp
qed

section \<open>The draw\<close>

lemma length_cumulative [simp]: "length (cumulative acc vs) = length vs"
  by (induction vs arbitrary: acc) simp_all

lemma partition_point_less: "r < acc + sum_list (map effective_stake vs) \<Longrightarrow> acc \<le> r
    \<Longrightarrow> partition_point (cumulative acc vs) r < length vs"
  unfolding partition_point_def by (induction vs arbitrary: acc) auto

text \<open>The chosen indices are those marked as taken, each once.\<close>

abbreviation marked :: "bool list \<Rightarrow> u32 list \<Rightarrow> u32 list" where
  "marked taken idx \<equiv> map snd (filter fst (zip taken idx))"

abbreviation unmarked :: "bool list \<Rightarrow> u32 list \<Rightarrow> u32 list" where
  "unmarked taken idx \<equiv> map snd (filter (\<lambda>x. \<not> fst x) (zip taken idx))"

lemma mset_marked_update: "length taken = length idx \<Longrightarrow> p < length idx \<Longrightarrow> \<not> taken ! p
    \<Longrightarrow> mset (marked (taken[p := True]) idx) = add_mset (idx ! p) (mset (marked taken idx))"
  by (induction taken idx arbitrary: p rule: list_induct2) (auto simp: nth_Cons split: nat.splits)

lemma mset_marked_unmarked: "length taken = length idx \<Longrightarrow> mset (marked taken idx) + mset (unmarked taken idx) = mset idx"
  by (induction taken idx rule: list_induct2) auto

lemma marked_start: "marked (replicate n False) idx = []"
  by (induction n arbitrary: idx) (simp_all add: zip_Cons1 split: list.splits)

lemma draw_loop_ok:
  assumes "xof_fair stream" "0 < whole" "whole \<le> 2 ^ 127" "\<And>r. r < whole \<Longrightarrow> partition_point cs r < length idx"
    and "length taken = length idx" "mset chosen = mset (marked taken idx)" "length chosen \<le> k"
  shows "\<exists>taken' chosen'. draw_loop stream cs whole idx k n taken chosen pos = Some (taken', chosen') \<and>
    length taken' = length idx \<and> mset chosen' = mset (marked taken' idx) \<and> length chosen' \<le> k"
  using assms(5-)
proof (induction n arbitrary: taken chosen pos)
  case (Suc n)
  show ?case
  proof (cases "length chosen < k")
    case True
    obtain v pos' where v: "draw_below stream (rejection_limit whole) pos = Some (v, pos')"
      using draw_below_ok [OF assms(1) rejection_limit_ge [OF assms(2,3)]] by blast
    define p where "p = partition_point cs (v mod whole)"
    have p: "p < length idx" "p < length taken"
      using assms(2) assms(4) [of "v mod whole"] Suc.prems(1) by (simp_all add: p_def)
    show ?thesis
    proof (cases "taken ! p")
      case False
      have "\<exists>taken' chosen'. draw_loop stream cs whole idx k n (taken[p := True]) (chosen @ [idx ! p]) pos' = Some (taken', chosen') \<and>
          length taken' = length idx \<and> mset chosen' = mset (marked taken' idx) \<and> length chosen' \<le> k"
        using Suc.prems True mset_marked_update [OF Suc.prems(1) p(1) False] by (intro Suc.IH) simp_all
      then show ?thesis
        using True v p False by (simp flip: p_def)
    next
      case marked: True
      show ?thesis
        using True v p marked Suc.IH [OF Suc.prems, of pos'] by (simp flip: p_def)
    qed
  qed (use Suc.prems in simp)
qed simp

lemma draw_loop_extends: "draw_loop stream cs whole idx k n taken chosen pos = Some (taken', chosen') \<Longrightarrow> \<exists>ys. chosen' = chosen @ ys"
proof (induction n arbitrary: taken chosen pos)
  case (Suc n)
  show ?case
  proof (cases "length chosen < k")
    case True
    then obtain v pos' where v: "draw_below stream (rejection_limit whole) pos = Some (v, pos')"
      using Suc.prems by (auto split: bind_splits)
    define p where "p = partition_point cs (v mod whole)"
    have "p < length taken"
      using Suc.prems True v by (auto simp: p_def Let_def split: if_splits)
    then have "draw_loop stream cs whole idx k n taken chosen pos' = Some (taken', chosen') \<or>
        draw_loop stream cs whole idx k n (taken[p := True]) (chosen @ [idx ! p]) pos' = Some (taken', chosen')"
      using Suc.prems True v by (cases "taken ! p") (simp_all flip: p_def)
    then show ?thesis
      using Suc.IH by (metis append_assoc)
  qed (use Suc.prems in simp)
qed simp

lemma fill_seats_eq: "length chosen \<le> k \<Longrightarrow>
    fill_seats k xs chosen = chosen @ take (k - length chosen) (map snd (filter (\<lambda>x. \<not> fst x) xs))"
proof (induction k xs chosen rule: fill_seats.induct)
  case (2 k t i xs chosen)
  show ?case
  proof (cases "length chosen = k")
    case False
    then obtain m where "k - length chosen = Suc m" "k - Suc (length chosen) = m"
      using "2.prems" by (metis Suc_diff_Suc le_neq_implies_less)
    then show ?thesis
      using 2 False by (cases t) auto
  qed simp
qed simp

section \<open>Properties of the sampler\<close>

lemma append_take_props:
  "distinct (xs @ ys) \<Longrightarrow> distinct (xs @ take n ys)" "set (xs @ take n ys) \<subseteq> set (xs @ ys)"
  by (auto dest: in_set_takeD)

lemma sample_large:
  assumes "xof_fair (xof (sortition_seed beacon_mix i (role_tag role)))" "sum_list (map effective_stake vs) \<le> 2 ^ 127"
    and "0 < k" "k < length (eligible_validators vs)"
  shows "\<exists>taken chosen. draw_loop (xof (sortition_seed beacon_mix i (role_tag role)))
      (cumulative 0 (eligible_validators vs)) (sum_list (map effective_stake (eligible_validators vs)))
      (map index (eligible_validators vs)) k MAX_DRAWS_PER_SLOT (replicate (length (eligible_validators vs)) False) [] 0
      = Some (taken, chosen) \<and>
    sample xof beacon_mix i role vs k = Some (sort (chosen @
      take (k - length chosen) (unmarked taken (map index (eligible_validators vs))))) \<and>
    length taken = length (eligible_validators vs) \<and>
    mset chosen = mset (marked taken (map index (eligible_validators vs))) \<and> length chosen \<le> k"
proof -
  let ?e = "eligible_validators vs"
  have total: "0 < sum_list (map effective_stake ?e)" "sum_list (map effective_stake ?e) \<le> 2 ^ 127"
    using assms(2) eligible_total_le [of vs] eligible_total_pos [of vs] assms(4) by (cases ?e; simp)+
  have point: "partition_point (cumulative 0 ?e) r < length (map index ?e)" if "r < sum_list (map effective_stake ?e)" for r
    using partition_point_less [of r 0 ?e] that by simp
  obtain taken chosen where d: "draw_loop (xof (sortition_seed beacon_mix i (role_tag role))) (cumulative 0 ?e)
        (sum_list (map effective_stake ?e)) (map index ?e) k MAX_DRAWS_PER_SLOT (replicate (length ?e) False) [] 0
        = Some (taken, chosen)"
      "length taken = length (map index ?e)" "mset chosen = mset (marked taken (map index ?e))" "length chosen \<le> k"
    using draw_loop_ok [OF assms(1) total point, of "replicate (length ?e) False" "[]" k MAX_DRAWS_PER_SLOT 0]
    by (auto simp: marked_start)
  have "(if length chosen < k then fill_seats k (zip taken (map index ?e)) chosen else chosen)
      = chosen @ take (k - length chosen) (unmarked taken (map index ?e))"
    using d(4) by (simp add: fill_seats_eq)
  then have "sample xof beacon_mix i role vs k
      = Some (sort (chosen @ take (k - length chosen) (unmarked taken (map index ?e))))"
    using assms(3,4) d(1) unfolding sample_def Let_def by (simp only: if_False) (auto simp: d(1))
  then show ?thesis
    using d by auto
qed

lemma sample_large_ok:
  assumes "xof_fair (xof (sortition_seed beacon_mix i (role_tag role)))" "sum_list (map effective_stake vs) \<le> 2 ^ 127"
    and k: "0 < k" "k < length (eligible_validators vs)"
  shows "\<exists>c. sample xof beacon_mix i role vs k = Some c \<and> sorted_wrt (<) c \<and>
    set c \<subseteq> set (map index (eligible_validators vs)) \<and> length c = k"
proof -
  let ?e = "eligible_validators vs" and ?idx = "map index (eligible_validators vs)"
  obtain taken chosen where s: "sample xof beacon_mix i role vs k
        = Some (sort (chosen @ take (k - length chosen) (unmarked taken ?idx)))"
      "length taken = length ?e" "mset chosen = mset (marked taken ?idx)" "length chosen \<le> k"
    using sample_large [where xof = xof and beacon_mix = beacon_mix and i = i and role = role, OF assms] by blast
  let ?c = "chosen @ take (k - length chosen) (unmarked taken ?idx)"
  have perm: "mset (chosen @ unmarked taken ?idx) = mset ?idx"
    using mset_marked_unmarked [of taken ?idx] s(2,3) by simp
  have "distinct (chosen @ unmarked taken ?idx)" "set (chosen @ unmarked taken ?idx) = set ?idx"
    using perm eligible_distinct mset_eq_imp_distinct_iff mset_eq_setD by blast+
  then have "distinct ?c" "set ?c \<subseteq> set ?idx"
    using append_take_props by metis+
  moreover have "length chosen + length (unmarked taken ?idx) = length ?e"
    using arg_cong [OF perm, of size] by (simp only: size_mset length_append length_map)
  then have "length ?c = k"
    using s(4) k(2) by simp
  ultimately show ?thesis
    using s(1) by (simp add: strict_sorted_iff)
qed

lemma sample_ok:
  assumes "xof_fair (xof (sortition_seed beacon_mix i (role_tag role)))" "sum_list (map effective_stake vs) \<le> 2 ^ 127"
  shows "\<exists>c. sample xof beacon_mix i role vs k = Some c \<and> sorted_wrt (<) c \<and>
    set c \<subseteq> index ` {v \<in> set vs. 0 < effective_stake v} \<and>
    length c = min k (card (index ` {v \<in> set vs. 0 < effective_stake v}))"
proof -
  let ?e = "eligible_validators vs" and ?idx = "map index (eligible_validators vs)"
  have idx: "sorted_wrt (<) ?idx" "set ?idx = index ` {v \<in> set vs. 0 < effective_stake v}"
      "length ?e = card (index ` {v \<in> set vs. 0 < effective_stake v})"
    using eligible_props [of vs] distinct_card [OF eligible_distinct [of vs]] by simp_all
  consider "?e = [] \<or> k = 0" | "0 < k" "length ?e \<le> k" "?e \<noteq> []" | "0 < k" "k < length ?e"
    by linarith
  then show ?thesis
  proof cases
    case 1
    then have "sample xof beacon_mix i role vs k = Some []" "min k (length ?e) = 0"
      by (auto simp: sample_def)
    then show ?thesis
      unfolding idx(3) by simp
  next
    case 2
    then have "sample xof beacon_mix i role vs k = Some ?idx"
      using idx(1) by (auto simp: sample_def strict_sorted_iff sorted_sort_id)
    then show ?thesis
      using 2 idx by simp
  next
    case 3
    then have "min k (length ?e) = k"
      by simp
    then show ?thesis
      using sample_large_ok [where xof = xof and beacon_mix = beacon_mix and i = i and role = role, OF assms 3]
      unfolding idx(2,3) by simp
  qed
qed

text \<open>C38. The sampler returns on every stream that has small words arbitrarily far, and what it returns is
  canonical: strictly ascending indices of validators with positive stake, as many as asked for or all of them
  when there are fewer.\<close>

theorem sample_canonical:
  assumes "xof_fair (xof (sortition_seed beacon_mix i (role_tag role)))" "sum_list (map effective_stake vs) \<le> 2 ^ 127"
  shows "\<exists>c. sample xof beacon_mix i role vs k = Some c \<and> sorted_wrt (<) c \<and>
    set c \<subseteq> index ` {v \<in> set vs. 0 < effective_stake v} \<and>
    length c = min k (card (index ` {v \<in> set vs. 0 < effective_stake v}))"
  using assms by (rule sample_ok)

definition toy_xof :: xof where
  "toy_xof seed pos = of_nat (pos mod 128)"

definition toy_roster :: "validator list" where
  "toy_roster = [\<lparr> index = 3, effective_stake = 5 \<rparr>, \<lparr> index = 1, effective_stake = 4 \<rparr>,
     \<lparr> index = 2, effective_stake = 0 \<rparr>, \<lparr> index = 7, effective_stake = 6 \<rparr>]"

lemma le_value_append: "le_value (bs @ [b]) = le_value bs + 256 ^ length bs * unat b"
  by (induction bs) (simp_all add: algebra_simps)

lemma toy_xof_fair: "xof_fair (toy_xof seed)"
proof -
  have "stream_word (toy_xof seed) pos < 2 ^ 127" for pos
  proof -
    define bs b where "bs = map (toy_xof seed) [pos..<pos + 15]" and "b = toy_xof seed (pos + 15)"
    have "[pos..<pos + 16] = [pos..<pos + 15] @ [pos + 15]"
      by (simp add: add.commute [of pos] flip: upt_Suc_append)
    then have "stream_word (toy_xof seed) pos = le_value bs + 256 ^ 15 * unat b"
      by (simp add: stream_word_def bs_def b_def le_value_append)
    moreover have "le_value bs < 256 ^ 15"
      using le_value_bound [of bs] by (simp add: bs_def)
    moreover have "unat b \<le> 127"
      by (simp add: b_def toy_xof_def unat_of_nat)
    ultimately show ?thesis
      by simp
  qed
  then show ?thesis
    unfolding xof_fair_def by (metis add.right_neutral mult_0_right)
qed

theorem sample_canonical_witness:
  "\<exists>c. sample toy_xof (replicate 32 0) 9 SlotSubcommittee toy_roster 2 = Some c \<and> sorted_wrt (<) c \<and> length c = 2"
proof -
  have "xof_fair (toy_xof (sortition_seed (replicate 32 0) 9 (role_tag SlotSubcommittee)))"
      "sum_list (map effective_stake toy_roster) \<le> 2 ^ 127"
    by (simp_all add: toy_xof_fair toy_roster_def)
  moreover have "index ` {v \<in> set toy_roster. 0 < effective_stake v} = {1, 3, 7}"
    by code_simp
  ultimately show ?thesis
    using sample_canonical [of toy_xof "replicate 32 0" 9 SlotSubcommittee toy_roster 2] by auto
qed

text \<open>For a registry without duplicate indices the draw does not depend on the order in which it is
  held.\<close>

lemma sample_order_free:
  assumes "mset vs = mset ws" "inj_on index (set vs)"
  shows "sample xof beacon_mix i role vs k = sample xof beacon_mix i role ws k"
proof -
  let ?P = "\<lambda>v. effective_stake v > 0"
  have "mset (filter ?P vs) = mset (sort_key index (filter ?P ws))" "inj_on index (set (filter ?P vs))"
    using assms by (auto simp: inj_on_def)
  then have "sort_key index (filter ?P vs) = sort_key index (filter ?P ws)"
    by (intro sort_key_inj_key_eq) simp_all
  then show ?thesis
    by (simp add: sample_def eligible_validators_def)
qed

text \<open>With a duplicate index the kept stake is the one held first, and the order shows in the result.\<close>

lemma sample_duplicate_order:
  "sample toy_xof (replicate 32 0) 0 SlotSubcommittee
     [\<lparr> index = 1, effective_stake = 1 \<rparr>, \<lparr> index = 1, effective_stake = 2 \<rparr>, \<lparr> index = 2, effective_stake = 6 \<rparr>] 1 = Some [2]
   \<and> sample toy_xof (replicate 32 0) 0 SlotSubcommittee
     [\<lparr> index = 1, effective_stake = 2 \<rparr>, \<lparr> index = 1, effective_stake = 1 \<rparr>, \<lparr> index = 2, effective_stake = 6 \<rparr>] 1 = Some [1]"
  by code_simp

section \<open>Properties of the duties\<close>

text \<open>Every draw of a slot starts with the same validator, whatever the size drawn.\<close>

lemma sample_first:
  assumes "xof_fair (xof (sortition_seed beacon_mix s (role_tag role)))" "sum_list (map effective_stake vs) \<le> 2 ^ 127"
    and "1 < length (eligible_validators vs)"
  obtains i where "i \<in> set (map index (eligible_validators vs))"
    and "\<And>j c. sample xof beacon_mix s role vs j = Some c \<Longrightarrow> 0 < j \<Longrightarrow> j < length (eligible_validators vs) \<Longrightarrow> i \<in> set c"
proof -
  let ?e = "eligible_validators vs" and ?idx = "map index (eligible_validators vs)"
  let ?stream = "xof (sortition_seed beacon_mix s (role_tag role))"
  have ne: "?e \<noteq> []"
    using assms(3) by auto
  obtain v pos' where v: "draw_below ?stream (rejection_limit (sum_list (map effective_stake ?e))) 0 = Some (v, pos')"
    using eligible_total_pos [OF ne] eligible_total_le [of vs] assms(2)
      draw_below_ok [OF assms(1) rejection_limit_ge] by (meson le_trans)
  define p where "p = partition_point (cumulative 0 ?e) (v mod sum_list (map effective_stake ?e))"
  have p: "p < length ?e"
    using partition_point_less [of "v mod sum_list (map effective_stake ?e)" 0 ?e] eligible_total_pos [OF ne]
    by (simp add: p_def)
  obtain n where n: "MAX_DRAWS_PER_SLOT = Suc n"
    by (metis MAX_DRAWS_PER_SLOT_def not0_implies_Suc zero_neq_numeral)
  have loop: "draw_loop ?stream (cumulative 0 ?e) (sum_list (map effective_stake ?e)) ?idx j MAX_DRAWS_PER_SLOT
      (replicate (length ?e) False) [] 0
      = draw_loop ?stream (cumulative 0 ?e) (sum_list (map effective_stake ?e)) ?idx j n
          ((replicate (length ?e) False)[p := True]) [?idx ! p] pos'" if "0 < j" for j
    using that v p unfolding n by (simp flip: p_def)
  have "?idx ! p \<in> set c" if j: "sample xof beacon_mix s role vs j = Some c" "0 < j" "j < length ?e" for j c
  proof -
    obtain taken chosen where "draw_loop ?stream (cumulative 0 ?e) (sum_list (map effective_stake ?e)) ?idx j
          MAX_DRAWS_PER_SLOT (replicate (length ?e) False) [] 0 = Some (taken, chosen)"
        "c = sort (chosen @ take (j - length chosen) (unmarked taken ?idx))"
      using sample_large [where xof = xof and beacon_mix = beacon_mix and i = s and role = role and vs = vs,
          OF assms(1,2) j(2,3)] j(1) by auto
    then show ?thesis
      using draw_loop_extends unfolding loop [OF j(2)] by fastforce
  qed
  moreover have "?idx ! p \<in> set ?idx"
    using p by (intro nth_mem) simp
  ultimately show thesis
    using that by blast
qed

text \<open>The proposer of a slot is a member of the slot's own subcommittee, of whatever positive size, and
  every slot with an eligible validator has one.\<close>

theorem proposer_in_subcommittee:
  assumes "xof_fair (xof (sortition_seed beacon_mix s (role_tag SlotSubcommittee)))"
    and "sum_list (map effective_stake vs) \<le> 2 ^ 127" "0 < k" "v \<in> set vs" "0 < effective_stake v"
  shows "\<exists>i c. proposer xof beacon_mix s vs = Some (Some i) \<and>
    sample xof beacon_mix s SlotSubcommittee vs k = Some c \<and> i \<in> set c"
proof -
  let ?e = "eligible_validators vs" and ?idx = "map index (eligible_validators vs)"
  note ok = sample_ok [where xof = xof and beacon_mix = beacon_mix and i = s and role = SlotSubcommittee and vs = vs,
      OF assms(1,2)]
  have "index v \<in> index ` set ?e"
    using assms(4,5) eligible_props(2) [of vs] by blast
  then consider u where "?e = [u]" | "1 < length ?e"
    by (cases ?e rule: remdups_adj.cases) auto
  then show ?thesis
  proof cases
    case 1
    then show ?thesis
      using assms(3) by (simp add: proposer_def sample_def Let_def)
  next
    case 2
    obtain i where i: "i \<in> set ?idx"
      and first: "\<And>j c. sample xof beacon_mix s SlotSubcommittee vs j = Some c \<Longrightarrow> 0 < j \<Longrightarrow> j < length ?e \<Longrightarrow> i \<in> set c"
      using sample_first [where xof = xof and beacon_mix = beacon_mix and s = s and role = SlotSubcommittee and vs = vs, OF assms(1,2) 2] by blast
    obtain c1 where c1: "sample xof beacon_mix s SlotSubcommittee vs 1 = Some c1" "length c1 \<le> 1"
      using ok [of 1] by auto
    then have "proposer xof beacon_mix s vs = Some (Some i)"
      using first [OF c1(1)] 2 by (cases c1) (auto simp: proposer_def)
    moreover obtain c where c: "sample xof beacon_mix s SlotSubcommittee vs k = Some c"
      using ok [of k] by auto
    moreover have "i \<in> set c"
      using first [OF c assms(3)] c i assms(3) 2 by (cases "k < length ?e") (auto simp: sample_def Let_def split: if_splits)
    ultimately show ?thesis
      by blast
  qed
qed

theorem proposer_in_subcommittee_witness:
  "\<exists>i c. proposer toy_xof (replicate 32 0) 5 toy_roster = Some (Some i) \<and>
    sample toy_xof (replicate 32 0) 5 SlotSubcommittee toy_roster 2 = Some c \<and> i \<in> set c"
  by (rule proposer_in_subcommittee [where v = "\<lparr> index = 3, effective_stake = 5 \<rparr>"])
    (simp_all add: toy_xof_fair toy_roster_def)

text \<open>The slot clock is exact: the window of a slot is the thirty seconds from its start, every instant from
  genesis on lies in exactly one slot, and the epoch of an instant is the one whose slots contain it.\<close>

theorem slot_clock:
  assumes "slot_start genesis s = Some t"
  shows "(slot_at genesis now = Some s \<longleftrightarrow> t \<le> now \<and> now < t + SLOT_DURATION_SECS) \<and>
    (slot_at genesis now = None \<longleftrightarrow> now < genesis) \<and>
    (epoch_start genesis e = Some t \<longrightarrow> (epoch_at genesis now = Some e \<longleftrightarrow>
       t \<le> now \<and> now < t + SLOTS_PER_EPOCH * SLOT_DURATION_SECS))"
proof -
  have t: "t = genesis + s * 30"
    using assms by (auto simp: slot_start_def SLOT_DURATION_SECS_def checked_mul_def checked_add_def split: if_splits)
  have window: "(now - genesis) div d = q \<longleftrightarrow> genesis + q * d \<le> now \<and> now < genesis + q * d + d"
    if "genesis \<le> now" "0 < d" for q d
  proof -
    have "(now - genesis) div d = q \<longleftrightarrow> q * d \<le> now - genesis \<and> now - genesis < Suc q * d"
      using that(2) by (metis div_nat_eqI dividend_less_times_div div_times_less_eq_dividend mult.commute mult_Suc_right)
    also have "\<dots> \<longleftrightarrow> genesis + q * d \<le> now \<and> now < genesis + q * d + d"
      using that(1) by auto
    finally show ?thesis .
  qed
  have slot: "slot_at genesis now = Some q \<longleftrightarrow> genesis + q * 30 \<le> now \<and> now < genesis + q * 30 + 30" for q
    using window [of 30 q] by (cases "genesis \<le> now") (auto simp: slot_at_def SLOT_DURATION_SECS_def checked_sub_def)
  have "epoch_at genesis now = Some e \<longleftrightarrow> t \<le> now \<and> now < t + SLOTS_PER_EPOCH * SLOT_DURATION_SECS"
    if "epoch_start genesis e = Some t"
  proof -
    have e: "t = genesis + e * 960"
      using that by (auto simp: epoch_start_def first_slot_of_epoch_def slot_start_def SLOT_DURATION_SECS_def SLOTS_PER_EPOCH_def
          checked_mul_def checked_add_def split: if_splits)
    have "epoch_at genesis now = Some e \<longleftrightarrow> genesis \<le> now \<and> (now - genesis) div 960 = e"
      by (auto simp: epoch_at_def slot_at_def epoch_of_def SLOT_DURATION_SECS_def SLOTS_PER_EPOCH_def checked_sub_def
          div_mult2_eq [of _ 30 32, simplified])
    then show ?thesis
      using window [of 960 e] e by (auto simp: SLOT_DURATION_SECS_def SLOTS_PER_EPOCH_def)
  qed
  then show ?thesis
    using slot [of s] t by (auto simp: SLOT_DURATION_SECS_def slot_at_def checked_sub_def)
qed

theorem slot_clock_witness:
  "slot_at 1000 1059 = Some 1 \<and> slot_at 1000 1060 \<noteq> Some 1 \<and> slot_at 1000 999 = None"
proof -
  have "slot_start 1000 1 = Some 1030"
    by code_simp
  from slot_clock [OF this, of 1059] slot_clock [OF this, of 1060] slot_clock [OF this, of 999]
  show ?thesis
    by (simp add: SLOT_DURATION_SECS_def)
qed

lemma proposer_roster_nth: "proposer_roster xof beacon_mix vs ss = Some ps \<Longrightarrow> j < length ss \<Longrightarrow>
    length ps = length ss \<and> proposer xof beacon_mix (ss ! j) vs = Some (ps ! j)"
proof (induction ss arbitrary: ps j)
  case (Cons s ss)
  then obtain p ps' where "ps = p # ps'" "proposer xof beacon_mix s vs = Some p" "proposer_roster xof beacon_mix vs ss = Some ps'"
    by (auto split: bind_splits)
  then show ?case
    using Cons.IH [of ps' "j - 1"] Cons.IH [of ps' 0] Cons.prems(2) by (cases j; cases ss) auto
qed simp

text \<open>The precomputed roster of an epoch answers every slot as the direct draw does: for a slot of the epoch
  the proposer drawn for that slot, for any other slot none.\<close>

theorem schedule_agrees:
  assumes "epoch_schedule_of xof beacon_mix epoch vs = Some (Some sch)"
  shows "Some (proposer_at sch s) = (if epoch_of s = epoch then proposer xof beacon_mix s vs else Some None)"
proof -
  obtain ps where e: "epoch * 32 \<le> u64_max" "proposer_roster xof beacon_mix vs [epoch * 32..<epoch * 32 + 32] = Some ps"
      "sch = \<lparr> schedule_epoch = epoch, proposers = ps \<rparr>"
    using assms by (auto simp: epoch_schedule_of_def first_slot_of_epoch_def SLOTS_PER_EPOCH_def checked_mul_def
        split: option.splits if_splits bind_splits)
  show ?thesis
  proof (cases "epoch_of s = epoch")
    case True
    define j where "j = s mod 32"
    have s: "s = epoch * 32 + j" "j < 32"
      using True div_mult_mod_eq [of s 32] by (simp_all add: epoch_of_def SLOTS_PER_EPOCH_def j_def)
    then have "proposer xof beacon_mix s vs = Some (ps ! j)"
      using proposer_roster_nth [OF e(2), of j] by simp
    moreover have "proposer_at sch s = ps ! j"
      using True s e by (simp add: proposer_at_def first_slot_of_epoch_def SLOTS_PER_EPOCH_def checked_fits)
    ultimately show ?thesis
      using True by simp
  next
    case False
    then show ?thesis
      by (simp add: proposer_at_def e(3))
  qed
qed

theorem schedule_agrees_witness:
  "\<exists>sch. epoch_schedule_of toy_xof (replicate 32 0) 0 [\<lparr> index = 4, effective_stake = 5 \<rparr>] = Some (Some sch) \<and>
    proposer_at sch 31 = Some 4 \<and> proposer_at sch 32 = None"
proof -
  let ?vs = "[\<lparr> index = 4, effective_stake = 5 \<rparr>]"
  have one: "proposer toy_xof (replicate 32 0) s ?vs = Some (Some 4)" for s
    by (simp add: proposer_def sample_def eligible_validators_def)
  have "proposer_roster toy_xof (replicate 32 0) ?vs ss = Some (map (\<lambda>_. Some 4) ss)" for ss
    by (induction ss) (simp_all add: one)
  then obtain sch where "epoch_schedule_of toy_xof (replicate 32 0) 0 ?vs = Some (Some sch)"
    by (auto simp: epoch_schedule_of_def first_slot_of_epoch_def last_slot_of_epoch_def checked_fits SLOTS_PER_EPOCH_def u64_max_def)
  then show ?thesis
    using schedule_agrees [of toy_xof "replicate 32 0" 0 ?vs sch 31] schedule_agrees [of toy_xof "replicate 32 0" 0 ?vs sch 32]
    by (auto simp: one epoch_of_def SLOTS_PER_EPOCH_def)
qed

end
