(* ===== verification/Committees.thy ===== *)
theory Committees
  imports Sampling
begin

text \<open>
  The epoch partition (\<^verbatim>\<open>bloch-pos-committee/src/committees.rs\<close>): seed selection with look-ahead,
  the Fisher-Yates shuffle that cuts the active set into one committee per slot, the memo in front of
  it, and the supermajority test.  The thread-local memo and its counter are an explicit state.
\<close>

section \<open>Seeds\<close>

definition ROLE_PARTITION :: byte where
  "ROLE_PARTITION = 3"

definition MIN_SEED_LOOKAHEAD_EPOCHS :: u64 where
  "MIN_SEED_LOOKAHEAD_EPOCHS = 1"

definition seed_epoch :: "u64 \<Rightarrow> u64 option" where
  "seed_epoch epoch = checked_sub epoch (MIN_SEED_LOOKAHEAD_EPOCHS + 1)"

definition seed_mix :: "hash32 \<Rightarrow> hash32 list \<Rightarrow> u64 \<Rightarrow> hash32 option" where
  "seed_mix genesis_mix boundary_mixes epoch = (case seed_epoch epoch of
     None \<Rightarrow> Some genesis_mix
   | Some e \<Rightarrow> if e < length boundary_mixes then Some (boundary_mixes ! e) else None)"

section \<open>The partition\<close>

definition swap_at :: "'a list \<Rightarrow> nat \<Rightarrow> nat \<Rightarrow> 'a list" where
  "swap_at xs i j = xs[i := xs ! j, j := xs ! i]"

fun shuffle :: "(nat \<Rightarrow> byte) \<Rightarrow> nat \<Rightarrow> u32 list \<Rightarrow> nat \<Rightarrow> u32 list option" where
  "shuffle stream 0 xs pos = Some xs"
| "shuffle stream (Suc i) xs pos = do {
     let bound = saturating_add u128_max (Suc i) 1;
     (v, pos') \<leftarrow> draw_below stream (rejection_limit bound) pos;
     shuffle stream i (swap_at xs (Suc i) (v mod bound)) pos'
   }"

fun cut_chunks :: "nat \<Rightarrow> nat \<Rightarrow> nat list \<Rightarrow> u32 list \<Rightarrow> u32 list list" where
  "cut_chunks base extra [] xs = []"
| "cut_chunks base extra (s # ss) xs = (
     let n = base + (if s < extra then 1 else 0)
     in sort (take n xs) # cut_chunks base extra ss (drop n xs))"

definition epoch_committees_uncached :: "xof \<Rightarrow> hash32 \<Rightarrow> u64 \<Rightarrow> validator list \<Rightarrow> u32 list list option" where
  "epoch_committees_uncached xof beacon_mix epoch vs = (
     let eligible = remdups_adj (sort (map index vs)) in
     if eligible = [] then Some (replicate SLOTS_PER_EPOCH [])
     else do {
       xs \<leftarrow> shuffle (xof (sortition_seed beacon_mix epoch ROLE_PARTITION)) (length eligible - 1) eligible 0;
       Some (cut_chunks (length eligible div SLOTS_PER_EPOCH) (length eligible mod SLOTS_PER_EPOCH) [0..<SLOTS_PER_EPOCH] xs)
     })"

section \<open>The memo\<close>

type_synonym partition_cache_key = "hash32 \<times> u64 \<times> hash32 \<times> bool"

record partition_memo =
  partition_cache :: "(partition_cache_key \<times> u32 list list) option"
  partition_recomputations :: u64

definition roster_bytes :: "validator list \<Rightarrow> bytes" where
  "roster_bytes vs = le_bytes 8 (length vs) @ concat (map (\<lambda>v. le_bytes 4 (index v) @ le_bytes 8 (effective_stake v)) vs)"

definition roster_fingerprint :: "(bytes \<Rightarrow> hash32) \<Rightarrow> validator list \<Rightarrow> hash32" where
  "roster_fingerprint sha3 vs = sha3 (roster_bytes vs)"

definition partition_cache_key :: "(bytes \<Rightarrow> hash32) \<Rightarrow> hash32 \<Rightarrow> u64 \<Rightarrow> validator list \<Rightarrow> partition_cache_key" where
  "partition_cache_key sha3 beacon_mix epoch vs = (beacon_mix, epoch, roster_fingerprint sha3 vs, False)"

definition partition_cache_get :: "partition_memo \<Rightarrow> partition_cache_key \<Rightarrow> u32 list list option" where
  "partition_cache_get memo key = (case partition_cache memo of
     Some (k, v) \<Rightarrow> if k = key then Some v else None | None \<Rightarrow> None)"

definition partition_cache_put :: "partition_cache_key \<Rightarrow> u32 list list \<Rightarrow> partition_memo \<Rightarrow> partition_memo" where
  "partition_cache_put key out memo = memo\<lparr> partition_cache := Some (key, out) \<rparr>"

definition count_recomputation :: "partition_memo \<Rightarrow> partition_memo" where
  "count_recomputation memo = memo\<lparr> partition_recomputations := (partition_recomputations memo + 1) mod 2 ^ 64 \<rparr>"

definition reset_partition_recomputations :: "partition_memo \<Rightarrow> partition_memo" where
  "reset_partition_recomputations memo = memo\<lparr> partition_recomputations := 0 \<rparr>"

definition epoch_committees :: "xof \<Rightarrow> (bytes \<Rightarrow> hash32) \<Rightarrow> hash32 \<Rightarrow> u64 \<Rightarrow> validator list \<Rightarrow> partition_memo
    \<Rightarrow> (u32 list list \<times> partition_memo) option" where
  "epoch_committees xof sha3 beacon_mix epoch vs memo = (
     let key = partition_cache_key sha3 beacon_mix epoch vs in
     case partition_cache_get memo key of
       Some hit \<Rightarrow> Some (hit, memo)
     | None \<Rightarrow> do {
         out \<leftarrow> epoch_committees_uncached xof beacon_mix epoch vs;
         Some (out, partition_cache_put key out (count_recomputation memo))
       })"

definition seeded_epoch_committees :: "xof \<Rightarrow> (bytes \<Rightarrow> hash32) \<Rightarrow> hash32 \<Rightarrow> hash32 list \<Rightarrow> u64 \<Rightarrow> validator list
    \<Rightarrow> partition_memo \<Rightarrow> (u32 list list option \<times> partition_memo) option" where
  "seeded_epoch_committees xof sha3 genesis_mix boundary_mixes epoch vs memo =
     (case seed_mix genesis_mix boundary_mixes epoch of
        None \<Rightarrow> Some (None, memo)
      | Some mix \<Rightarrow> do {
          (out, memo') \<leftarrow> epoch_committees xof sha3 mix epoch vs memo;
          Some (Some out, memo')
        })"

definition committee_for_slot :: "xof \<Rightarrow> (bytes \<Rightarrow> hash32) \<Rightarrow> hash32 \<Rightarrow> u64 \<Rightarrow> validator list \<Rightarrow> partition_memo
    \<Rightarrow> (u32 list \<times> partition_memo) option" where
  "committee_for_slot xof sha3 beacon_mix s vs memo = do {
     (cs, memo') \<leftarrow> epoch_committees xof sha3 beacon_mix (s div SLOTS_PER_EPOCH) vs memo;
     Some (if s mod SLOTS_PER_EPOCH < length cs then cs ! (s mod SLOTS_PER_EPOCH) else [], memo')
   }"

section \<open>Stake\<close>

definition total_active_stake :: "validator list \<Rightarrow> u128 option" where
  "total_active_stake vs = checked_sum u128_max (map effective_stake vs)"

definition is_supermajority :: "u128 \<Rightarrow> u128 \<Rightarrow> bool" where
  "is_supermajority stake_for whole =
     (whole > 0 \<and> saturating_mul u128_max stake_for 3 \<ge> saturating_mul u128_max whole 2)"

section \<open>The partition is a partition\<close>

lemma mset_swap_at: "i < length xs \<Longrightarrow> j < length xs \<Longrightarrow> mset (swap_at xs i j) = mset xs"
  unfolding swap_at_def by (rule mset_swap) assumption+

lemma length_swap_at [simp]: "length (swap_at xs i j) = length xs"
  by (simp add: swap_at_def)

lemma shuffle_ok:
  assumes "xof_fair stream" "i < length xs" "length xs \<le> u32_max"
  shows "\<exists>ys. shuffle stream i xs pos = Some ys \<and> mset ys = mset xs"
  using assms(2,3)
proof (induction i arbitrary: xs pos)
  case (Suc i)
  have bound: "saturating_add u128_max (Suc i) 1 = Suc i + 1"
    using Suc.prems by (simp add: saturating_add_def u128_max_def u32_max_def)
  have "Suc i + 1 \<le> 2 ^ 127"
    using Suc.prems by (simp add: u32_max_def)
  then obtain v pos' where v: "draw_below stream (rejection_limit (Suc i + 1)) pos = Some (v, pos')"
    using draw_below_ok [OF assms(1) rejection_limit_ge] by (metis add_gr_0 zero_less_one)
  define ys where "ys = swap_at xs (Suc i) (v mod (Suc i + 1))"
  have "v mod (Suc i + 1) < length xs"
    using Suc.prems(1) mod_less_divisor [of "Suc i + 1" v] by linarith
  then have "mset ys = mset xs" "length ys = length xs"
    using Suc.prems(1) by (simp_all add: ys_def mset_swap_at)
  moreover have "shuffle stream (Suc i) xs pos = shuffle stream i ys pos'"
    unfolding shuffle.simps bound Let_def v ys_def by simp
  ultimately show ?case
    using Suc.IH [of ys pos'] Suc.prems by simp
qed simp

lemma mset_cut_chunks:
  "sum_list (map (\<lambda>s. base + (if s < extra then 1 else 0)) ss) = length xs
    \<Longrightarrow> mset (concat (cut_chunks base extra ss xs)) = mset xs"
proof (induction ss arbitrary: xs)
  case (Cons s ss)
  define n where "n = base + (if s < extra then 1 else 0)"
  have "mset (concat (cut_chunks base extra ss (drop n xs))) = mset (drop n xs)"
    using Cons.prems by (intro Cons.IH) (simp add: n_def)
  moreover have "mset (take n xs) + mset (drop n xs) = mset xs"
    by (metis append_take_drop_id mset_append)
  ultimately show ?case
    by (simp add: Let_def flip: n_def)
qed simp

lemma cut_chunks_sizes:
  "sum_list (map (\<lambda>s. base + (if s < extra then 1 else 0)) ss) = length xs
    \<Longrightarrow> map length (cut_chunks base extra ss xs) = map (\<lambda>s. base + (if s < extra then 1 else 0)) ss"
proof (induction ss arbitrary: xs)
  case (Cons s ss)
  then show ?case
    using Cons.IH [of "drop (base + (if s < extra then 1 else 0)) xs"] by (auto simp: Let_def)
qed simp

lemma cut_chunks_sorted: "c \<in> set (cut_chunks base extra ss xs) \<Longrightarrow> sorted c"
  by (induction ss arbitrary: xs) (auto simp: Let_def)

lemma chunk_sizes_sum: "sum_list (map (\<lambda>s. n div 32 + (if s < n mod 32 then 1 else 0)) [0..<32]) = (n::nat)"
proof -
  have "sum_list (map (\<lambda>s. n div 32 + (if s < n mod 32 then 1 else 0)) [0..<32]) = 32 * (n div 32) + (\<Sum>s \<leftarrow> [0..<32]. if s < n mod 32 then 1 else 0)"
    by (simp add: sum_list_addf sum_list_triv)
  also have "(\<Sum>s \<leftarrow> [0..<32]. if s < n mod 32 then 1 else 0) = card {s. s < 32 \<and> s < n mod 32}"
    by (simp add: interv_sum_list_conv_sum_set_nat sum.If_cases Int_def conj_commute flip: atLeast0LessThan)
  also have "{s. s < 32 \<and> s < n mod 32} = {..<n mod 32}"
    using mod_less_divisor [of 32 n] by auto
  finally show ?thesis
    by simp
qed

lemma distinct_dedup: "sorted (xs :: nat list) \<Longrightarrow> distinct (remdups_adj xs)"
  by (induction xs rule: remdups_adj.induct) auto

lemma canonical_indices: "remdups_adj (sort xs) = sorted_list_of_set (set (xs :: nat list))"
  by (rule sorted_distinct_set_unique) (simp_all add: distinct_dedup)

lemma cut_even_chunks:
  assumes "mset ys = mset_set A" "finite A" "n = card A" "cs = cut_chunks (n div 32) (n mod 32) [0..<32] ys"
  shows "length cs = 32" "mset (concat cs) = mset_set A"
    and "c \<in> set cs \<Longrightarrow> sorted_wrt (<) c \<and> length c - n div 32 \<le> 1 \<and> n div 32 \<le> length c"
proof -
  have len: "sum_list (map (\<lambda>s. n div 32 + (if s < n mod 32 then 1 else 0)) [0..<32]) = length ys"
    using chunk_sizes_sum [of n] arg_cong [OF assms(1), of size] assms(3) by simp
  have sizes: "map length cs = map (\<lambda>s. n div 32 + (if s < n mod 32 then 1 else 0)) [0..<32]"
    unfolding assms(4) by (rule cut_chunks_sizes [OF len])
  show "length cs = 32"
    using arg_cong [OF sizes, of length] by simp
  show concat: "mset (concat cs) = mset_set A"
    unfolding assms(4) mset_cut_chunks [OF len] by (rule assms(1))
  have "mset (concat cs) = mset (sorted_list_of_set A)"
    unfolding concat using mset_set_set [of "sorted_list_of_set A"] assms(2) by simp
  then have "distinct (concat cs)"
    by (metis distinct_sorted_list_of_set mset_eq_imp_distinct_iff)
  moreover have "length c \<in> set (map length cs)" if "c \<in> set cs"
    using that by simp
  ultimately show "sorted_wrt (<) c \<and> length c - n div 32 \<le> 1 \<and> n div 32 \<le> length c" if "c \<in> set cs"
    using that cut_chunks_sorted [of c] unfolding sizes
    by (auto simp: strict_sorted_iff assms(4) distinct_concat_iff)
qed

text \<open>C17. Every epoch is a partition: on a fair stream the shuffle returns one committee for each slot of the
  epoch, each strictly ascending, their sizes differing by at most one, and every validator of the registry, whatever
  its stake, sits in exactly one of them.\<close>

theorem committees_partition:
  assumes "xof_fair (xof (sortition_seed beacon_mix epoch ROLE_PARTITION))" "length vs \<le> u32_max"
  shows "\<exists>cs. epoch_committees_uncached xof beacon_mix epoch vs = Some cs \<and> length cs = SLOTS_PER_EPOCH \<and>
    (\<forall>c \<in> set cs. sorted_wrt (<) c \<and> length c - card (index ` set vs) div SLOTS_PER_EPOCH \<le> 1 \<and>
       card (index ` set vs) div SLOTS_PER_EPOCH \<le> length c) \<and>
    mset (concat cs) = mset_set (index ` set vs)"
proof -
  define el n where "el = remdups_adj (sort (map index vs))" and "n = length el"
  have el: "el = sorted_list_of_set (index ` set vs)" "n = card (index ` set vs)"
    by (simp_all add: el_def n_def canonical_indices)
  have mset: "mset el = mset_set (index ` set vs)"
    using mset_set_set [of el] by (simp add: el(1))
  show ?thesis
  proof (cases "el = []")
    case True
    then have "index ` set vs = {}"
      using el(1) by simp
    moreover have "epoch_committees_uncached xof beacon_mix epoch vs = Some (replicate SLOTS_PER_EPOCH [])"
      using True by (simp add: epoch_committees_uncached_def flip: el_def)
    ultimately show ?thesis
      by (simp add: concat_replicate_trivial)
  next
    case False
    have "n \<le> length vs"
      using card_image_le [of "set vs" index] card_length [of vs] el(2) by simp
    then obtain ys where ys: "shuffle (xof (sortition_seed beacon_mix epoch ROLE_PARTITION)) (n - 1) el 0 = Some ys"
        "mset ys = mset el"
      using shuffle_ok [OF assms(1), of "n - 1" el 0] False assms(2) by (auto simp: n_def)
    define cs where "cs = cut_chunks (n div 32) (n mod 32) [0..<32] ys"
    have "epoch_committees_uncached xof beacon_mix epoch vs = Some cs"
      using False ys(1) by (simp add: epoch_committees_uncached_def cs_def n_def SLOTS_PER_EPOCH_def flip: el_def)
    then show ?thesis
      using cut_even_chunks [OF ys(2) [unfolded mset] _ el(2) cs_def] unfolding el(2) [symmetric] SLOTS_PER_EPOCH_def by simp
  qed
qed

theorem committees_partition_witness:
  "\<exists>cs. epoch_committees_uncached toy_xof (replicate 32 0) 4 toy_roster = Some cs \<and> length cs = 32 \<and>
    mset (concat cs) = {# 1, 2, 3, 7 #}"
proof -
  have "index ` set toy_roster = {1, 2, 3, 7}"
    by code_simp
  then show ?thesis
    using committees_partition [of toy_xof "replicate 32 0" 4 toy_roster] toy_xof_fair
    by (auto simp: SLOTS_PER_EPOCH_def toy_roster_def u32_max_def)
qed

text \<open>Stake decides weight only: two rosters with the same indices, a leaked one and its original
  among them, get the same committees.\<close>

lemma committees_ignore_stake:
  "index ` set vs = index ` set ws \<Longrightarrow>
    epoch_committees_uncached xof beacon_mix epoch vs = epoch_committees_uncached xof beacon_mix epoch ws"
  by (simp add: epoch_committees_uncached_def canonical_indices)

text \<open>The look-ahead: what happens in the epoch before, or later, cannot move the seed.\<close>

lemma seed_mix_lookahead:
  "take (epoch - 1) mixes = take (epoch - 1) mixes' \<Longrightarrow> epoch - 1 \<le> length mixes \<Longrightarrow> epoch - 1 \<le> length mixes'
    \<Longrightarrow> seed_mix g mixes epoch = seed_mix g mixes' epoch"
  by (auto simp: seed_mix_def seed_epoch_def MIN_SEED_LOOKAHEAD_EPOCHS_def checked_sub_def)
    (metis Suc_1 Suc_diff_Suc Suc_le_lessD lessI nth_take)+

section \<open>The memo is transparent\<close>

definition roster_ok :: "validator list \<Rightarrow> bool" where
  "roster_ok vs = (length vs \<le> u64_max \<and> (\<forall>v \<in> set vs. index v \<le> u32_max \<and> effective_stake v \<le> u64_max))"

lemma roster_entries_inject:
  assumes "length vs = length ws"
    and "concat (map (\<lambda>v. le_bytes 4 (index v) @ le_bytes 8 (effective_stake v)) vs)
      = concat (map (\<lambda>v. le_bytes 4 (index v) @ le_bytes 8 (effective_stake v)) ws)"
    and "\<forall>v \<in> set vs \<union> set ws. index v \<le> u32_max \<and> effective_stake v \<le> u64_max"
  shows "vs = (ws :: validator list)"
  using assms
proof (induction vs ws rule: list_induct2)
  case (Cons v vs w ws)
  have "le_bytes 4 (index v) = le_bytes 4 (index w)" "le_bytes 8 (effective_stake v) = le_bytes 8 (effective_stake w)"
      "vs = ws"
    using Cons by (auto simp: append_eq_append_conv)
  then show ?case
    using Cons.prems(2) le_bytes_inject [of "index v" 4 "index w"]
      le_bytes_inject [of "effective_stake v" 8 "effective_stake w"]
    by (auto simp: u32_max_def u64_max_def)
qed simp

lemma roster_bytes_inject:
  assumes "roster_ok vs" "roster_ok ws" "roster_bytes vs = roster_bytes ws"
  shows "vs = ws"
proof (rule roster_entries_inject)
  have "le_bytes 8 (length vs) = le_bytes 8 (length ws)"
    using assms(3) by (simp add: roster_bytes_def append_eq_append_conv)
  then show "length vs = length ws"
    using assms(1,2) le_bytes_inject [of "length vs" 8 "length ws"] by (simp add: roster_ok_def u64_max_def)
qed (use assms in \<open>auto simp: roster_ok_def roster_bytes_def append_eq_append_conv\<close>)

text \<open>A sequence of calls on one thread, and what each would compute alone.\<close>

type_synonym partition_call = "hash32 \<times> u64 \<times> validator list"

fun run_partition_calls :: "xof \<Rightarrow> (bytes \<Rightarrow> hash32) \<Rightarrow> partition_call list \<Rightarrow> partition_memo \<Rightarrow> u32 list list list option" where
  "run_partition_calls xof sha3 [] memo = Some []"
| "run_partition_calls xof sha3 ((mix, epoch, vs) # calls) memo = do {
     (out, memo') \<leftarrow> epoch_committees xof sha3 mix epoch vs memo;
     rest \<leftarrow> run_partition_calls xof sha3 calls memo';
     Some (out # rest)
   }"

fun fresh_partition_calls :: "xof \<Rightarrow> partition_call list \<Rightarrow> u32 list list list option" where
  "fresh_partition_calls xof [] = Some []"
| "fresh_partition_calls xof ((mix, epoch, vs) # calls) = do {
     out \<leftarrow> epoch_committees_uncached xof mix epoch vs;
     rest \<leftarrow> fresh_partition_calls xof calls;
     Some (out # rest)
   }"

definition collision_free :: "(bytes \<Rightarrow> hash32) \<Rightarrow> validator list set \<Rightarrow> bool" where
  "collision_free sha3 R = (\<forall>vs \<in> R. \<forall>ws \<in> R. sha3 (roster_bytes vs) = sha3 (roster_bytes ws) \<longrightarrow> roster_bytes vs = roster_bytes ws)"

definition memo_consistent :: "xof \<Rightarrow> (bytes \<Rightarrow> hash32) \<Rightarrow> validator list set \<Rightarrow> partition_memo \<Rightarrow> bool" where
  "memo_consistent xof sha3 R memo = (case partition_cache memo of
     None \<Rightarrow> True
   | Some (key, out) \<Rightarrow> \<exists>mix epoch. \<exists>vs \<in> R. key = partition_cache_key sha3 mix epoch vs \<and>
       epoch_committees_uncached xof mix epoch vs = Some out)"

lemma epoch_committees_memo:
  assumes "memo_consistent xof sha3 R memo" "collision_free sha3 R" "vs \<in> R" "\<forall>ws \<in> R. roster_ok ws"
  shows "map_option fst (epoch_committees xof sha3 mix epoch vs memo) = epoch_committees_uncached xof mix epoch vs"
    and "epoch_committees xof sha3 mix epoch vs memo = Some (out, memo') \<Longrightarrow> memo_consistent xof sha3 R memo'"
proof -
  define key where "key = partition_cache_key sha3 mix epoch vs"
  have hit: "epoch_committees_uncached xof mix epoch vs = Some out" if got: "partition_cache_get memo key = Some out" for out
  proof -
    have cached: "partition_cache memo = Some (key, out)"
      using got by (auto simp: partition_cache_get_def split: option.splits if_splits)
    obtain mix' epoch' ws where w: "ws \<in> R" "key = partition_cache_key sha3 mix' epoch' ws"
        "epoch_committees_uncached xof mix' epoch' ws = Some out"
      using assms(1) unfolding memo_consistent_def cached by auto
    then have same: "mix' = mix" "epoch' = epoch" "sha3 (roster_bytes vs) = sha3 (roster_bytes ws)"
      unfolding key_def by (simp_all add: partition_cache_key_def roster_fingerprint_def)
    then have "roster_bytes vs = roster_bytes ws"
      using assms(2,3) w(1) unfolding collision_free_def by blast
    then have "vs = ws"
      using assms(3,4) w(1) by (intro roster_bytes_inject) simp_all
    then show ?thesis
      using w(3) same by simp
  qed
  show "map_option fst (epoch_committees xof sha3 mix epoch vs memo) = epoch_committees_uncached xof mix epoch vs"
  proof (cases "partition_cache_get memo key")
    case None
    then show ?thesis
      by (cases "epoch_committees_uncached xof mix epoch vs") (simp_all add: epoch_committees_def flip: key_def)
  next
    case (Some out)
    then show ?thesis
      using hit [OF Some] by (simp add: epoch_committees_def flip: key_def)
  qed
  show "memo_consistent xof sha3 R memo'" if "epoch_committees xof sha3 mix epoch vs memo = Some (out, memo')"
  proof (cases "partition_cache_get memo key")
    case None
    then have "epoch_committees_uncached xof mix epoch vs = Some out" "partition_cache memo' = Some (key, out)"
      using that by (auto simp: epoch_committees_def partition_cache_put_def simp flip: key_def split: bind_splits)
    then show ?thesis
      using assms(3) by (auto simp: memo_consistent_def key_def)
  next
    case (Some hit)
    then show ?thesis
      using that assms(1) by (simp add: epoch_committees_def flip: key_def)
  qed
qed

text \<open>The memo in front of the shuffle changes when the shuffle runs and never what a call returns: any
  sequence of calls that starts with an empty memo answers as fresh computations do, if the digest does not collide on
  the rosters seen.\<close>

theorem memo_transparent:
  assumes "\<forall>(_, _, vs) \<in> set calls. roster_ok vs" "collision_free sha3 ((snd \<circ> snd) ` set calls)"
    and "partition_cache memo = None"
  shows "run_partition_calls xof sha3 calls memo = fresh_partition_calls xof calls"
proof -
  let ?R = "(snd \<circ> snd) ` set calls"
  have "run_partition_calls xof sha3 cs memo = fresh_partition_calls xof cs"
    if "set cs \<subseteq> set calls" "memo_consistent xof sha3 ?R memo" for cs memo
    using that
  proof (induction cs arbitrary: memo)
    case (Cons c cs)
    obtain mix epoch vs where c: "c = (mix, epoch, vs)"
      by (cases c)
    have vs: "vs \<in> ?R" "\<forall>ws \<in> ?R. roster_ok ws"
      using Cons.prems(1) assms(1) by (force simp: c)+
    note memo = epoch_committees_memo [OF Cons.prems(2) assms(2) vs, of mix epoch]
    show ?case
    proof (cases "epoch_committees xof sha3 mix epoch vs memo")
      case None
      then show ?thesis
        using memo(1) by (simp add: c)
    next
      case (Some r)
      obtain out memo' where r: "r = (out, memo')"
        by (cases r)
      have "run_partition_calls xof sha3 cs memo' = fresh_partition_calls xof cs"
        using Cons.prems(1) memo(2) Some r by (intro Cons.IH) auto
      moreover have "epoch_committees_uncached xof mix epoch vs = Some out"
        using memo(1) Some r by simp
      ultimately show ?thesis
        using Some r by (simp add: c)
    qed
  qed simp
  moreover have "memo_consistent xof sha3 ?R memo"
    by (simp add: memo_consistent_def assms(3))
  ultimately show ?thesis
    by blast
qed

theorem memo_transparent_witness:
  "run_partition_calls toy_xof (\<lambda>bs. bs) [(replicate 32 0, 4, toy_roster), (replicate 32 0, 4, toy_roster)]
     \<lparr> partition_cache = None, partition_recomputations = 0 \<rparr>
   = fresh_partition_calls toy_xof [(replicate 32 0, 4, toy_roster), (replicate 32 0, 4, toy_roster)]"
  by (rule memo_transparent) (simp_all add: roster_ok_def toy_roster_def collision_free_def u32_max_def u64_max_def)

text \<open>A repeated call is answered without a recomputation.\<close>

lemma memo_hit:
  assumes "epoch_committees xof sha3 mix epoch vs memo = Some (out, memo')"
  shows "epoch_committees xof sha3 mix epoch vs memo' = Some (out, memo')"
  using assms
  by (auto simp: epoch_committees_def partition_cache_get_def partition_cache_put_def Let_def split: option.splits if_splits bind_splits)

section \<open>The supermajority test\<close>

text \<open>On totals that can be tripled the saturating test is the exact two-thirds test.\<close>

lemma supermajority_exact:
  assumes "whole * 2 \<le> u128_max"
  shows "is_supermajority w whole \<longleftrightarrow> 0 < whole \<and> 2 * whole \<le> 3 * w"
  using assms by (auto simp: is_supermajority_def saturating_mul_def)

end
