(* ===== verification/Beacon.thy ===== *)
theory Beacon
  imports Sampling
begin

text \<open>
  The commit-reveal randomness beacon (\<^verbatim>\<open>bloch-pos-committee/src/beacon.rs\<close>): the secret hash chain
  of a validator, the committed state that verifies its reveals, and the global mix.  SHAKE256 and
  SHA3-256 are the parameters \<open>xof\<close> and \<open>sha3\<close>.
\<close>

section \<open>Operations\<close>

definition chain_step :: "xof \<Rightarrow> hash32 \<Rightarrow> hash32" where
  "chain_step xof x = map (xof x) [0..<32]"

datatype beacon_error = InvalidReveal | ChainExhausted

record randao_chain =
  links :: "hash32 list"
  revealed :: u32

fun chain_values :: "xof \<Rightarrow> nat \<Rightarrow> hash32 \<Rightarrow> hash32 list" where
  "chain_values xof 0 cur = [cur]"
| "chain_values xof (Suc n) cur = cur # chain_values xof n (chain_step xof cur)"

definition generate :: "xof \<Rightarrow> hash32 \<Rightarrow> randao_chain" where
  "generate xof seed = \<lparr> links = chain_values xof RANDAO_CHAIN_LENGTH seed, revealed = 0 \<rparr>"

definition chain_commitment :: "randao_chain \<Rightarrow> hash32" where
  "chain_commitment c = links c ! RANDAO_CHAIN_LENGTH"

definition remaining :: "randao_chain \<Rightarrow> u32" where
  "remaining c = saturating_sub RANDAO_CHAIN_LENGTH (revealed c)"

definition peek_reveal :: "randao_chain \<Rightarrow> hash32 option" where
  "peek_reveal c =
     (if RANDAO_CHAIN_LENGTH \<le> revealed c then None
      else do { i \<leftarrow> checked_sub (RANDAO_CHAIN_LENGTH - 1) (revealed c); Some (links c ! i) })"

definition next_reveal :: "randao_chain \<Rightarrow> hash32 option \<times> randao_chain" where
  "next_reveal c = (case peek_reveal c of
     None \<Rightarrow> (None, c)
   | Some r \<Rightarrow> (Some r, c\<lparr> revealed := revealed c + 1 \<rparr>))"

record reveal_state =
  commitment :: hash32
  reveals_used :: u32

definition register :: "hash32 \<Rightarrow> reveal_state" where
  "register c0 = \<lparr> commitment = c0, reveals_used = 0 \<rparr>"

definition is_exhausted :: "reveal_state \<Rightarrow> bool" where
  "is_exhausted s = (RANDAO_CHAIN_LENGTH \<le> reveals_used s)"

definition verify_and_advance :: "xof \<Rightarrow> reveal_state \<Rightarrow> hash32 \<Rightarrow> beacon_error + reveal_state" where
  "verify_and_advance xof s reveal =
     (if is_exhausted s then Inl ChainExhausted
      else if chain_step xof reveal \<noteq> commitment s then Inl InvalidReveal
      else case checked_add u32_max (reveals_used s) 1 of
        None \<Rightarrow> Inl ChainExhausted
      | Some n \<Rightarrow> Inr \<lparr> commitment = reveal, reveals_used = n \<rparr>)"

definition recommit :: "reveal_state \<Rightarrow> hash32 \<Rightarrow> reveal_state" where
  "recommit s new_c0 = register new_c0"

definition mix_preimage :: "hash32 \<Rightarrow> hash32 \<Rightarrow> bytes" where
  "mix_preimage randao_mix reveal = DS_RANDAO @ randao_mix @ reveal"

definition mix_in :: "(bytes \<Rightarrow> hash32) \<Rightarrow> hash32 \<Rightarrow> hash32 \<Rightarrow> hash32" where
  "mix_in sha3 randao_mix reveal = sha3 (mix_preimage randao_mix reveal)"

definition recommit_preimage :: "u32 \<Rightarrow> u64 \<Rightarrow> hash32 \<Rightarrow> bytes" where
  "recommit_preimage v epoch new_c0 = DS_RANDAO @ le_bytes 4 v @ le_bytes 8 epoch @ new_c0"

definition recommit_signing_root :: "(bytes \<Rightarrow> hash32) \<Rightarrow> u32 \<Rightarrow> u64 \<Rightarrow> hash32 \<Rightarrow> hash32" where
  "recommit_signing_root sha3 v epoch new_c0 = sha3 (recommit_preimage v epoch new_c0)"

definition process_reveal :: "xof \<Rightarrow> (bytes \<Rightarrow> hash32) \<Rightarrow> reveal_state \<Rightarrow> hash32 \<Rightarrow> hash32 \<Rightarrow> beacon_error + (reveal_state \<times> hash32)" where
  "process_reveal xof sha3 s randao_mix reveal = (case verify_and_advance xof s reveal of
     Inl e \<Rightarrow> Inl e | Inr s' \<Rightarrow> Inr (s', mix_in sha3 randao_mix reveal))"

section \<open>Walking the chain\<close>

lemma chain_values_nth: "j \<le> n \<Longrightarrow> chain_values xof n x ! j = (chain_step xof ^^ j) x"
proof (induction n arbitrary: x j)
  case (Suc n)
  then show ?case
    by (cases j) (simp_all add: funpow_swap1)
qed simp

lemma length_chain_values [simp]: "length (chain_values xof n x) = Suc n"
  by (induction n arbitrary: x) simp_all

text \<open>A validator that proposes \<open>n\<close> slots: each takes its next reveal and has it processed.\<close>

fun propose_slots :: "xof \<Rightarrow> (bytes \<Rightarrow> hash32) \<Rightarrow> nat \<Rightarrow> randao_chain \<times> reveal_state \<times> hash32
    \<Rightarrow> (randao_chain \<times> reveal_state \<times> hash32) option" where
  "propose_slots xof sha3 0 st = Some st"
| "propose_slots xof sha3 (Suc n) (c, s, m) = (case next_reveal c of
     (None, c') \<Rightarrow> None
   | (Some r, c') \<Rightarrow> (case process_reveal xof sha3 s m r of
       Inl e \<Rightarrow> None | Inr (s', m') \<Rightarrow> propose_slots xof sha3 n (c', s', m')))"

definition chain_in_step :: "xof \<Rightarrow> hash32 \<Rightarrow> nat \<Rightarrow> randao_chain \<Rightarrow> reveal_state \<Rightarrow> bool" where
  "chain_in_step xof seed k c s = (k \<le> RANDAO_CHAIN_LENGTH \<and>
     c = (generate xof seed)\<lparr> revealed := k \<rparr> \<and>
     s = \<lparr> commitment = (chain_step xof ^^ (RANDAO_CHAIN_LENGTH - k)) seed, reveals_used = k \<rparr>)"

lemma chain_in_step_start: "chain_in_step xof seed 0 (generate xof seed) (register (chain_commitment (generate xof seed)))"
  by (simp add: chain_in_step_def generate_def register_def chain_commitment_def chain_values_nth)

lemma propose_one:
  assumes "chain_in_step xof seed k c s" "k < RANDAO_CHAIN_LENGTH"
  shows "\<exists>r c' s'. next_reveal c = (Some r, c') \<and> process_reveal xof sha3 s m r = Inr (s', mix_in sha3 m r) \<and>
    chain_in_step xof seed (Suc k) c' s'"
proof -
  define d where "d = RANDAO_CHAIN_LENGTH - 1 - k"
  define r where "r = (chain_step xof ^^ d) seed"
  have d: "RANDAO_CHAIN_LENGTH - k = Suc d" "RANDAO_CHAIN_LENGTH - Suc k = d" "d \<le> RANDAO_CHAIN_LENGTH"
    using assms(2) by (auto simp: d_def)
  have c: "links c = chain_values xof RANDAO_CHAIN_LENGTH seed" "revealed c = k" "commitment s = chain_step xof r"
      "reveals_used s = k" "c = (generate xof seed)\<lparr> revealed := k \<rparr>"
    using assms(1) d by (simp_all add: chain_in_step_def generate_def r_def)
  have "peek_reveal c = Some r"
    using assms(2) c d(2,3) by (simp add: peek_reveal_def checked_fits chain_values_nth r_def)
  moreover have "verify_and_advance xof s r = Inr \<lparr> commitment = r, reveals_used = Suc k \<rparr>"
    using assms(2) c by (simp add: verify_and_advance_def is_exhausted_def checked_fits RANDAO_CHAIN_LENGTH_def u32_max_def)
  ultimately show ?thesis
    using assms c(2,5) d(2) by (simp add: next_reveal_def process_reveal_def chain_in_step_def r_def)
qed

text \<open>C39. The beacon walks the whole chain: a validator that registers the commitment of a generated chain has every
  reveal it produces accepted, up to the chain length; each reveal becomes the commitment the next one opens, the last
  one is the seed, and after it no reveal is produced and none is accepted.\<close>

theorem chain_walks_to_seed:
  assumes "n \<le> RANDAO_CHAIN_LENGTH"
  shows "\<exists>c s m'. propose_slots xof sha3 n (generate xof seed, register (chain_commitment (generate xof seed)), m) = Some (c, s, m') \<and>
    commitment s = (chain_step xof ^^ (RANDAO_CHAIN_LENGTH - n)) seed \<and> reveals_used s = n \<and>
    remaining c = RANDAO_CHAIN_LENGTH - n \<and>
    (n = RANDAO_CHAIN_LENGTH \<longrightarrow> commitment s = seed \<and> peek_reveal c = None \<and>
       (\<forall>r. verify_and_advance xof s r = Inl ChainExhausted))"
proof -
  have run: "\<exists>c' s' m'. propose_slots xof sha3 j (c, s, m) = Some (c', s', m') \<and> chain_in_step xof seed (k + j) c' s'"
    if "chain_in_step xof seed k c s" "k + j \<le> RANDAO_CHAIN_LENGTH" for j k c s m
    using that
  proof (induction j arbitrary: k c s m)
    case (Suc j)
    obtain r c1 s1 where one: "next_reveal c = (Some r, c1)" "process_reveal xof sha3 s m r = Inr (s1, mix_in sha3 m r)"
        "chain_in_step xof seed (Suc k) c1 s1"
      using propose_one [OF Suc.prems(1), of sha3 m] Suc.prems(2) by auto
    then show ?case
      using Suc.IH [OF one(3), of "mix_in sha3 m r"] Suc.prems(2) by simp
  qed simp
  obtain c s m' where r: "propose_slots xof sha3 n (generate xof seed, register (chain_commitment (generate xof seed)), m) = Some (c, s, m')"
      "chain_in_step xof seed n c s"
    using run [OF chain_in_step_start, of n m] assms by auto
  then show ?thesis
    by (simp add: chain_in_step_def remaining_def peek_reveal_def verify_and_advance_def is_exhausted_def)
qed

theorem chain_walks_to_seed_witness:
  "\<exists>c s m'. propose_slots toy_xof (\<lambda>_. []) 2 (generate toy_xof [7], register (chain_commitment (generate toy_xof [7])), []) = Some (c, s, m') \<and>
    remaining c = 8190"
  using chain_walks_to_seed [of 2 toy_xof "\<lambda>_. []" "[7]" "[]"] by (auto simp: RANDAO_CHAIN_LENGTH_def)

section \<open>Verification is binding\<close>

definition reveal_inv :: "reveal_state \<Rightarrow> bool" where
  "reveal_inv s = (reveals_used s \<le> RANDAO_CHAIN_LENGTH)"

lemma verify_and_advance_Inr:
  "verify_and_advance xof s r = Inr s' \<longleftrightarrow> reveals_used s < RANDAO_CHAIN_LENGTH \<and> chain_step xof r = commitment s \<and>
     s' = \<lparr> commitment = r, reveals_used = reveals_used s + 1 \<rparr>"
  by (auto simp: verify_and_advance_def is_exhausted_def checked_add_def RANDAO_CHAIN_LENGTH_def u32_max_def)

interpretation reveals: fallible_progress "verify_and_advance xof" reveal_inv "\<lambda>s s'. reveals_used s \<le> reveals_used s'" for xof
  by unfold_locales (auto simp: verify_and_advance_Inr reveal_inv_def)

text \<open>Reveals are binding: against one committed state two accepted sequences of equally many reveals are the
  same sequence, or two of their reveals of one position collide under the chain hash; and no accepted sequence goes beyond the chain length.\<close>

theorem reveals_binding:
  assumes "reveals_used s \<le> RANDAO_CHAIN_LENGTH"
    and "run_until_error (verify_and_advance xof) s rs = Inr s1" "run_until_error (verify_and_advance xof) s rs' = Inr s2"
    and "length rs = length rs'"
  shows "(rs = rs' \<or> (\<exists>i < length rs. rs ! i \<noteq> rs' ! i \<and> chain_step xof (rs ! i) = chain_step xof (rs' ! i))) \<and>
    length rs \<le> RANDAO_CHAIN_LENGTH - reveals_used s"
proof
  show "rs = rs' \<or> (\<exists>i < length rs. rs ! i \<noteq> rs' ! i \<and> chain_step xof (rs ! i) = chain_step xof (rs' ! i))"
    using assms(4,2,3)
  proof (induction rs rs' arbitrary: s rule: list_induct2)
    case (Cons r rs r' rs')
    obtain t t' where t: "verify_and_advance xof s r = Inr t" "run_until_error (verify_and_advance xof) t rs = Inr s1"
        "verify_and_advance xof s r' = Inr t'" "run_until_error (verify_and_advance xof) t' rs' = Inr s2"
      using Cons.prems by (auto split: sum.splits)
    have "chain_step xof r = chain_step xof r'"
      using t(1,3) by (simp add: verify_and_advance_Inr)
    moreover have "t = t'" if "r = r'"
      using that t(1,3) by simp
    ultimately show ?case
      using Cons.IH [of t] t by (cases "r = r'") (auto simp: Ex_less_Suc2)
  qed simp
  have "reveals_used s1 = reveals_used s + length rs"
    using assms(2) by (induction rs arbitrary: s) (auto simp: verify_and_advance_Inr split: sum.splits)
  moreover have "reveal_inv s1"
    using reveals.run_inv [OF _ assms(2)] assms(1) by (simp add: reveal_inv_def)
  ultimately show "length rs \<le> RANDAO_CHAIN_LENGTH - reveals_used s"
    by (simp add: reveal_inv_def)
qed

text \<open>The stream of the witness repeats the first byte of its seed, so that a constant value opens
  itself.\<close>

theorem reveals_binding_witness:
  "\<exists>s1. run_until_error (verify_and_advance (\<lambda>seed pos. hd seed)) \<lparr> commitment = replicate 32 5, reveals_used = 8191 \<rparr>
      [replicate 32 5] = Inr s1 \<and> length [replicate 32 (5 :: byte)] \<le> RANDAO_CHAIN_LENGTH - 8191"
proof -
  let ?xof = "\<lambda>seed pos. hd seed" and ?s = "\<lparr> commitment = replicate 32 5, reveals_used = 8191 \<rparr>"
  have "verify_and_advance ?xof ?s (replicate 32 5) = Inr \<lparr> commitment = replicate 32 5, reveals_used = 8192 \<rparr>"
    by (simp add: verify_and_advance_Inr chain_step_def RANDAO_CHAIN_LENGTH_def map_replicate_const)
  then have run: "run_until_error (verify_and_advance ?xof) ?s [replicate 32 5] = Inr \<lparr> commitment = replicate 32 5, reveals_used = 8192 \<rparr>"
    by simp
  have "reveals_used ?s \<le> RANDAO_CHAIN_LENGTH"
    by (simp add: RANDAO_CHAIN_LENGTH_def)
  from reveals_binding [OF this run run refl] run show ?thesis
    by simp
qed

text \<open>The two uses of the domain tag have preimages of different lengths, and each is injective.\<close>

lemma randao_preimages:
  assumes "length m = 32" "length r = 32" "length c = 32"
  shows "mix_preimage m r \<noteq> recommit_preimage v e c"
proof
  assume "mix_preimage m r = recommit_preimage v e c"
  then have "length (mix_preimage m r) = length (recommit_preimage v e c)"
    by simp
  then show False
    using assms by (simp add: mix_preimage_def recommit_preimage_def)
qed

lemma mix_preimage_inject:
  "length m = 32 \<Longrightarrow> length m' = 32 \<Longrightarrow> mix_preimage m r = mix_preimage m' r' \<longleftrightarrow> m = m' \<and> r = r'"
  by (auto simp: mix_preimage_def)

lemma recommit_preimage_inject:
  assumes "v \<le> u32_max" "v' \<le> u32_max" "e \<le> u64_max" "e' \<le> u64_max"
  shows "recommit_preimage v e c = recommit_preimage v' e' c' \<longleftrightarrow> v = v' \<and> e = e' \<and> c = c'"
  using assms le_bytes_inject [of v 4 v'] le_bytes_inject [of e 8 e']
  by (auto simp: recommit_preimage_def u32_max_def u64_max_def)

end
