(* ===== verification/Header.thy ===== *)
theory Header
  imports Attestation
begin

text \<open>
  The block header and its canonical bytes (\<^verbatim>\<open>bloch-pos-committee/src/header.rs\<close>): the fixed-width
  encoding, its strict decoder, the block identity and the proposal signing roots.  SHA3-256 is the
  parameter \<open>sha3\<close>.
\<close>

section \<open>Data\<close>

definition DS_BLOCK :: bytes where
  "DS_BLOCK = domain_tag ''BLCH4:BLOCK''"

definition DS_PROPOSE :: bytes where
  "DS_PROPOSE = domain_tag ''BLCH4:PROPOSE''"

definition VERSION_G4 :: u32 where
  "VERSION_G4 = 2970353669"

record block_header =
  version :: u32
  parent :: hash32
  state_root :: hash32
  body_root :: hash32
  block_slot :: u64
  proposer_index :: u32
  randao_reveal :: hash32
  randao_mix :: hash32
  justified_root :: hash32
  finalized_root :: hash32
  attestation_root :: hash32
  coherence_root :: hash32

datatype decode_error = WrongLength usize

record attestation =
  att_data :: attestation_data
  att_validator :: u32
  att_signature :: bytes

record block_body =
  transactions :: "bytes list"
  attestations :: "attestation list"

record block_envelope =
  env_header :: block_header
  proposer_sig :: bytes
  env_body :: block_body

section \<open>Operations\<close>

definition ENCODED_LEN :: usize where
  "ENCODED_LEN = 304"

definition canonical_serialize :: "block_header \<Rightarrow> bytes" where
  "canonical_serialize h =
     le_bytes 4 (version h) @ parent h @ state_root h @ body_root h @ le_bytes 8 (block_slot h)
     @ le_bytes 4 (proposer_index h) @ randao_reveal h @ randao_mix h @ justified_root h @ finalized_root h
     @ attestation_root h @ coherence_root h"

definition byte_slice :: "nat \<Rightarrow> nat \<Rightarrow> 'a list \<Rightarrow> 'a list" where
  "byte_slice i j xs = take (j - i) (drop i xs)"

definition canonical_deserialize :: "bytes \<Rightarrow> decode_error + block_header" where
  "canonical_deserialize bs =
     (if length bs \<noteq> ENCODED_LEN then Inl (WrongLength (length bs))
      else Inr \<lparr> version = le_value (byte_slice 0 4 bs), parent = byte_slice 4 36 bs, state_root = byte_slice 36 68 bs,
        body_root = byte_slice 68 100 bs, block_slot = le_value (byte_slice 100 108 bs),
        proposer_index = le_value (byte_slice 108 112 bs), randao_reveal = byte_slice 112 144 bs,
        randao_mix = byte_slice 144 176 bs, justified_root = byte_slice 176 208 bs, finalized_root = byte_slice 208 240 bs,
        attestation_root = byte_slice 240 272 bs, coherence_root = byte_slice 272 304 bs \<rparr>)"

definition block_id_of :: "(bytes \<Rightarrow> hash32) \<Rightarrow> block_header \<Rightarrow> hash32" where
  "block_id_of sha3 h = sha3 (DS_BLOCK @ canonical_serialize h)"

definition proposal_signing_root :: "(bytes \<Rightarrow> hash32) \<Rightarrow> block_header \<Rightarrow> hash32" where
  "proposal_signing_root sha3 h = sha3 (DS_PROPOSE @ canonical_serialize h)"

definition network_bound_proposal_signing_root :: "(bytes \<Rightarrow> hash32) \<Rightarrow> block_header \<Rightarrow> hash32 \<Rightarrow> hash32" where
  "network_bound_proposal_signing_root sha3 h network_domain =
     sha3 (DS_NETSIG2 @ network_domain @ proposal_signing_root sha3 h)"

section \<open>The codec\<close>

text \<open>The value ranges the Rust types impose on the fields.\<close>

definition header_ok :: "block_header \<Rightarrow> bool" where
  "header_ok h = (version h \<le> u32_max \<and> block_slot h \<le> u64_max \<and> proposer_index h \<le> u32_max \<and>
     list_all (\<lambda>r. length r = 32) [parent h, state_root h, body_root h, randao_reveal h, randao_mix h, justified_root h,
       finalized_root h, attestation_root h, coherence_root h])"

lemma slice_append [simp]:
  "length xs = i \<Longrightarrow> byte_slice i j (xs @ ys) = take (j - i) ys"
  "i \<le> j \<Longrightarrow> j = length xs \<Longrightarrow> byte_slice i j (xs @ ys) = drop i xs"
  by (simp_all add: byte_slice_def)

lemma length_slice: "j \<le> length xs \<Longrightarrow> length (byte_slice i j xs) = j - i"
  by (simp add: byte_slice_def)

lemma slice_join: "i \<le> j \<Longrightarrow> byte_slice i j xs @ drop j xs = drop i xs"
  unfolding byte_slice_def by (metis append_take_drop_id drop_drop le_add_diff_inverse2)

lemma u_bytes: "n \<le> u32_max \<longleftrightarrow> n < 256 ^ 4" "n \<le> u64_max \<longleftrightarrow> n < 256 ^ 8"
  by (auto simp: u32_max_def u64_max_def)

lemma length_canonical_serialize: "header_ok h \<Longrightarrow> length (canonical_serialize h) = 304"
  by (simp add: header_ok_def canonical_serialize_def)

lemma deserialize_serialize:
  assumes "header_ok h"
  shows "canonical_deserialize (canonical_serialize h) = Inr h"
proof -
  have len: "length (parent h) = 32" "length (state_root h) = 32" "length (body_root h) = 32" "length (randao_reveal h) = 32"
      "length (randao_mix h) = 32" "length (justified_root h) = 32" "length (finalized_root h) = 32"
      "length (attestation_root h) = 32" "length (coherence_root h) = 32"
    using assms by (simp_all add: header_ok_def)
  have le: "le_value (le_bytes 4 (version h)) = version h" "le_value (le_bytes 8 (block_slot h)) = block_slot h"
      "le_value (le_bytes 4 (proposer_index h)) = proposer_index h"
    using assms by (simp_all add: header_ok_def u_bytes le_bytes_roundtrip)
  show ?thesis
    unfolding canonical_deserialize_def ENCODED_LEN_def
    using length_canonical_serialize [OF assms] by (simp add: canonical_serialize_def byte_slice_def len le)
qed

lemma serialize_deserialize:
  assumes "canonical_deserialize bs = Inr h"
  shows "header_ok h" "canonical_serialize h = bs"
proof -
  have len: "length bs = 304"
    using assms by (simp add: canonical_deserialize_def ENCODED_LEN_def split: if_splits)
  have h: "h = \<lparr> version = le_value (byte_slice 0 4 bs), parent = byte_slice 4 36 bs, state_root = byte_slice 36 68 bs,
        body_root = byte_slice 68 100 bs, block_slot = le_value (byte_slice 100 108 bs),
        proposer_index = le_value (byte_slice 108 112 bs), randao_reveal = byte_slice 112 144 bs,
        randao_mix = byte_slice 144 176 bs, justified_root = byte_slice 176 208 bs, finalized_root = byte_slice 208 240 bs,
        attestation_root = byte_slice 240 272 bs, coherence_root = byte_slice 272 304 bs \<rparr>"
    using assms by (simp add: canonical_deserialize_def len ENCODED_LEN_def)
  have bound: "le_value (byte_slice i j bs) < 256 ^ (j - i)" if "j \<le> 304" for i j
    using le_value_bound [of "byte_slice i j bs"] that by (simp add: length_slice len)
  show "header_ok h"
    using bound [of 4 0] bound [of 108 100] bound [of 112 108]
    by (simp add: header_ok_def h u_bytes length_slice len)
  have int: "le_bytes (j - i) (le_value (byte_slice i j bs)) = byte_slice i j bs" if "j \<le> 304" for i j
    using that by (intro le_bytes_le_value) (simp add: length_slice len)
  have "byte_slice 0 4 bs @ byte_slice 4 36 bs @ byte_slice 36 68 bs @ byte_slice 68 100 bs @ byte_slice 100 108 bs @ byte_slice 108 112 bs
      @ byte_slice 112 144 bs @ byte_slice 144 176 bs @ byte_slice 176 208 bs @ byte_slice 208 240 bs @ byte_slice 240 272 bs @ byte_slice 272 304 bs
      @ drop 304 bs = drop 0 bs"
    by (simp only: slice_join)
  then show "canonical_serialize h = bs"
    using int [of 4 0] int [of 108 100] int [of 112 108] by (simp add: canonical_serialize_def h len)
qed

text \<open>C28. The header codec is a bijection: decoding the canonical bytes of a header gives it back, whatever decodes
  re-encodes to the same bytes, so no header has a second encoding, and exactly the inputs of another length than 304 are
  refused, with their length.\<close>

theorem header_codec:
  "(header_ok h \<longrightarrow> canonical_deserialize (canonical_serialize h) = Inr h) \<and>
   (canonical_deserialize bs = Inr h \<longleftrightarrow> header_ok h \<and> canonical_serialize h = bs) \<and>
   (canonical_deserialize bs = Inl e \<longleftrightarrow> length bs \<noteq> 304 \<and> e = WrongLength (length bs))"
proof (intro conjI)
  show "canonical_deserialize bs = Inr h \<longleftrightarrow> header_ok h \<and> canonical_serialize h = bs"
    using deserialize_serialize serialize_deserialize by blast
  show "canonical_deserialize bs = Inl e \<longleftrightarrow> length bs \<noteq> 304 \<and> e = WrongLength (length bs)"
    by (auto simp: canonical_deserialize_def ENCODED_LEN_def)
qed (simp add: deserialize_serialize)

definition demo_header :: block_header where
  "demo_header = \<lparr> version = VERSION_G4, parent = replicate 32 1, state_root = replicate 32 2, body_root = replicate 32 3,
     block_slot = 42, proposer_index = 7, randao_reveal = replicate 32 4, randao_mix = replicate 32 5,
     justified_root = replicate 32 6, finalized_root = replicate 32 7, attestation_root = replicate 32 8,
     coherence_root = replicate 32 9 \<rparr>"

lemma demo_header_ok: "header_ok demo_header"
  by (simp add: header_ok_def demo_header_def VERSION_G4_def u32_max_def u64_max_def)

theorem header_codec_witness: "canonical_deserialize (canonical_serialize demo_header) = Inr demo_header"
  using header_codec [of demo_header] demo_header_ok by simp

text \<open>The identity binds every field: equal identities of two headers exhibit a collision.\<close>

lemma block_id_binding:
  assumes "header_ok h" "header_ok h'" "block_id_of sha3 h = block_id_of sha3 h'" "h \<noteq> h'"
  shows "collides_in sha3 [DS_BLOCK @ canonical_serialize h, DS_BLOCK @ canonical_serialize h']"
proof -
  have "canonical_serialize h \<noteq> canonical_serialize h'"
    using assms deserialize_serialize by (metis sum.inject(2))
  then show ?thesis
    using assms(3) by (simp add: block_id_of_def collides_in_def)
qed

lemma signing_roots_separated: "DS_BLOCK @ canonical_serialize h \<noteq> DS_PROPOSE @ canonical_serialize h'"
  by (simp add: DS_BLOCK_def DS_PROPOSE_def domain_tag_def ascii_def)

end
