(* ===== verification/Kes.thy ===== *)
theory Kes
  imports Header
begin

text \<open>
  Key-evolving signatures (\<^verbatim>\<open>bloch-pos-committee/src/kes.rs\<close>) and the signature interface they and the
  static keys are verified through (\<^verbatim>\<open>SignatureVerifier\<close>, \<^verbatim>\<open>SignaturePolicy\<close>,
  \<^verbatim>\<open>PolicyVerifier\<close>, \<^verbatim>\<open>KeyLookup\<close> and \<^verbatim>\<open>validate\<close> of
  \<^verbatim>\<open>attestation.rs\<close>).

  A Rust trait object is a record of its methods: what the node's cryptography decides is a field of
  \<open>signature_verifier\<close>, what a registry answers a field of \<open>key_lookup\<close>.  The compiled gates are the
  records \<open>kes_schedule\<close> and \<open>signature_gates\<close>; their shipped values are \<open>shipped_kes_schedule\<close> and
  \<open>shipped_signature_gates\<close>.
\<close>

section \<open>Gates\<close>

definition KES_KEY_HISTORY_PERIODS :: u64 where
  "KES_KEY_HISTORY_PERIODS = 365"

definition KES_PERIOD_EPOCHS :: u64 where
  "KES_PERIOD_EPOCHS = 90"

definition KES_MIN_REGISTERED_DEPTH :: nat where
  "KES_MIN_REGISTERED_DEPTH = 8"

record kes_schedule =
  registration_epoch :: u64
  activation_epoch :: u64
  period_epochs :: u64
  min_depth :: nat

definition shipped_kes_schedule :: kes_schedule where
  "shipped_kes_schedule = \<lparr> registration_epoch = u64_max, activation_epoch = u64_max,
     period_epochs = KES_PERIOD_EPOCHS, min_depth = KES_MIN_REGISTERED_DEPTH \<rparr>"

definition kes_period :: "kes_schedule \<Rightarrow> u64 \<Rightarrow> u64 option" where
  "kes_period sch epoch = (if epoch_gate_active epoch (activation_epoch sch)
     then Some ((epoch - activation_epoch sch) div period_epochs sch) else None)"

record signature_gates =
  sig_canonical_activation_epoch :: u64
  mldsa_pin_activation_epoch :: u64

definition shipped_signature_gates :: signature_gates where
  "shipped_signature_gates = \<lparr> sig_canonical_activation_epoch = u64_max, mldsa_pin_activation_epoch = u64_max \<rparr>"

definition sig_canonical_active :: "signature_gates \<Rightarrow> u64 \<Rightarrow> bool" where
  "sig_canonical_active g epoch = epoch_gate_active epoch (sig_canonical_activation_epoch g)"

definition mldsa_pin_active :: "signature_gates \<Rightarrow> u64 \<Rightarrow> bool" where
  "mldsa_pin_active g epoch = epoch_gate_active epoch (mldsa_pin_activation_epoch g)"

section \<open>The signature interface\<close>

datatype signature_policy = Compatible | CompatiblePinned | CanonicalUnbound | Bound

definition policy_consensus :: "signature_gates \<Rightarrow> u64 \<Rightarrow> signature_policy" where
  "policy_consensus g epoch =
     (if sig_canonical_active g epoch then Bound
      else if mldsa_pin_active g epoch then CompatiblePinned else Compatible)"

fun strictest :: "signature_policy \<Rightarrow> signature_policy \<Rightarrow> signature_policy" where
  "strictest Bound _ = Bound"
| "strictest _ Bound = Bound"
| "strictest CanonicalUnbound _ = CanonicalUnbound"
| "strictest _ CanonicalUnbound = CanonicalUnbound"
| "strictest CompatiblePinned _ = CompatiblePinned"
| "strictest _ CompatiblePinned = CompatiblePinned"
| "strictest Compatible Compatible = Compatible"

fun policy_tag :: "signature_policy \<Rightarrow> nat" where
  "policy_tag Compatible = 0"
| "policy_tag CanonicalUnbound = 1"
| "policy_tag Bound = 2"
| "policy_tag CompatiblePinned = 3"

record kes_public =
  depth :: nat
  root :: hash32
  start_period :: u64

record signature_verifier =
  verify_with_key :: "bytes \<Rightarrow> hash32 \<Rightarrow> bytes \<Rightarrow> bool"
  verify_with_key_under :: "signature_policy \<Rightarrow> bytes \<Rightarrow> hash32 \<Rightarrow> bytes \<Rightarrow> bool"
  verify_kes :: "kes_public \<Rightarrow> u64 \<Rightarrow> hash32 \<Rightarrow> bytes \<Rightarrow> bool"
  verify_kes_leaf :: "bytes \<Rightarrow> hash32 \<Rightarrow> bytes \<Rightarrow> bool"

definition policy_verifier :: "signature_verifier \<Rightarrow> signature_policy \<Rightarrow> signature_verifier" where
  "policy_verifier inner policy = \<lparr>
     verify_with_key = verify_with_key_under inner policy,
     verify_with_key_under = (\<lambda>p. verify_with_key_under inner (strictest policy p)),
     verify_kes = verify_kes inner,
     verify_kes_leaf = verify_kes_leaf inner \<rparr>"

definition policy_verifier_consensus :: "signature_gates \<Rightarrow> signature_verifier \<Rightarrow> u64 \<Rightarrow> signature_verifier" where
  "policy_verifier_consensus g inner epoch = policy_verifier inner (policy_consensus g epoch)"

section \<open>Hashing and trees\<close>

definition DS_STEP :: bytes where
  "DS_STEP = ascii ''BLOCH-KES-v1/step''"

definition DS_LEAF :: bytes where
  "DS_LEAF = ascii ''BLOCH-KES-v1/leaf''"

definition DS_PK :: bytes where
  "DS_PK = ascii ''BLOCH-KES-v1/pk''"

definition DS_NODE :: bytes where
  "DS_NODE = ascii ''BLOCH-KES-v1/node''"

definition DS_REGISTER :: bytes where
  "DS_REGISTER = ascii ''BLOCH-KES-v1/register''"

definition DS_SIGN :: bytes where
  "DS_SIGN = ascii ''BLOCH-KES-v2/sign''"

definition DS_AUTHORITY :: bytes where
  "DS_AUTHORITY = ascii ''BLOCH-KES-v1/authority''"

definition DS_ROTATE :: bytes where
  "DS_ROTATE = ascii ''BLOCH-KES-v1/rotate''"

definition SIGNATURE_MAGIC :: bytes where
  "SIGNATURE_MAGIC = ascii ''KES1''"

definition MIN_DEPTH :: nat where
  "MIN_DEPTH = 1"

definition MAX_DEPTH :: nat where
  "MAX_DEPTH = 16"

definition MAX_LEAF_PK_LEN :: usize where
  "MAX_LEAF_PK_LEN = 3749"

definition HYBRID_SIGNATURE_MAX :: usize where
  "HYBRID_SIGNATURE_MAX = 4 + 3309 + 1462"

definition MAX_LEAF_SIG_LEN :: usize where
  "MAX_LEAF_SIG_LEN = HYBRID_SIGNATURE_MAX"

definition MAX_SIGNATURE_LEN :: usize where
  "MAX_SIGNATURE_LEN = 4 + 4 + 4 + MAX_LEAF_PK_LEN + 4 + MAX_LEAF_SIG_LEN + 1 + 32 * MAX_DEPTH"

lemmas kes_consts = SIGNATURE_MAGIC_def MAX_DEPTH_def MAX_LEAF_PK_LEN_def HYBRID_SIGNATURE_MAX_def
  MAX_LEAF_SIG_LEN_def MAX_SIGNATURE_LEN_def

definition hash_parts :: "digest \<Rightarrow> bytes list \<Rightarrow> hash32" where
  "hash_parts sha3 parts = sha3 (concat parts)"

definition kes_step :: "digest \<Rightarrow> hash32 \<Rightarrow> hash32" where
  "kes_step sha3 seed = hash_parts sha3 [DS_STEP, seed]"

definition leaf_seed :: "digest \<Rightarrow> hash32 \<Rightarrow> hash32" where
  "leaf_seed sha3 seed = hash_parts sha3 [DS_LEAF, seed]"

definition leaf_hash :: "digest \<Rightarrow> bytes \<Rightarrow> hash32" where
  "leaf_hash sha3 pk = hash_parts sha3 [DS_PK, pk]"

definition node_hash :: "digest \<Rightarrow> hash32 \<Rightarrow> hash32 \<Rightarrow> hash32" where
  "node_hash sha3 l r = hash_parts sha3 [DS_NODE, l, r]"

text \<open>One level of the tree: \<open>chunks(2)\<close>, where a last chunk of one element makes \<open>c[1]\<close> panic.\<close>

fun pair_level :: "digest \<Rightarrow> hash32 list \<Rightarrow> hash32 list option" where
  "pair_level sha3 [] = Some []"
| "pair_level sha3 [x] = None"
| "pair_level sha3 (x # y # xs) = do { rest \<leftarrow> pair_level sha3 xs; Some (node_hash sha3 x y # rest) }"

lemma length_pair_level: "pair_level sha3 xs = Some ys \<Longrightarrow> length xs = 2 * length ys"
  by (induction sha3 xs arbitrary: ys rule: pair_level.induct) (auto split: bind_splits)

lemma pair_level_shorter: "pair_level sha3 xs = Some ys \<Longrightarrow> Suc 0 < length xs \<Longrightarrow> length ys < length xs"
  by (drule length_pair_level) linarith

function merkle_root :: "digest \<Rightarrow> hash32 list \<Rightarrow> hash32 option" where
  "merkle_root sha3 level =
     (if length level > 1 then (case pair_level sha3 level of None \<Rightarrow> None | Some level' \<Rightarrow> merkle_root sha3 level')
      else Some (case level of [] \<Rightarrow> replicate 32 0 | x # _ \<Rightarrow> x))"
  by pat_completeness auto
termination
  by (relation "measure (length \<circ> snd)") (auto dest: pair_level_shorter)

function auth_path :: "digest \<Rightarrow> hash32 list \<Rightarrow> nat \<Rightarrow> hash32 list option" where
  "auth_path sha3 level i =
     (if length level > 1 then
        let sibling = (if even i then i + 1 else i - 1) in
        if sibling < length level then
          (case pair_level sha3 level of None \<Rightarrow> None
           | Some level' \<Rightarrow> do { path \<leftarrow> auth_path sha3 level' (i div 2); Some (level ! sibling # path) })
        else None
      else Some [])"
  by pat_completeness auto
termination
  by (relation "measure (\<lambda>(_, level, _). length level)") (auto dest: pair_level_shorter)

declare merkle_root.simps [simp del] auth_path.simps [simp del]

section \<open>Keys and their history\<close>

definition periods :: "kes_public \<Rightarrow> u64" where
  "periods k = 2 ^ min (depth k) MAX_DEPTH"

definition leaf_index :: "kes_public \<Rightarrow> u64 \<Rightarrow> u64 option" where
  "leaf_index k period =
     (if \<not> (MIN_DEPTH \<le> depth k \<and> depth k \<le> MAX_DEPTH) then None
      else case checked_sub period (start_period k) of
        None \<Rightarrow> None | Some leaf \<Rightarrow> if leaf < periods k then Some leaf else None)"

definition end_period :: "kes_public \<Rightarrow> u64" where
  "end_period k = saturating_add u64_max (start_period k) (periods k)"

definition public_bytes :: "kes_public \<Rightarrow> bytes" where
  "public_bytes k = [of_nat (depth k)] @ root k @ le_bytes 8 (start_period k)"

record retired_kes =
  retired_public :: kes_public
  retired_end :: u64

definition covers :: "retired_kes \<Rightarrow> u64 \<Rightarrow> bool" where
  "covers r period = (period \<ge> start_period (retired_public r) \<and> period < retired_end r)"

record kes_entry =
  current :: kes_public
  next_key :: "kes_public option"
  retired :: "retired_kes list"

definition entry_of :: "kes_public \<Rightarrow> kes_entry" where
  "entry_of k = \<lparr> current = k, next_key = None, retired = [] \<rparr>"

definition RETIRED_SECTION_TAG :: byte where
  "RETIRED_SECTION_TAG = 255"

definition retired_at :: "retired_kes list \<Rightarrow> u64 \<Rightarrow> kes_public option" where
  "retired_at rs period = map_option retired_public (find (\<lambda>r. covers r period) (rev rs))"

definition in_force_after_next :: "kes_entry \<Rightarrow> u64 \<Rightarrow> kes_public" where
  "in_force_after_next e period =
     (if period \<ge> start_period (current e) then current e
      else case retired_at (retired e) period of Some k \<Rightarrow> k | None \<Rightarrow> current e)"

definition in_force :: "kes_entry \<Rightarrow> u64 \<Rightarrow> kes_public" where
  "in_force e period = (case next_key e of
     Some k \<Rightarrow> if period \<ge> start_period k then k else in_force_after_next e period
   | None \<Rightarrow> in_force_after_next e period)"

definition prune :: "kes_entry \<Rightarrow> u64 \<Rightarrow> kes_entry" where
  "prune e period = (let keep_from = saturating_sub period KES_KEY_HISTORY_PERIODS
     in e\<lparr> retired := filter (\<lambda>r. retired_end r > keep_from) (retired e) \<rparr>)"

definition settled :: "kes_entry \<Rightarrow> u64 \<Rightarrow> kes_entry" where
  "settled e period = prune (case next_key e of
     Some k \<Rightarrow> if period \<ge> start_period k
       then \<lparr> current = k, next_key = None,
              retired = retired e @ [\<lparr> retired_public = current e, retired_end = start_period k \<rparr>] \<rparr>
       else e
   | None \<Rightarrow> e) period"

definition replaced_by :: "kes_entry \<Rightarrow> kes_public \<Rightarrow> u64 \<Rightarrow> kes_entry" where
  "replaced_by e fresh period = prune \<lparr> current = fresh, next_key = None, retired = retired e @ (case next_key e of
       Some k \<Rightarrow> [\<lparr> retired_public = current e, retired_end = start_period k \<rparr>,
                   \<lparr> retired_public = k, retired_end = min (end_period k) (start_period fresh) \<rparr>]
     | None \<Rightarrow> [\<lparr> retired_public = current e, retired_end = min (end_period (current e)) (start_period fresh) \<rparr>]) \<rparr> period"

definition pending_at :: "kes_entry \<Rightarrow> u64 \<Rightarrow> kes_public option" where
  "pending_at e period = (case next_key e of
     Some k \<Rightarrow> if start_period k > period then Some k else None | None \<Rightarrow> None)"

definition entry_bytes :: "kes_entry \<Rightarrow> bytes" where
  "entry_bytes e = public_bytes (current e)
     @ (case next_key e of Some k \<Rightarrow> public_bytes k | None \<Rightarrow> [])
     @ (if retired e \<noteq> [] then [RETIRED_SECTION_TAG] @ le_bytes 4 (length (retired e))
          @ concat (map (\<lambda>r. public_bytes (retired_public r) @ le_bytes 8 (retired_end r)) (retired e)) else [])"

section \<open>Signatures\<close>

record kes_signature =
  sig_index :: u32
  leaf_pk :: bytes
  leaf_sig :: bytes
  path :: "hash32 list"

definition kes_encode :: "kes_signature \<Rightarrow> bytes" where
  "kes_encode s = SIGNATURE_MAGIC @ le_bytes 4 (sig_index s) @ le_bytes 4 (length (leaf_pk s)) @ leaf_pk s
     @ le_bytes 4 (length (leaf_sig s)) @ leaf_sig s @ [of_nat (length (path s))] @ concat (path s)"

text \<open>The cursor of the decoder is the list of the bytes it has not taken yet.\<close>

definition take_bytes :: "usize \<Rightarrow> bytes \<Rightarrow> (bytes \<times> bytes) option" where
  "take_bytes n rest = (if n \<le> length rest then Some (take n rest, drop n rest) else None)"

fun take_path :: "nat \<Rightarrow> bytes \<Rightarrow> (hash32 list \<times> bytes) option" where
  "take_path 0 rest = Some ([], rest)"
| "take_path (Suc n) rest = do {
     (x, rest) \<leftarrow> take_bytes 32 rest;
     (xs, rest) \<leftarrow> take_path n rest;
     Some (x # xs, rest)
   }"

definition kes_decode :: "bytes \<Rightarrow> kes_signature option" where
  "kes_decode bs =
     (if length bs > MAX_SIGNATURE_LEN \<or> take 4 bs \<noteq> SIGNATURE_MAGIC then None
      else do {
        (idx, rest) \<leftarrow> take_bytes 4 (drop 4 bs);
        (pk_len, rest) \<leftarrow> take_bytes 4 rest;
        if le_value pk_len > MAX_LEAF_PK_LEN then None else do {
        (pk, rest) \<leftarrow> take_bytes (le_value pk_len) rest;
        (sig_len, rest) \<leftarrow> take_bytes 4 rest;
        if le_value sig_len > MAX_LEAF_SIG_LEN then None else do {
        (sig, rest) \<leftarrow> take_bytes (le_value sig_len) rest;
        (d, rest) \<leftarrow> take_bytes 1 rest;
        if unat (d ! 0) > MAX_DEPTH then None else do {
        (p, rest) \<leftarrow> take_path (unat (d ! 0)) rest;
        if rest = [] then Some \<lparr> sig_index = le_value idx, leaf_pk = pk, leaf_sig = sig, path = p \<rparr> else None
        }}}})"

fun climb :: "digest \<Rightarrow> hash32 \<Rightarrow> nat \<Rightarrow> hash32 list \<Rightarrow> hash32" where
  "climb sha3 node i [] = node"
| "climb sha3 node i (sib # sibs) =
     climb sha3 (if even i then node_hash sha3 node sib else node_hash sha3 sib node) (i div 2) sibs"

definition kes_verify :: "digest \<Rightarrow> signature_verifier \<Rightarrow> kes_public \<Rightarrow> u64 \<Rightarrow> hash32 \<Rightarrow> bytes \<Rightarrow> bool" where
  "kes_verify sha3 verifier k period message signature = (case leaf_index k period of
     None \<Rightarrow> False
   | Some leaf \<Rightarrow> (case kes_decode signature of
       None \<Rightarrow> False
     | Some s \<Rightarrow>
         if sig_index s \<noteq> leaf \<or> length (path s) \<noteq> depth k then False
         else climb sha3 (leaf_hash sha3 (leaf_pk s)) leaf (path s) = root k
              \<and> verify_kes_leaf verifier (leaf_pk s) message (leaf_sig s)))"

definition register_signing_root :: "digest \<Rightarrow> hash32 \<Rightarrow> u32 \<Rightarrow> kes_public \<Rightarrow> hash32" where
  "register_signing_root sha3 network_domain v k =
     hash_parts sha3 [DS_REGISTER, network_domain, le_bytes 4 v, [of_nat (depth k)], root k]"

definition rotate_signing_root :: "digest \<Rightarrow> hash32 \<Rightarrow> u32 \<Rightarrow> u64 \<Rightarrow> nat \<Rightarrow> hash32 \<Rightarrow> hash32" where
  "rotate_signing_root sha3 network_domain v period new_depth new_root =
     hash_parts sha3 [DS_ROTATE, network_domain, le_bytes 4 v, le_bytes 8 period, [of_nat new_depth], new_root]"

definition bound_signing_root :: "digest \<Rightarrow> hash32 \<Rightarrow> u32 \<Rightarrow> kes_public \<Rightarrow> u64 \<Rightarrow> hash32 \<Rightarrow> hash32" where
  "bound_signing_root sha3 network_domain v k period sroot =
     hash_parts sha3 [DS_SIGN, network_domain, le_bytes 4 v, [of_nat (depth k)], root k, le_bytes 8 period, sroot]"

definition leaf_message :: "digest \<Rightarrow> hash32 option \<Rightarrow> u32 \<Rightarrow> kes_public \<Rightarrow> u64 \<Rightarrow> hash32 \<Rightarrow> hash32 option" where
  "leaf_message sha3 network_domain v k period sroot =
     map_option (\<lambda>domain. bound_signing_root sha3 domain v k period sroot) network_domain"

section \<open>Verification of a validator's message\<close>

record key_lookup =
  pubkey :: "u32 \<Rightarrow> bytes option"
  kes_public_at :: "u32 \<Rightarrow> u64 \<Rightarrow> kes_public option"
  kes_network_domain :: "hash32 option"
  kes_enforced_from :: "u64 option option"

datatype signing_mode = Static | KesMode u64 | FailClosed

definition is_bound :: "kes_schedule \<Rightarrow> key_lookup \<Rightarrow> u64 \<Rightarrow> bool" where
  "is_bound sch keys epoch = (kes_period sch epoch \<noteq> None \<and>
     (case kes_enforced_from keys of Some (Some bound) \<Rightarrow> epoch \<ge> bound | _ \<Rightarrow> False))"

definition signing_mode_of :: "kes_schedule \<Rightarrow> key_lookup \<Rightarrow> u32 \<Rightarrow> u64 \<Rightarrow> signing_mode" where
  "signing_mode_of sch keys v epoch = (case kes_period sch epoch of
     None \<Rightarrow> Static
   | Some period \<Rightarrow>
       let by_key = (case kes_public_at keys v period of Some _ \<Rightarrow> KesMode period | None \<Rightarrow> Static) in
       (case kes_enforced_from keys of
         None \<Rightarrow> FailClosed
       | Some None \<Rightarrow> Static
       | Some (Some bound) \<Rightarrow> if epoch < bound then Static else by_key))"

definition verify_validator_in :: "digest \<Rightarrow> key_lookup \<Rightarrow> signature_verifier \<Rightarrow> u32 \<Rightarrow> u64 option \<Rightarrow> hash32 \<Rightarrow> bytes \<Rightarrow> bool option" where
  "verify_validator_in sha3 keys verifier v period sroot signature = do {
     static_key \<leftarrow> pubkey keys v;
     case period of
       None \<Rightarrow> Some (verify_with_key verifier static_key sroot signature)
     | Some p \<Rightarrow> (case kes_public_at keys v p of
         None \<Rightarrow> Some False
       | Some k \<Rightarrow> (case leaf_message sha3 (kes_network_domain keys) v k p sroot of
           None \<Rightarrow> Some False
         | Some message \<Rightarrow> Some (verify_kes verifier k p message signature)))
   }"

definition verify_validator :: "digest \<Rightarrow> kes_schedule \<Rightarrow> key_lookup \<Rightarrow> signature_verifier \<Rightarrow> u32 \<Rightarrow> u64 \<Rightarrow> hash32 \<Rightarrow> bytes \<Rightarrow> bool option" where
  "verify_validator sha3 sch keys verifier v epoch sroot signature = (case signing_mode_of sch keys v epoch of
     Static \<Rightarrow> verify_validator_in sha3 keys verifier v None sroot signature
   | KesMode period \<Rightarrow> verify_validator_in sha3 keys verifier v (Some period) sroot signature
   | FailClosed \<Rightarrow> do { _ \<leftarrow> pubkey keys v; Some False })"

definition authority_fingerprint :: "digest \<Rightarrow> kes_schedule \<Rightarrow> key_lookup \<Rightarrow> u32 \<Rightarrow> u64 \<Rightarrow> hash32 option" where
  "authority_fingerprint sha3 sch keys v epoch = do {
     static_key \<leftarrow> pubkey keys v;
     let static_hash = hash_parts sha3 [static_key];
     case signing_mode_of sch keys v epoch of
       Static \<Rightarrow> if is_bound sch keys epoch
         then Some (hash_parts sha3 [DS_AUTHORITY, static_hash, ascii ''static-fallback'']) else Some static_hash
     | FailClosed \<Rightarrow> Some (hash_parts sha3 [DS_AUTHORITY, static_hash, ascii ''fail-closed''])
     | KesMode period \<Rightarrow>
         let kes = (case kes_public_at keys v period of Some k \<Rightarrow> public_bytes k | None \<Rightarrow> []);
             domain = kes_network_domain keys
         in Some (hash_parts sha3 [DS_AUTHORITY, static_hash, le_bytes 4 (length kes), kes,
              [if domain \<noteq> None then 1 else 0], (case domain of Some d \<Rightarrow> d | None \<Rightarrow> replicate 32 0), le_bytes 8 period])
   }"

text \<open>The committee is sorted, so the binary search is membership.\<close>

datatype reject_reason = NotInCommittee | BadSignature | UnknownValidator | FutureSlot | NonMonotonicCheckpoints

definition validate :: "digest \<Rightarrow> kes_schedule \<Rightarrow> attestation \<Rightarrow> u32 list \<Rightarrow> u64 \<Rightarrow> signature_verifier \<Rightarrow> key_lookup \<Rightarrow> reject_reason + unit" where
  "validate sha3 sch att committee current_slot verifier keys =
     (if att_validator att \<notin> set committee then Inl NotInCommittee
      else if slot (att_data att) > current_slot then Inl FutureSlot
      else if source_epoch (att_data att) \<ge> target_epoch (att_data att) then Inl NonMonotonicCheckpoints
      else case verify_validator sha3 sch keys verifier (att_validator att) (target_epoch (att_data att))
          (signing_root sha3 (att_data att)) (att_signature att) of
        None \<Rightarrow> Inl UnknownValidator
      | Some False \<Rightarrow> Inl BadSignature
      | Some True \<Rightarrow> Inr ())"

section \<open>The signature codec\<close>

definition kes_signature_ok :: "kes_signature \<Rightarrow> bool" where
  "kes_signature_ok s = (sig_index s \<le> u32_max \<and> length (leaf_pk s) \<le> MAX_LEAF_PK_LEN \<and>
     length (leaf_sig s) \<le> MAX_LEAF_SIG_LEN \<and> length (path s) \<le> MAX_DEPTH \<and> list_all (\<lambda>x. length x = 32) (path s))"

lemma take_bytes_eq_Some: "take_bytes n rest = Some (a, b) \<longleftrightarrow> rest = a @ b \<and> length a = n"
  by (auto simp: take_bytes_def)

lemma take_bytes_append: "length a = n \<Longrightarrow> take_bytes n (a @ b) = Some (a, b)"
  by (simp add: take_bytes_eq_Some)

lemma take_path_eq_Some:
  "take_path n rest = Some (xs, b) \<longleftrightarrow> rest = concat xs @ b \<and> length xs = n \<and> list_all (\<lambda>x. length x = 32) xs"
proof (induction n arbitrary: rest xs)
  case (Suc n)
  show ?case
  proof
    assume "take_path (Suc n) rest = Some (xs, b)"
    then obtain x r ys where "take_bytes 32 rest = Some (x, r)" "take_path n r = Some (ys, b)" "xs = x # ys"
      by (auto split: bind_splits)
    then show "rest = concat xs @ b \<and> length xs = Suc n \<and> list_all (\<lambda>x. length x = 32) xs"
      using Suc.IH by (auto simp: take_bytes_eq_Some)
  next
    assume "rest = concat xs @ b \<and> length xs = Suc n \<and> list_all (\<lambda>x. length x = 32) xs"
    then obtain x ys where "xs = x # ys" "length x = 32" "rest = x @ concat ys @ b" "length ys = n"
        "list_all (\<lambda>x. length x = 32) ys"
      by (cases xs) auto
    then show "take_path (Suc n) rest = Some (xs, b)"
      using Suc.IH [of "concat ys @ b" ys] by (simp add: take_bytes_append)
  qed
qed auto

lemma length_concat_path: "list_all (\<lambda>x. length x = 32) p \<Longrightarrow> length (concat p) = 32 * length p"
  by (induction p) auto

lemma kes_decode_encode:
  assumes "kes_signature_ok s"
  shows "kes_decode (kes_encode s) = Some s"
proof -
  have b: "sig_index s < 256 ^ 4" "length (leaf_pk s) < 256 ^ 4" "length (leaf_sig s) < 256 ^ 4"
      "length (path s) \<le> 16" "list_all (\<lambda>x. length x = 32) (path s)"
    using assms by (simp_all add: kes_signature_ok_def kes_consts u32_max_def)
  have lv: "le_value (le_bytes 4 (sig_index s)) = sig_index s" "le_value (le_bytes 4 (length (leaf_pk s))) = length (leaf_pk s)"
      "le_value (le_bytes 4 (length (leaf_sig s))) = length (leaf_sig s)"
    using b(1-3) by (simp_all add: le_value_le_bytes)
  have d: "unat (of_nat (length (path s)) :: byte) = length (path s)"
    using b(4) by (simp add: unat_of_nat)
  have len: "length (kes_encode s) \<le> MAX_SIGNATURE_LEN" "length SIGNATURE_MAGIC = 4"
    using assms b(5) by (simp_all add: kes_encode_def kes_signature_ok_def length_concat_path kes_consts ascii_def)
  have path: "take_path (length (path s)) (concat (path s)) = Some (path s, [])"
    using b(5) by (simp add: take_path_eq_Some)
  have pk: "\<not> length (leaf_pk s) > MAX_LEAF_PK_LEN" "\<not> length (leaf_sig s) > MAX_LEAF_SIG_LEN" "\<not> length (path s) > MAX_DEPTH"
    using assms by (simp_all add: kes_signature_ok_def)
  have one: "take_bytes (Suc 0) (of_nat (length (path s)) # concat (path s)) = Some ([of_nat (length (path s))], concat (path s))"
    by (simp add: take_bytes_def)
  show ?thesis
    unfolding kes_decode_def using len(1)
    by (simp add: kes_encode_def len(2) take_bytes_append lv pk d path one)
qed

lemma kes_encode_decode:
  assumes "kes_decode bs = Some s"
  shows "kes_signature_ok s" "kes_encode s = bs"
proof -
  have pre: "length bs \<le> MAX_SIGNATURE_LEN" "take 4 bs = SIGNATURE_MAGIC"
    using assms by (auto simp: kes_decode_def split: if_splits)
  obtain idx r1 pkl r2 pk r3 sl r4 sg r5 d r6 p where parts:
    "take_bytes 4 (drop 4 bs) = Some (idx, r1)" "take_bytes 4 r1 = Some (pkl, r2)" "le_value pkl \<le> MAX_LEAF_PK_LEN"
    "take_bytes (le_value pkl) r2 = Some (pk, r3)" "take_bytes 4 r3 = Some (sl, r4)" "le_value sl \<le> MAX_LEAF_SIG_LEN"
    "take_bytes (le_value sl) r4 = Some (sg, r5)" "take_bytes 1 r5 = Some (d, r6)" "unat (d ! 0) \<le> MAX_DEPTH"
    "take_path (unat (d ! 0)) r6 = Some (p, [])"
    "s = \<lparr> sig_index = le_value idx, leaf_pk = pk, leaf_sig = sg, path = p \<rparr>"
    using assms pre unfolding kes_decode_def by (auto simp: not_less bind_eq_Some_conv split: if_splits)
  obtain b where d: "d = [b]"
    using parts(8) by (auto simp: take_bytes_eq_Some length_Suc_conv)
  have bs: "bs = SIGNATURE_MAGIC @ drop 4 bs"
    unfolding pre(2) [symmetric] by simp
  have len: "length idx = 4" "length pkl = 4" "length pk = le_value pkl" "length sl = 4" "length sg = le_value sl"
      "length p = unat b" "list_all (\<lambda>x. length x = 32) p"
    using parts d by (simp_all add: take_bytes_eq_Some take_path_eq_Some)
  have le: "le_bytes 4 (le_value idx) = idx" "le_bytes 4 (le_value pkl) = pkl" "le_bytes 4 (le_value sl) = sl"
    using len by (simp_all add: le_bytes_le_value)
  show "kes_encode s = bs"
    apply (subst bs)
    using parts d len le by (simp add: kes_encode_def take_bytes_eq_Some take_path_eq_Some)
  show "kes_signature_ok s"
    using parts len d le_value_bound [of idx] by (simp add: kes_signature_ok_def u_bytes)
qed

text \<open>C29. Key-evolving signatures have one encoding each: the bounded decoder returns a signature exactly on the
  canonical bytes of a signature within the bounds, and refuses everything else.\<close>

theorem kes_signature_codec:
  "kes_decode bs = Some s \<longleftrightarrow> kes_signature_ok s \<and> kes_encode s = bs"
  using kes_decode_encode kes_encode_decode by blast

section \<open>The tree\<close>

lemma pair_level_ok:
  "length xs = 2 * n \<Longrightarrow> \<exists>ys. pair_level sha3 xs = Some ys \<and> length ys = n \<and>
     (\<forall>i < n. ys ! i = node_hash sha3 (xs ! (2 * i)) (xs ! (2 * i + 1)))"
proof (induction n arbitrary: xs)
  case (Suc n)
  then obtain x xs' where "xs = x # xs'"
    by (cases xs) auto
  moreover from this Suc.prems obtain y zs where "xs' = y # zs"
    by (cases xs') auto
  ultimately have xs: "xs = x # y # zs" "length zs = 2 * n"
    using Suc.prems by simp_all
  then obtain ys where ys: "pair_level sha3 zs = Some ys" "length ys = n"
      "\<forall>i < n. ys ! i = node_hash sha3 (zs ! (2 * i)) (zs ! (2 * i + 1))"
    using Suc.IH by blast
  have "(node_hash sha3 x y # ys) ! i = node_hash sha3 (xs ! (2 * i)) (xs ! (2 * i + 1))" if "i < Suc n" for i
    using that ys(3) by (cases i) (simp_all add: xs(1))
  then show ?case
    using ys by (simp add: xs(1))
qed simp

text \<open>What a climb hashes: the input of every level, and the leaf below them.\<close>

fun climb_preimages :: "digest \<Rightarrow> hash32 \<Rightarrow> nat \<Rightarrow> hash32 list \<Rightarrow> bytes list" where
  "climb_preimages sha3 node i [] = []"
| "climb_preimages sha3 node i (sib # sibs) =
     (let x = DS_NODE @ (if even i then node @ sib else sib @ node) in x # climb_preimages sha3 (sha3 x) (i div 2) sibs)"

definition leaf_preimages :: "digest \<Rightarrow> bytes \<Rightarrow> nat \<Rightarrow> hash32 list \<Rightarrow> bytes list" where
  "leaf_preimages sha3 pk i p = (DS_PK @ pk) # climb_preimages sha3 (leaf_hash sha3 pk) i p"

lemma climb_ok:
  assumes "length leaves = 2 ^ d" "i < 2 ^ d"
  shows "\<exists>r p. merkle_root sha3 leaves = Some r \<and> auth_path sha3 leaves i = Some p \<and> length p = d \<and>
    set p \<subseteq> set leaves \<union> range (\<lambda>(l, r). node_hash sha3 l r) \<and> climb sha3 (leaves ! i) i p = r"
  using assms
proof (induction d arbitrary: leaves i)
  case 0
  then obtain x where "leaves = [x]"
    by (auto simp: length_Suc_conv)
  then show ?case
    using 0 by (simp add: merkle_root.simps auth_path.simps)
next
  case (Suc d)
  obtain ys where ys: "pair_level sha3 leaves = Some ys" "length ys = 2 ^ d"
      "\<forall>i < 2 ^ d. ys ! i = node_hash sha3 (leaves ! (2 * i)) (leaves ! (2 * i + 1))"
    using pair_level_ok [of leaves "2 ^ d" sha3] Suc.prems by auto
  have i: "i div 2 < 2 ^ d"
    using Suc.prems(2) by simp
  obtain r p where p: "merkle_root sha3 ys = Some r" "auth_path sha3 ys (i div 2) = Some p" "length p = d"
      "set p \<subseteq> set ys \<union> range (\<lambda>(l, r). node_hash sha3 l r)" "climb sha3 (ys ! (i div 2)) (i div 2) p = r"
    using Suc.IH [OF ys(2) i] by blast
  define sib where "sib = (if even i then i + 1 else i - 1)"
  have "1 \<le> (2::nat) ^ d"
    by simp
  then have long: "length leaves > 1"
    using Suc.prems(1) unfolding power_Suc by linarith
  have sib: "sib < length leaves"
    using Suc.prems by (auto simp: sib_def elim!: evenE)
  have up: "(if even i then node_hash sha3 (leaves ! i) (leaves ! sib) else node_hash sha3 (leaves ! sib) (leaves ! i))
      = ys ! (i div 2)"
    using ys(3) i by (cases "even i") (auto simp: sib_def elim!: evenE oddE)
  have "set ys \<subseteq> range (\<lambda>(l, r). node_hash sha3 l r)"
    using ys(2,3) by (force simp: in_set_conv_nth)
  then have "set (leaves ! sib # p) \<subseteq> set leaves \<union> range (\<lambda>(l, r). node_hash sha3 l r)"
    using p(4) nth_mem [OF sib] by auto
  moreover have "merkle_root sha3 leaves = Some r"
    using long ys(1) p(1) by (subst merkle_root.simps) simp
  moreover have "auth_path sha3 leaves i = Some (leaves ! sib # p)"
    using long ys(1) p(2) sib by (subst auth_path.simps) (simp flip: sib_def)
  moreover have "climb sha3 (leaves ! i) i (leaves ! sib # p) = r"
    using up p(5) by simp
  ultimately show ?case
    using p(3) by auto
qed

lemma climb_binding:
  assumes "climb sha3 x i p = climb sha3 y i q" "length p = length q" "digest32 sha3"
    and "length x = 32" "length y = 32" "list_all (\<lambda>x. length x = 32) p" "list_all (\<lambda>x. length x = 32) q"
  shows "x = y \<or> collides_in sha3 (climb_preimages sha3 x i p @ climb_preimages sha3 y i q)"
  using assms(2,1,4-)
proof (induction p q arbitrary: x y i rule: list_induct2)
  case (Cons a p b q)
  define x' y' where "x' = DS_NODE @ (if even i then x @ a else a @ x)" and "y' = DS_NODE @ (if even i then y @ b else b @ y)"
  note xy = x'_def y'_def node_hash_def hash_parts_def
  have "length (sha3 x') = 32" "length (sha3 y') = 32"
    using assms(3) by (simp_all add: digest32_def)
  moreover have "climb sha3 (sha3 x') (i div 2) p = climb sha3 (sha3 y') (i div 2) q"
    using Cons.prems(1) by (simp add: xy split: if_splits)
  ultimately have "sha3 x' = sha3 y' \<or>
      collides_in sha3 (climb_preimages sha3 (sha3 x') (i div 2) p @ climb_preimages sha3 (sha3 y') (i div 2) q)"
    using Cons.IH [of "sha3 x'" "i div 2" "sha3 y'"] Cons.prems by simp
  then have "x' = y' \<or> collides_in sha3 (climb_preimages sha3 x i (a # p) @ climb_preimages sha3 y i (b # q))"
    unfolding climb_preimages.simps Let_def x'_def [symmetric] y'_def [symmetric] by (rule collides_step)
  moreover have "x = y" if "x' = y'"
    using that Cons.prems by (simp add: xy split: if_splits)
  ultimately show ?case
    by blast
qed simp

text \<open>The leaf of a period in a tree over the given keys, with its path.\<close>

lemma leaf_path:
  assumes "digest32 sha3" "leaf_index k period = Some i" "length pks = 2 ^ depth k"
    and "merkle_root sha3 (map (leaf_hash sha3) pks) = Some (root k)"
  obtains p where "auth_path sha3 (map (leaf_hash sha3) pks) i = Some p" "length p = depth k" "list_all (\<lambda>x. length x = 32) p"
    and "climb sha3 (leaf_hash sha3 (pks ! i)) i p = root k" "depth k \<le> 16" "i \<le> u32_max"
proof -
  let ?leaves = "map (leaf_hash sha3) pks"
  have depth: "depth k \<le> 16" "i < 2 ^ depth k"
    using assms(2) by (auto simp: leaf_index_def periods_def MAX_DEPTH_def min_def split: if_splits option.splits)
  have "(2::nat) ^ depth k \<le> 2 ^ 16"
    using depth(1) by (intro power_increasing) simp_all
  then have idx: "i \<le> u32_max"
    using depth(2) by (simp add: u32_max_def)
  obtain p where p: "auth_path sha3 ?leaves i = Some p" "length p = depth k"
      "set p \<subseteq> set ?leaves \<union> range (\<lambda>(l, r). node_hash sha3 l r)" "climb sha3 (?leaves ! i) i p = root k"
    using climb_ok [of ?leaves "depth k" i sha3] assms(3,4) depth(2) by auto
  have "length (leaf_hash sha3 pk) = 32" "length (node_hash sha3 l r) = 32" for pk l r
    using assms(1) by (simp_all add: leaf_hash_def node_hash_def hash_parts_def digest32_def)
  then have "list_all (\<lambda>x. length x = 32) p"
    using p(3) by (auto simp: list_all_iff)
  moreover have "?leaves ! i = leaf_hash sha3 (pks ! i)"
    using depth(2) assms(3) by simp
  ultimately show thesis
    using that p(1,2,4) depth(1) idx by simp
qed

lemma kes_verify_leaf:
  assumes "digest32 sha3" "leaf_index k period = Some i" "length p = depth k" "list_all (\<lambda>x. length x = 32) p"
    and "climb sha3 (leaf_hash sha3 pk) i p = root k" "kes_verify sha3 V k period msg sg"
  shows "\<exists>s. kes_decode sg = Some s \<and> verify_kes_leaf V (leaf_pk s) msg (leaf_sig s) \<and>
    (leaf_pk s = pk \<or> collides_in sha3 (leaf_preimages sha3 (leaf_pk s) i (path s) @ leaf_preimages sha3 pk i p))"
proof -
  obtain s where s: "kes_decode sg = Some s" "length (path s) = depth k"
      "climb sha3 (leaf_hash sha3 (leaf_pk s)) i (path s) = root k" "verify_kes_leaf V (leaf_pk s) msg (leaf_sig s)"
    using assms(2,6) by (auto simp: kes_verify_def split: option.splits if_splits)
  have "list_all (\<lambda>x. length x = 32) (path s)"
    using kes_encode_decode(1) [OF s(1)] by (simp add: kes_signature_ok_def)
  moreover have "length (leaf_hash sha3 pk) = 32" for pk
    using assms(1) by (simp add: leaf_hash_def hash_parts_def digest32_def)
  ultimately have "leaf_hash sha3 (leaf_pk s) = leaf_hash sha3 pk \<or> collides_in sha3
      (climb_preimages sha3 (leaf_hash sha3 (leaf_pk s)) i (path s) @ climb_preimages sha3 (leaf_hash sha3 pk) i p)"
    using climb_binding [of sha3 "leaf_hash sha3 (leaf_pk s)" i "path s" "leaf_hash sha3 pk" p] s(2,3) assms(1,3-5) by simp
  then have "leaf_pk s = pk \<or> collides_in sha3 (leaf_preimages sha3 (leaf_pk s) i (path s) @ leaf_preimages sha3 pk i p)"
    using collides_step [of sha3 "DS_PK @ leaf_pk s" "DS_PK @ pk"] unfolding leaf_preimages_def by (simp add: leaf_hash_def hash_parts_def)
  then show ?thesis
    using s(1,4) by blast
qed

text \<open>C24. Verification against a registered tree is exact: a signature that verifies in a period carries the key of
  that period's leaf and a leaf signature under it, or a collision of the digest is found among the inputs that its path and
  the honest path of the leaf hash; and the honest signature, the leaf key
  with its authentication path, always verifies.\<close>

theorem kes_verify_exact:
  assumes "digest32 sha3" "leaf_index k period = Some i" "length pks = 2 ^ depth k"
    and "merkle_root sha3 (map (leaf_hash sha3) pks) = Some (root k)"
  shows "\<exists>p. auth_path sha3 (map (leaf_hash sha3) pks) i = Some p \<and>
      (kes_verify sha3 V k period msg sg \<longrightarrow> (\<exists>s. kes_decode sg = Some s \<and> verify_kes_leaf V (leaf_pk s) msg (leaf_sig s) \<and>
        (leaf_pk s = pks ! i \<or>
         collides_in sha3 (leaf_preimages sha3 (leaf_pk s) i (path s) @ leaf_preimages sha3 (pks ! i) i p)))) \<and>
      (\<forall>sg'. verify_kes_leaf V (pks ! i) msg sg' \<longrightarrow> length (pks ! i) \<le> MAX_LEAF_PK_LEN \<longrightarrow> length sg' \<le> MAX_LEAF_SIG_LEN \<longrightarrow>
        kes_verify sha3 V k period msg (kes_encode \<lparr> sig_index = i, leaf_pk = pks ! i, leaf_sig = sg', path = p \<rparr>))"
proof -
  obtain p where p: "auth_path sha3 (map (leaf_hash sha3) pks) i = Some p" "length p = depth k" "list_all (\<lambda>x. length x = 32) p"
      "climb sha3 (leaf_hash sha3 (pks ! i)) i p = root k" "depth k \<le> 16" "i \<le> u32_max"
    by (rule leaf_path [OF assms])
  have "kes_verify sha3 V k period msg (kes_encode \<lparr> sig_index = i, leaf_pk = pks ! i, leaf_sig = sg', path = p \<rparr>)"
    if "verify_kes_leaf V (pks ! i) msg sg'" "length (pks ! i) \<le> MAX_LEAF_PK_LEN" "length sg' \<le> MAX_LEAF_SIG_LEN" for sg'
  proof -
    have "kes_decode (kes_encode \<lparr> sig_index = i, leaf_pk = pks ! i, leaf_sig = sg', path = p \<rparr>)
        = Some \<lparr> sig_index = i, leaf_pk = pks ! i, leaf_sig = sg', path = p \<rparr>"
      using that(2,3) p(2,3,5,6) by (intro kes_decode_encode) (simp add: kes_signature_ok_def MAX_DEPTH_def)
    then show ?thesis
      using that(1) p(2,4) assms(2) by (simp add: kes_verify_def)
  qed
  then show ?thesis
    using p(1) kes_verify_leaf [OF assms(1,2) p(2-4)] by blast
qed

theorem kes_verify_exact_witness:
  "\<exists>r p. merkle_root (\<lambda>x. replicate 32 (of_nat (length x))) (map (leaf_hash (\<lambda>x. replicate 32 (of_nat (length x)))) [[1], [2, 3]]) = Some r \<and>
    kes_verify (\<lambda>x. replicate 32 (of_nat (length x))) \<lparr> verify_with_key = \<lambda>_ _ _. False, verify_with_key_under = \<lambda>_ _ _ _. False, verify_kes = \<lambda>_ _ _ _. False,
        verify_kes_leaf = \<lambda>_ _ _. True \<rparr> \<lparr> depth = 1, root = r, start_period = 4 \<rparr> 5 []
      (kes_encode \<lparr> sig_index = 1, leaf_pk = [2, 3], leaf_sig = [9], path = p \<rparr>)"
proof -
  define sha3 :: digest where "sha3 = (\<lambda>x. replicate 32 (of_nat (length x)))"
  define V where "V = \<lparr> verify_with_key = \<lambda>_ _ _. False, verify_with_key_under = \<lambda>_ _ _ _. False, verify_kes = \<lambda>_ _ _ _. False, verify_kes_leaf = \<lambda>_ _ _. True \<rparr>"
  define pks :: "bytes list" where "pks = [[1], [2, 3]]"
  obtain r where r: "merkle_root sha3 (map (leaf_hash sha3) pks) = Some r"
    using climb_ok [of "map (leaf_hash sha3) pks" 1 0 sha3] by (auto simp: pks_def)
  have "leaf_index \<lparr> depth = 1, root = r, start_period = 4 \<rparr> 5 = Some 1"
    by (simp add: leaf_index_def periods_def MIN_DEPTH_def MAX_DEPTH_def checked_sub_def)
  then obtain p where "\<forall>sg'. verify_kes_leaf V (pks ! 1) [] sg' \<longrightarrow> length (pks ! 1) \<le> MAX_LEAF_PK_LEN \<longrightarrow> length sg' \<le> MAX_LEAF_SIG_LEN \<longrightarrow>
      kes_verify sha3 V \<lparr> depth = 1, root = r, start_period = 4 \<rparr> 5 [] (kes_encode \<lparr> sig_index = 1, leaf_pk = pks ! 1, leaf_sig = sg', path = p \<rparr>)"
    using kes_verify_exact [of sha3 "\<lparr> depth = 1, root = r, start_period = 4 \<rparr>" 5 1 pks V "[]" "[]"] r
    by (auto simp: digest32_def sha3_def pks_def)
  then have "kes_verify sha3 V \<lparr> depth = 1, root = r, start_period = 4 \<rparr> 5 [] (kes_encode \<lparr> sig_index = 1, leaf_pk = [2, 3], leaf_sig = [9], path = p \<rparr>)"
    by (simp add: V_def pks_def kes_consts)
  then show ?thesis
    using r unfolding sha3_def V_def pks_def by blast
qed

section \<open>The history of keys\<close>

definition key_known :: "kes_entry \<Rightarrow> u64 \<Rightarrow> bool" where
  "key_known e q = ((case next_key e of Some k \<Rightarrow> start_period k \<le> q | None \<Rightarrow> False) \<or> start_period (current e) \<le> q \<or>
     retired_at (retired e) q \<noteq> None)"

lemma retired_at_append: "retired_at (rs @ [r]) q = (if covers r q then Some (retired_public r) else retired_at rs q)"
  by (simp add: retired_at_def)

lemma retired_at_prune:
  assumes "keep \<le> q"
  shows "retired_at (filter (\<lambda>r. retired_end r > keep) rs) q = retired_at rs q"
proof (induction rs rule: rev_induct)
  case (snoc r rs)
  have "covers r q \<Longrightarrow> keep < retired_end r"
    using assms by (simp add: covers_def)
  then show ?case
    using snoc by (cases "keep < retired_end r") (auto simp: retired_at_append)
qed simp

lemma in_force_prune: "saturating_sub p KES_KEY_HISTORY_PERIODS \<le> q \<Longrightarrow> in_force (prune e p) q = in_force e q"
  by (simp add: in_force_def in_force_after_next_def prune_def Let_def retired_at_prune split: option.split)

text \<open>Replacing keys loses no evidence: in every period of the kept year for which the registry knew a key, settling a
  pending rotation leaves the key in force unchanged, and so does a replacement before its own start, for a key that had
  not expired; from its start on the replacement is in force.\<close>

theorem kes_history:
  assumes "p \<le> q + KES_KEY_HISTORY_PERIODS" "key_known e q"
  shows "in_force (settled e p) q = in_force e q \<and>
    (start_period fresh \<le> q \<longrightarrow> in_force (replaced_by e fresh p) q = fresh) \<and>
    (q < start_period fresh \<and> q < end_period (in_force e q) \<longrightarrow> in_force (replaced_by e fresh p) q = in_force e q)"
proof -
  have keep: "saturating_sub p KES_KEY_HISTORY_PERIODS \<le> q"
    using assms(1) by simp
  have "in_force (settled e p) q = in_force e q"
    using assms(2) unfolding settled_def in_force_prune [OF keep]
    by (cases "next_key e")
      (auto simp: in_force_def in_force_after_next_def retired_at_append covers_def key_known_def split: option.splits)
  moreover have "in_force (replaced_by e fresh p) q = fresh" if "start_period fresh \<le> q"
    using that unfolding replaced_by_def in_force_prune [OF keep] by (simp add: in_force_def in_force_after_next_def)
  moreover have "in_force (replaced_by e fresh p) q = in_force e q"
    if "q < start_period fresh" "q < end_period (in_force e q)"
  proof (cases "next_key e")
    case None
    then show ?thesis
      using that assms(2) unfolding replaced_by_def in_force_prune [OF keep]
      by (auto simp: in_force_def in_force_after_next_def retired_at_append covers_def key_known_def split: option.splits)
  next
    case (Some k)
    have "retired_at (rs @ [r, r']) q = (if covers r' q then Some (retired_public r')
        else if covers r q then Some (retired_public r) else retired_at rs q)" for rs r r'
      using retired_at_append [of "rs @ [r]" r' q] retired_at_append [of rs r q] by simp
    then show ?thesis
      using that assms(2) Some unfolding replaced_by_def in_force_prune [OF keep]
      by (auto simp: in_force_def in_force_after_next_def covers_def key_known_def split: option.splits if_splits)
  qed
  ultimately show ?thesis
    by simp
qed

theorem kes_history_witness:
  "in_force (replaced_by (entry_of \<lparr> depth = 8, root = [1], start_period = 10 \<rparr>) \<lparr> depth = 8, root = [2], start_period = 50 \<rparr> 48) 20
    = \<lparr> depth = 8, root = [1], start_period = 10 \<rparr>"
proof -
  let ?k = "\<lparr> depth = 8, root = [1], start_period = 10 \<rparr>"
  have "key_known (entry_of ?k) 20" "in_force (entry_of ?k) 20 = ?k" "20 < end_period ?k"
    by (simp_all add: key_known_def entry_of_def in_force_def in_force_after_next_def end_period_def saturating_add_def
        periods_def MAX_DEPTH_def u64_max_def)
  then show ?thesis
    using kes_history [of 48 20 "entry_of ?k" "\<lparr> depth = 8, root = [2], start_period = 50 \<rparr>"]
    by (simp add: KES_KEY_HISTORY_PERIODS_def)
qed

section \<open>Validation of a vote\<close>

text \<open>While the schedule is not armed every message is judged by the static key of the registry.\<close>

lemma shipped_kes_inert:
  "verify_validator sha3 shipped_kes_schedule keys V v epoch r sg =
     map_option (\<lambda>pk. verify_with_key V pk r sg) (pubkey keys v)"
  by (cases "pubkey keys v")
    (simp_all add: verify_validator_def verify_validator_in_def signing_mode_of_def kes_period_def epoch_gate_active_def
      shipped_kes_schedule_def)

lemma strictest_is_join:
  "strictest a b = strictest b a" "strictest a a = a" "strictest (strictest a b) c = strictest a (strictest b c)"
  by (cases a; cases b; cases c; simp)+

lemma validate_ok_iff:
  "validate sha3 sch att committee now V keys = Inr () \<longleftrightarrow>
     att_validator att \<in> set committee \<and> slot (att_data att) \<le> now \<and>
     source_epoch (att_data att) < target_epoch (att_data att) \<and>
     verify_validator sha3 sch keys V (att_validator att) (target_epoch (att_data att))
       (signing_root sha3 (att_data att)) (att_signature att) = Some True"
  by (auto simp: validate_def split: option.splits bool.splits)

end
