(* ===== verification/Slashing.thy ===== *)
theory Slashing
  imports Kes Delegation Sampling
begin

text \<open>
  Slashing (\<^verbatim>\<open>bloch-pos-committee/src/slashing.rs\<close>): evidence and its identity, the judgement of a
  pair of signed messages, the correlation window and the penalty it prices.  The two evidence
  pipelines take the committed state and return it unchanged with every refusal.  The gate of the
  second window economics is the parameter \<open>v2\<close>, \<^term>\<open>u64_max\<close> as shipped.  A result
  \<^term>\<open>None\<close> is an overflow panic.
\<close>

section \<open>Constants and data\<close>

definition DS_SLASH :: bytes where
  "DS_SLASH = domain_tag ''BLCH4:SLASH''"

definition SLASH_PROPOSER_EQUIV_BPS :: u128 where
  "SLASH_PROPOSER_EQUIV_BPS = 500"

definition SLASH_SURROUND_VOTE_BPS :: u128 where
  "SLASH_SURROUND_VOTE_BPS = 500"

definition WHISTLEBLOWER_QUOTIENT :: u128 where
  "WHISTLEBLOWER_QUOTIENT = 32"

definition CORRELATION_MULTIPLIER :: u128 where
  "CORRELATION_MULTIPLIER = 3"

definition CORRELATION_WINDOW_EPOCHS :: u64 where
  "CORRELATION_WINDOW_EPOCHS = 4096"

definition SLASHING_EVIDENCE_ACTIVATION_EPOCH :: u64 where
  "SLASHING_EVIDENCE_ACTIVATION_EPOCH = 2884"

definition SLASHING_ECONOMICS_V2_ACTIVATION_EPOCH :: u64 where
  "SLASHING_ECONOMICS_V2_ACTIVATION_EPOCH = u64_max"

definition slashing_economics_v2_start :: "u64 \<Rightarrow> u64 \<Rightarrow> u64 option" where
  "slashing_economics_v2_start v2 epoch = (if epoch_gate_active epoch v2 then Some v2 else None)"

definition slashing_economics_v2_active :: "u64 \<Rightarrow> u64 \<Rightarrow> bool" where
  "slashing_economics_v2_active v2 epoch = (slashing_economics_v2_start v2 epoch \<noteq> None)"

datatype slashable_offense = ProposerEquivocationOffense | DoubleVote | SurroundVote

fun base_penalty_bps :: "slashable_offense \<Rightarrow> u128" where
  "base_penalty_bps ProposerEquivocationOffense = SLASH_PROPOSER_EQUIV_BPS"
| "base_penalty_bps DoubleVote = SLASH_PROPOSER_EQUIV_BPS"
| "base_penalty_bps SurroundVote = SLASH_SURROUND_VOTE_BPS"

datatype evidence_error = DifferentValidators | NotConflicting | AlreadyApplied | AlreadySlashed
  | EvidenceBadSignature | EvidenceUnknownValidator

record slashing_evidence =
  first_vote :: attestation
  second_vote :: attestation

record proposal_envelope =
  prop_header :: block_header
  prop_sig :: bytes

datatype evidence = AttestationOffence attestation attestation | ProposerEquivocation proposal_envelope proposal_envelope

definition evidence_of :: "slashing_evidence \<Rightarrow> evidence" where
  "evidence_of ev = AttestationOffence (first_vote ev) (second_vote ev)"

record slashing_outcome =
  offense :: slashable_offense
  outcome_penalty_bps :: u128
  operator_loss_sat :: u128
  delegation_losses_sat :: "u128 list"
  total_slashed_sat :: u128
  whistleblower_reward_sat :: u128
  including_proposer :: u32

record slashing_state =
  applied :: "hash32 list"
  ejected :: "u32 list"
  window :: "(u64, u128) btree_map"

section \<open>Evidence\<close>

definition offense_of :: "slashing_evidence \<Rightarrow> evidence_error + slashable_offense" where
  "offense_of ev = (
     let a = att_data (first_vote ev); b = att_data (second_vote ev) in
     if att_validator (first_vote ev) \<noteq> att_validator (second_vote ev) then Inl DifferentValidators
     else if is_double_vote a b then Inr DoubleVote
     else if surrounds a b \<or> surrounds b a then Inr SurroundVote
     else Inl NotConflicting)"

definition pair_id :: "digest \<Rightarrow> u32 \<Rightarrow> hash32 \<Rightarrow> hash32 \<Rightarrow> hash32" where
  "pair_id sha3 v r1 r2 = (case if r1 \<le> r2 then (r1, r2) else (r2, r1) of
     (lo, hi) \<Rightarrow> sha3 (DS_SLASH @ le_bytes 4 v @ lo @ hi))"

definition evidence_id :: "digest \<Rightarrow> slashing_evidence \<Rightarrow> hash32" where
  "evidence_id sha3 ev = pair_id sha3 (att_validator (first_vote ev))
     (signing_root sha3 (att_data (first_vote ev))) (signing_root sha3 (att_data (second_vote ev)))"

definition proposer_evidence_id :: "digest \<Rightarrow> u32 \<Rightarrow> block_header \<Rightarrow> block_header \<Rightarrow> hash32" where
  "proposer_evidence_id sha3 v first second =
     pair_id sha3 v (proposal_signing_root sha3 first) (proposal_signing_root sha3 second)"

fun evidence_offence_epoch :: "evidence \<Rightarrow> u64" where
  "evidence_offence_epoch (AttestationOffence first second) =
     max (target_epoch (att_data first)) (target_epoch (att_data second))"
| "evidence_offence_epoch (ProposerEquivocation first second) =
     max (block_slot (prop_header first)) (block_slot (prop_header second)) div SLOTS_PER_EPOCH"

definition offence_predates_activation :: "evidence \<Rightarrow> bool" where
  "offence_predates_activation ev = (evidence_offence_epoch ev < SLASHING_EVIDENCE_ACTIVATION_EPOCH)"

text \<open>What the judgement of a signature depends on: the digest, the two schedules, the verifier and
  the registry of keys.\<close>

record judge =
  judge_sha3 :: digest
  judge_kes :: kes_schedule
  judge_gates :: signature_gates
  judge_verifier :: signature_verifier
  judge_keys :: key_lookup

definition verify_offender_signature :: "judge \<Rightarrow> u32 \<Rightarrow> u64 \<Rightarrow> hash32 \<Rightarrow> bytes \<Rightarrow> bool option" where
  "verify_offender_signature j v message_epoch sroot signature =
     verify_validator (judge_sha3 j) (judge_kes j) (judge_keys j)
       (policy_verifier_consensus (judge_gates j) (judge_verifier j) message_epoch) v message_epoch sroot signature"

section \<open>The state machine\<close>

definition new_slashing_state :: slashing_state where
  "new_slashing_state = \<lparr> applied = [], ejected = [], window = [] \<rparr>"

definition is_applied :: "slashing_state \<Rightarrow> hash32 \<Rightarrow> bool" where
  "is_applied s i = (i \<in> set (applied s))"

definition is_ejected :: "slashing_state \<Rightarrow> u32 \<Rightarrow> bool" where
  "is_ejected s v = (v \<in> set (ejected s))"

definition range_sum :: "(u64, u128) btree_map \<Rightarrow> u64 \<Rightarrow> u64 \<Rightarrow> u128 option" where
  "range_sum m lo hi = checked_sum u128_max (values_of (filter (\<lambda>(e, _). lo \<le> e \<and> e \<le> hi) m))"

definition slashed_in_window :: "slashing_state \<Rightarrow> u64 \<Rightarrow> u128 option" where
  "slashed_in_window s epoch = range_sum (window s) (saturating_sub epoch (CORRELATION_WINDOW_EPOCHS - 1)) epoch"

definition priced_window_sat :: "u64 \<Rightarrow> slashing_state \<Rightarrow> u64 \<Rightarrow> u128 option" where
  "priced_window_sat v2 s epoch = (
     let historical_floor = saturating_sub epoch (CORRELATION_WINDOW_EPOCHS - 1);
         floor = (case slashing_economics_v2_start v2 epoch of
           Some activation \<Rightarrow> max historical_floor activation | None \<Rightarrow> historical_floor)
     in range_sum (window s) floor epoch)"

definition penalty_bps :: "u64 \<Rightarrow> slashing_state \<Rightarrow> u128 \<Rightarrow> u64 \<Rightarrow> u128 \<Rightarrow> u128 option" where
  "penalty_bps v2 s base_bps epoch total_active_sat =
     (if total_active_sat = 0 then Some (min base_bps 10000)
      else do {
        priced \<leftarrow> priced_window_sat v2 s epoch;
        p \<leftarrow> checked_mul u128_max (CORRELATION_MULTIPLIER * 10000) priced;
        b \<leftarrow> checked_add u128_max base_bps (p div total_active_sat);
        Some (min b 10000)
      })"

text \<open>The exposure an offence is priced on, as the caller reads it from its state.\<close>

record exposure =
  judged_epoch :: u64
  own_bond_sat :: u128
  exposed_delegations :: "delegation list"
  total_active_sat :: u128
  offender_effective_sat :: u128
  reporter :: u32

definition commit_offense :: "u64 \<Rightarrow> hash32 \<Rightarrow> u32 \<Rightarrow> slashable_offense \<Rightarrow> exposure \<Rightarrow> slashing_state
    \<Rightarrow> (slashing_outcome \<times> slashing_state) option" where
  "commit_offense v2 i v off x s = do {
     let epoch = judged_epoch x;
     penalty \<leftarrow> penalty_bps v2 s (base_penalty_bps off) epoch (total_active_sat x);
     let operator_loss = saturating_mul u128_max (own_bond_sat x) (min penalty 10000) div 10000;
     delegation_losses \<leftarrow> apply_slash (exposed_delegations x) v penalty;
     delegators_loss \<leftarrow> checked_sum u128_max delegation_losses;
     let total_slashed = saturating_add u128_max operator_loss delegators_loss;
     let window_loss = (if slashing_economics_v2_active v2 epoch
       then saturating_mul u128_max (offender_effective_sat x) (min penalty 10000) div 10000 else total_slashed);
     w \<leftarrow> checked_add u128_max (get_or 0 (window s) epoch) window_loss;
     let floor = saturating_sub epoch (CORRELATION_WINDOW_EPOCHS - 1);
     Some (\<lparr> offense = off, outcome_penalty_bps = penalty, operator_loss_sat = operator_loss,
             delegation_losses_sat = delegation_losses, total_slashed_sat = total_slashed,
             whistleblower_reward_sat = operator_loss div WHISTLEBLOWER_QUOTIENT, including_proposer = reporter x \<rparr>,
           \<lparr> applied = bs_insert i (applied s), ejected = bs_insert v (ejected s),
             window = filter (\<lambda>(e, _). e \<ge> floor) (om_insert epoch w (window s)) \<rparr>)
   }"

fun check_signatures :: "(bool option) list \<Rightarrow> evidence_error option" where
  "check_signatures [] = None"
| "check_signatures (None # _) = Some EvidenceUnknownValidator"
| "check_signatures (Some False # _) = Some EvidenceBadSignature"
| "check_signatures (Some True # rs) = check_signatures rs"

definition process_with_effective_exposure :: "judge \<Rightarrow> u64 \<Rightarrow> slashing_evidence \<Rightarrow> exposure \<Rightarrow> slashing_state
    \<Rightarrow> ((evidence_error + slashing_outcome) \<times> slashing_state) option" where
  "process_with_effective_exposure j v2 ev x s = (case offense_of ev of
     Inl e \<Rightarrow> Some (Inl e, s)
   | Inr off \<Rightarrow>
       let i = evidence_id (judge_sha3 j) ev; v = att_validator (first_vote ev) in
       if is_applied s i then Some (Inl AlreadyApplied, s)
       else if is_ejected s v then Some (Inl AlreadySlashed, s)
       else case check_signatures (map (\<lambda>att. verify_offender_signature j v (epoch_of (slot (att_data att)))
           (signing_root (judge_sha3 j) (att_data att)) (att_signature att)) [first_vote ev, second_vote ev]) of
         Some e \<Rightarrow> Some (Inl e, s)
       | None \<Rightarrow> do { (out, s') \<leftarrow> commit_offense v2 i v off x s; Some (Inr out, s') })"

definition process_evidence :: "judge \<Rightarrow> u64 \<Rightarrow> slashing_evidence \<Rightarrow> exposure \<Rightarrow> slashing_state
    \<Rightarrow> ((evidence_error + slashing_outcome) \<times> slashing_state) option" where
  "process_evidence j v2 ev x s = process_with_effective_exposure j v2 ev (x\<lparr> offender_effective_sat := 0 \<rparr>) s"

definition process_proposer_with_effective_exposure :: "judge \<Rightarrow> u64 \<Rightarrow> proposal_envelope \<Rightarrow> proposal_envelope \<Rightarrow> exposure
    \<Rightarrow> slashing_state \<Rightarrow> ((evidence_error + slashing_outcome) \<times> slashing_state) option" where
  "process_proposer_with_effective_exposure j v2 first second x s = (
     let sha3 = judge_sha3 j; a = prop_header first; b = prop_header second in
     if proposer_index a \<noteq> proposer_index b then Some (Inl DifferentValidators, s)
     else if block_slot a \<noteq> block_slot b \<or> block_id_of sha3 a = block_id_of sha3 b then Some (Inl NotConflicting, s)
     else
       let v = proposer_index a; i = proposer_evidence_id sha3 v a b in
       if is_applied s i then Some (Inl AlreadyApplied, s)
       else if is_ejected s v then Some (Inl AlreadySlashed, s)
       else case check_signatures (map (\<lambda>env. verify_offender_signature j v (epoch_of (block_slot (prop_header env)))
           (proposal_signing_root sha3 (prop_header env)) (prop_sig env)) [first, second]) of
         Some e \<Rightarrow> Some (Inl e, s)
       | None \<Rightarrow> do { (out, s') \<leftarrow> commit_offense v2 i v ProposerEquivocationOffense x s; Some (Inr out, s') })"

definition process_proposer :: "judge \<Rightarrow> u64 \<Rightarrow> proposal_envelope \<Rightarrow> proposal_envelope \<Rightarrow> exposure
    \<Rightarrow> slashing_state \<Rightarrow> ((evidence_error + slashing_outcome) \<times> slashing_state) option" where
  "process_proposer j v2 first second x s =
     process_proposer_with_effective_exposure j v2 first second (x\<lparr> offender_effective_sat := 0 \<rparr>) s"

section \<open>The two pipelines, branch by branch\<close>

lemma check_signatures_None: "check_signatures rs = None \<longleftrightarrow> (\<forall>r \<in> set rs. r = Some True)"
  by (induction rs rule: check_signatures.induct) auto

text \<open>A pipeline either refuses, leaving the state as it was, or commits the offence of a validator
  not ejected before, on two messages whose signatures verify.\<close>

lemma process_cases:
  assumes "process_with_effective_exposure j v2 ev x s = Some (r, s')"
  shows "(\<exists>e. r = Inl e) \<and> s' = s \<or>
    (\<exists>off out. r = Inr out \<and> offense_of ev = Inr off \<and> \<not> is_applied s (evidence_id (judge_sha3 j) ev) \<and>
       \<not> is_ejected s (att_validator (first_vote ev)) \<and>
       (\<forall>att \<in> {first_vote ev, second_vote ev}. verify_offender_signature j (att_validator (first_vote ev))
          (epoch_of (slot (att_data att))) (signing_root (judge_sha3 j) (att_data att)) (att_signature att) = Some True) \<and>
       commit_offense v2 (evidence_id (judge_sha3 j) ev) (att_validator (first_vote ev)) off x s = Some (out, s'))"
  using assms check_signatures_None
  unfolding process_with_effective_exposure_def Let_def
  by (auto simp: bind_eq_Some_conv split: sum.splits if_splits option.splits)

lemma process_proposer_cases:
  assumes "process_proposer_with_effective_exposure j v2 first second x s = Some (r, s')"
  shows "(\<exists>e. r = Inl e) \<and> s' = s \<or>
    (\<exists>out. r = Inr out \<and> proposer_index (prop_header first) = proposer_index (prop_header second) \<and>
       block_slot (prop_header first) = block_slot (prop_header second) \<and>
       block_id_of (judge_sha3 j) (prop_header first) \<noteq> block_id_of (judge_sha3 j) (prop_header second) \<and>
       \<not> is_ejected s (proposer_index (prop_header first)) \<and>
       (\<forall>env \<in> {first, second}. verify_offender_signature j (proposer_index (prop_header first))
          (epoch_of (block_slot (prop_header env))) (proposal_signing_root (judge_sha3 j) (prop_header env)) (prop_sig env) = Some True) \<and>
       commit_offense v2 (proposer_evidence_id (judge_sha3 j) (proposer_index (prop_header first)) (prop_header first) (prop_header second))
         (proposer_index (prop_header first)) ProposerEquivocationOffense x s = Some (out, s'))"
  using assms check_signatures_None
  unfolding process_proposer_with_effective_exposure_def Let_def
  by (auto simp: bind_eq_Some_conv split: if_splits option.splits)

lemma offense_of_Inr:
  "offense_of ev = Inr off \<Longrightarrow> att_validator (first_vote ev) = att_validator (second_vote ev) \<and>
     (is_double_vote (att_data (first_vote ev)) (att_data (second_vote ev)) \<or>
      surrounds (att_data (first_vote ev)) (att_data (second_vote ev)) \<or>
      surrounds (att_data (second_vote ev)) (att_data (first_vote ev)))"
  by (auto simp: offense_of_def Let_def split: if_splits)

lemma pair_id_swap: "pair_id sha3 v r1 r2 = pair_id sha3 v r2 r1"
  by (auto simp: pair_id_def)

text \<open>The order in which the two messages are listed does not change the identity.\<close>

lemma evidence_id_swap:
  "att_validator a = att_validator b \<Longrightarrow>
     evidence_id sha3 \<lparr> first_vote = a, second_vote = b \<rparr> = evidence_id sha3 \<lparr> first_vote = b, second_vote = a \<rparr>"
  by (simp add: evidence_id_def pair_id_swap)

section \<open>The penalty\<close>

text \<open>The loss a committed offence adds to the window.\<close>

definition window_loss :: "u64 \<Rightarrow> exposure \<Rightarrow> slashing_outcome \<Rightarrow> u128" where
  "window_loss v2 x out = (if slashing_economics_v2_active v2 (judged_epoch x)
     then saturating_mul u128_max (offender_effective_sat x) (min (outcome_penalty_bps out) 10000) div 10000
     else total_slashed_sat out)"

lemma penalty_bps_eq:
  "penalty_bps v2 s base epoch tot = Some p \<longleftrightarrow>
     (if tot = 0 then p = min base 10000
      else \<exists>w. priced_window_sat v2 s epoch = Some w \<and> 30000 * w \<le> u128_max \<and> base + 30000 * w div tot \<le> u128_max \<and>
        p = min (base + 30000 * w div tot) 10000)"
  by (auto simp: penalty_bps_def CORRELATION_MULTIPLIER_def bind_eq_Some_conv checked_add_eq_Some checked_mul_eq_Some)

lemma penalty_bps_bounds: "penalty_bps v2 s base epoch tot = Some p \<Longrightarrow> min base 10000 \<le> p \<and> p \<le> 10000"
  by (auto simp: penalty_bps_eq split: if_splits)

lemma base_penalty_500 [simp]: "base_penalty_bps off = 500"
  by (cases off) (simp_all add: SLASH_PROPOSER_EQUIV_BPS_def SLASH_SURROUND_VOTE_BPS_def)

lemma saturating_mul_bps: "p \<le> 10000 \<Longrightarrow> saturating_mul m a p div 10000 \<le> a"
proof -
  assume "p \<le> 10000"
  then have "a * p \<le> a * 10000"
    by (rule mult_le_mono2)
  then have "saturating_mul m a p \<le> a * 10000"
    unfolding saturating_mul_def by (rule order_trans [OF min.cobounded2])
  then show ?thesis
    by (metis div_le_mono nonzero_mult_div_cancel_right zero_neq_numeral)
qed

lemma commit_offense_Some:
  assumes "commit_offense v2 i v off x s = Some (out, s')"
  shows "penalty_bps v2 s 500 (judged_epoch x) (total_active_sat x) = Some (outcome_penalty_bps out)"
    and "operator_loss_sat out = saturating_mul u128_max (own_bond_sat x) (min (outcome_penalty_bps out) 10000) div 10000"
    and "apply_slash (exposed_delegations x) v (outcome_penalty_bps out) = Some (delegation_losses_sat out)"
    and "sum_list (delegation_losses_sat out) \<le> u128_max"
    and "total_slashed_sat out = saturating_add u128_max (operator_loss_sat out) (sum_list (delegation_losses_sat out))"
    and "whistleblower_reward_sat out = operator_loss_sat out div 32" "offense out = off"
    and "get_or 0 (window s) (judged_epoch x) + window_loss v2 x out \<le> u128_max"
    and "s' = \<lparr> applied = bs_insert i (applied s), ejected = bs_insert v (ejected s),
      window = filter (\<lambda>(e, _). e \<ge> judged_epoch x - 4095)
        (om_insert (judged_epoch x) (get_or 0 (window s) (judged_epoch x) + window_loss v2 x out) (window s)) \<rparr>"
  using assms
  by (auto simp: commit_offense_def window_loss_def Let_def bind_eq_Some_conv checked_add_eq_Some checked_sum_eq
      WHISTLEBLOWER_QUOTIENT_def CORRELATION_WINDOW_EPOCHS_def split: if_splits)

section \<open>Runs\<close>

text \<open>A run of the state machine over reports judged in non-decreasing epochs: the log keeps, for every
  accepted report, the offender, the epoch and the loss recorded in the window.\<close>

inductive slashing_run :: "u64 \<Rightarrow> u64 \<Rightarrow> (u32 \<times> u64 \<times> u128) list \<Rightarrow> slashing_state \<Rightarrow> bool" for v2 where
  run_new: "slashing_run v2 0 [] new_slashing_state"
| run_votes: "slashing_run v2 now lg s \<Longrightarrow> now \<le> judged_epoch x \<Longrightarrow>
    process_with_effective_exposure j v2 ev x s = Some (r, s') \<Longrightarrow>
    slashing_run v2 (judged_epoch x) (case r of Inl _ \<Rightarrow> lg
      | Inr out \<Rightarrow> lg @ [(att_validator (first_vote ev), judged_epoch x, window_loss v2 x out)]) s'"
| run_proposals: "slashing_run v2 now lg s \<Longrightarrow> now \<le> judged_epoch x \<Longrightarrow>
    process_proposer_with_effective_exposure j v2 first second x s = Some (r, s') \<Longrightarrow>
    slashing_run v2 (judged_epoch x) (case r of Inl _ \<Rightarrow> lg
      | Inr out \<Rightarrow> lg @ [(proposer_index (prop_header first), judged_epoch x, window_loss v2 x out)]) s'"

definition log_loss :: "(u32 \<times> u64 \<times> u128) list \<Rightarrow> u64 \<Rightarrow> u128" where
  "log_loss lg e = sum_list (map (\<lambda>(_, _, l). l) (filter (\<lambda>(_, e', _). e' = e) lg))"

definition run_ok :: "u64 \<Rightarrow> (u32 \<times> u64 \<times> u128) list \<Rightarrow> slashing_state \<Rightarrow> bool" where
  "run_ok now lg s \<longleftrightarrow> distinct (map fst lg) \<and> set (ejected s) = fst ` set lg \<and>
     sorted_wrt (<) (applied s) \<and> sorted_wrt (<) (ejected s) \<and> om_wf (window s) \<and>
     (\<forall>e. now - 4095 \<le> e \<longrightarrow> get_or 0 (window s) e = log_loss lg e)"

lemma log_loss_snoc: "log_loss (lg @ [(v, e, l)]) e' = log_loss lg e' + (if e' = e then l else 0)"
  by (simp add: log_loss_def)

lemma get_or_filter: "distinct (keys_of m) \<Longrightarrow> get_or d (filter (\<lambda>(k, _). P k) m) k = (if P k then get_or d m k else d)"
  by (induction m) (auto simp: get_or_def split: option.splits dest: map_of_SomeD)

lemma run_ok_mono: "run_ok now lg s \<Longrightarrow> now \<le> now' \<Longrightarrow> run_ok now' lg s"
  unfolding run_ok_def by auto

lemma run_ok_commit:
  assumes ok: "run_ok now lg s" and le: "now \<le> judged_epoch x" and fresh: "\<not> is_ejected s v"
    and c: "commit_offense v2 i v off x s = Some (out, s')"
  shows "run_ok (judged_epoch x) (lg @ [(v, judged_epoch x, window_loss v2 x out)]) s'"
proof -
  note s' = commit_offense_Some(9) [OF c]
  let ?m = "om_insert (judged_epoch x) (get_or 0 (window s) (judged_epoch x) + window_loss v2 x out) (window s)"
  have wf: "om_wf ?m"
    using ok by (simp add: run_ok_def om_wf_insert)
  then have "distinct (keys_of ?m)"
    by (simp add: om_wf_def strict_sorted_iff)
  then have "get_or 0 (window s') e = log_loss (lg @ [(v, judged_epoch x, window_loss v2 x out)]) e"
    if "judged_epoch x - 4095 \<le> e" for e
    using that ok le by (simp add: s' get_or_filter get_or_insert log_loss_snoc run_ok_def)
  moreover have "om_wf (window s')"
    using wf by (simp add: s' om_wf_filter)
  ultimately show ?thesis
    using ok fresh by (auto simp: run_ok_def s' is_ejected_def bs_insert_strict)
qed

lemma slashing_run_ok: "slashing_run v2 now lg s \<Longrightarrow> run_ok now lg s"
proof (induction rule: slashing_run.induct)
  case run_new
  show ?case
    by (simp add: run_ok_def new_slashing_state_def log_loss_def om_wf_def)
next
  case (run_votes now lg s x j ev r s')
  from process_cases [OF run_votes.hyps(3)] show ?case
    using run_ok_commit [OF run_votes.IH run_votes.hyps(2)] run_ok_mono [OF run_votes.IH run_votes.hyps(2)] by auto
next
  case (run_proposals now lg s x j first second r s')
  from process_proposer_cases [OF run_proposals.hyps(3)] show ?case
    using run_ok_commit [OF run_proposals.IH run_proposals.hyps(2)] run_ok_mono [OF run_proposals.IH run_proposals.hyps(2)] by auto
qed

lemma range_sum_eq:
  assumes "om_wf m"
  shows "range_sum m lo hi = checked_sum u128_max (map (get_or 0 m) [lo..<Suc hi])"
proof -
  have "sum_list (values_of (filter (\<lambda>(e, _). lo \<le> e \<and> e \<le> hi) m)) = (\<Sum>e \<in> {lo..hi}. get_or 0 m e)"
    if "distinct (keys_of m)" for m :: "(u64, u128) btree_map"
    using that
  proof (induction m)
    case (Cons p m)
    obtain k v where p: "p = (k, v)"
      by fastforce
    have "map_of m k = None"
      using Cons.prems by (simp add: p map_of_eq_None_iff)
    then have "get_or 0 m k = 0"
      by (simp add: get_or_def)
    then have "get_or 0 ((k, v) # m) e = get_or 0 m e + (if e = k then v else 0)" for e
      by (simp add: get_or_def)
    then show ?case
      using Cons by (simp add: p sum.distrib)
  qed simp
  moreover have "sum_list (map f [lo..<Suc hi]) = (\<Sum>e \<in> {lo..hi}. f e)" for f :: "nat \<Rightarrow> nat"
    by (metis atLeastLessThanSuc_atLeastAtMost interv_sum_list_conv_sum_set_nat set_upt)
  ultimately show ?thesis
    using assms by (simp add: range_sum_def checked_sum_eq om_wf_def strict_sorted_iff del: upt_Suc)
qed

section \<open>A concrete offence\<close>

text \<open>Validator 3 votes for two heads in epoch 95; everything else is as shipped, with a verifier that
  accepts the one-byte signature of the validator.\<close>

definition demo_vote :: "byte \<Rightarrow> attestation" where
  "demo_vote b = \<lparr> att_data = \<lparr> slot = 3040, head = replicate 32 b, source_epoch = 94, source_root = replicate 32 0,
     target_epoch = 95, target_root = replicate 32 b \<rparr>, att_validator = 3, att_signature = [7] \<rparr>"

definition demo_evidence :: slashing_evidence where
  "demo_evidence = \<lparr> first_vote = demo_vote 1, second_vote = demo_vote 2 \<rparr>"

definition demo_judge :: judge where
  "demo_judge = \<lparr> judge_sha3 = (\<lambda>bs. take 32 (rev bs)), judge_kes = shipped_kes_schedule, judge_gates = shipped_signature_gates,
     judge_verifier = \<lparr> verify_with_key = \<lambda>k r sg. sg = k, verify_with_key_under = \<lambda>_ k r sg. sg = k,
       verify_kes = \<lambda>_ _ _ _. False, verify_kes_leaf = \<lambda>_ _ _. False \<rparr>,
     judge_keys = \<lparr> pubkey = \<lambda>v. if v = 3 then Some [7] else None, kes_public_at = \<lambda>_ _. None,
       kes_network_domain = None, kes_enforced_from = None \<rparr> \<rparr>"

definition demo_exposure :: exposure where
  "demo_exposure = \<lparr> judged_epoch = 96, own_bond_sat = 1000000, exposed_delegations = [], total_active_sat = 9000000,
     offender_effective_sat = 0, reporter = 5 \<rparr>"

definition demo_outcome :: slashing_outcome where
  "demo_outcome = \<lparr> offense = DoubleVote, outcome_penalty_bps = 500, operator_loss_sat = 50000, delegation_losses_sat = [],
     total_slashed_sat = 50000, whistleblower_reward_sat = 1562, including_proposer = 5 \<rparr>"

definition demo_after :: slashing_state where
  "demo_after = \<lparr> applied = [evidence_id (judge_sha3 demo_judge) demo_evidence], ejected = [3], window = [(96, 50000)] \<rparr>"

lemma demo_offense: "offense_of demo_evidence = Inr DoubleVote"
  by (simp add: offense_of_def demo_evidence_def demo_vote_def is_double_vote_def Let_def)

lemma demo_signature:
  "verify_offender_signature demo_judge 3 e r [7] = Some True"
  by (simp add: verify_offender_signature_def demo_judge_def verify_validator_def verify_validator_in_def signing_mode_of_def
      kes_period_def shipped_kes_schedule_def epoch_gate_active_def policy_verifier_consensus_def policy_verifier_def)

lemma demo_commit:
  "commit_offense u64_max i 3 DoubleVote demo_exposure new_slashing_state =
     Some (demo_outcome, \<lparr> applied = [i], ejected = [3], window = [(96, 50000)] \<rparr>)"
  by (simp add: commit_offense_def demo_exposure_def new_slashing_state_def penalty_bps_def priced_window_sat_def range_sum_def
      slashing_economics_v2_start_def slashing_economics_v2_active_def epoch_gate_active_def checked_mul_def checked_add_def
      saturating_mul_def saturating_add_def u128_max_def u64_max_def CORRELATION_WINDOW_EPOCHS_def CORRELATION_MULTIPLIER_def
      WHISTLEBLOWER_QUOTIENT_def demo_outcome_def bs_insert_def Let_def)

lemma demo_process:
  "process_with_effective_exposure demo_judge u64_max demo_evidence demo_exposure new_slashing_state = Some (Inr demo_outcome, demo_after)"
proof -
  have "first_vote demo_evidence = demo_vote 1" "second_vote demo_evidence = demo_vote 2"
    "att_validator (demo_vote b) = 3" "att_signature (demo_vote b) = [7]" for b
    by (simp_all add: demo_evidence_def demo_vote_def)
  then show ?thesis
    by (simp add: process_with_effective_exposure_def demo_offense is_applied_def is_ejected_def demo_signature demo_commit
        demo_after_def Let_def) (simp add: new_slashing_state_def)
qed

lemma demo_run: "slashing_run u64_max 96 [(3, 96, 50000)] demo_after"
proof -
  have "judged_epoch demo_exposure = 96" "att_validator (first_vote demo_evidence) = 3"
    "window_loss u64_max demo_exposure demo_outcome = 50000"
    by (simp_all add: demo_exposure_def demo_evidence_def demo_vote_def window_loss_def slashing_economics_v2_active_def
        slashing_economics_v2_start_def epoch_gate_active_def u64_max_def demo_outcome_def)
  then show ?thesis
    using slashing_run.run_votes [OF slashing_run.run_new _ demo_process] by simp
qed

section \<open>Properties\<close>

text \<open>What a committed offence does to the validator and what it costs.\<close>

definition slashed_fairly :: "slashing_state \<Rightarrow> slashing_state \<Rightarrow> u32 \<Rightarrow> exposure \<Rightarrow> slashing_outcome \<Rightarrow> bool" where
  "slashed_fairly s s' v x out \<longleftrightarrow> \<not> is_ejected s v \<and> is_ejected s' v \<and>
     500 \<le> outcome_penalty_bps out \<and> outcome_penalty_bps out \<le> 10000 \<and>
     operator_loss_sat out \<le> own_bond_sat x \<and> whistleblower_reward_sat out * 32 \<le> operator_loss_sat out"

lemma commit_offense_fair:
  assumes c: "commit_offense v2 i v off x s = Some (out, s')" and fresh: "\<not> is_ejected s v"
  shows "slashed_fairly s s' v x out"
proof -
  have b: "500 \<le> outcome_penalty_bps out" "outcome_penalty_bps out \<le> 10000"
    using penalty_bps_bounds [OF commit_offense_Some(1) [OF c]] by simp_all
  have "operator_loss_sat out \<le> own_bond_sat x"
    unfolding commit_offense_Some(2) [OF c] by (rule saturating_mul_bps) simp
  moreover have "whistleblower_reward_sat out * 32 \<le> operator_loss_sat out"
    unfolding commit_offense_Some(6) [OF c] by (rule div_times_less_eq_dividend)
  moreover have "is_ejected s' v"
    by (simp add: is_ejected_def commit_offense_Some(9) [OF c])
  ultimately show ?thesis
    using b fresh by (simp add: slashed_fairly_def)
qed

lemma process_accepted:
  assumes "process_with_effective_exposure j v2 ev x s = Some (Inr out, s')"
  shows "att_validator (first_vote ev) = att_validator (second_vote ev) \<and>
     (is_double_vote (att_data (first_vote ev)) (att_data (second_vote ev)) \<or>
      surrounds (att_data (first_vote ev)) (att_data (second_vote ev)) \<or>
      surrounds (att_data (second_vote ev)) (att_data (first_vote ev))) \<and>
     (\<forall>att \<in> {first_vote ev, second_vote ev}. verify_offender_signature j (att_validator (first_vote ev))
        (epoch_of (slot (att_data att))) (signing_root (judge_sha3 j) (att_data att)) (att_signature att) = Some True) \<and>
     slashed_fairly s s' (att_validator (first_vote ev)) x out"
proof -
  from process_cases [OF assms] obtain off where o: "offense_of ev = Inr off"
    and fresh: "\<not> is_ejected s (att_validator (first_vote ev))"
    and sigs: "\<forall>att \<in> {first_vote ev, second_vote ev}. verify_offender_signature j (att_validator (first_vote ev))
      (epoch_of (slot (att_data att))) (signing_root (judge_sha3 j) (att_data att)) (att_signature att) = Some True"
    and c: "commit_offense v2 (evidence_id (judge_sha3 j) ev) (att_validator (first_vote ev)) off x s = Some (out, s')"
    by (elim disjE exE conjE) (simp, simp only: sum.inject, blast)
  show ?thesis
    by (intro conjI offense_of_Inr [OF o, THEN conjunct1] offense_of_Inr [OF o, THEN conjunct2] sigs commit_offense_fair [OF c fresh])
qed

text \<open>An offence is committed without a panic on any amounts the supply allows: \<open>10 ^ 19\<close> satoshis bound the
  stakes, and \<open>10 ^ 30\<close> is far beyond what a window of such losses can hold.\<close>

definition exposure_fits :: "exposure \<Rightarrow> slashing_state \<Rightarrow> bool" where
  "exposure_fits x s \<longleftrightarrow> own_bond_sat x \<le> 10 ^ 19 \<and> offender_effective_sat x \<le> 10 ^ 19 \<and>
     sum_list (map amount_sat (exposed_delegations x)) \<le> 10 ^ 19 \<and> sum_list (values_of (window s)) \<le> 10 ^ 30"

lemma penalty_bps_fits:
  assumes "sum_list (values_of (window s)) \<le> 10 ^ 30"
  shows "\<exists>p \<le> 10000. penalty_bps v2 s 500 e tot = Some p"
proof -
  have "\<exists>w \<le> 10 ^ 30. range_sum (window s) lo hi = Some w" for lo hi
  proof -
    have "sum_list (values_of (filter (\<lambda>(e, _). lo \<le> e \<and> e \<le> hi) (window s))) \<le> 10 ^ 30"
      using sum_list_filter_le_nat [of snd "\<lambda>(e, _). lo \<le> e \<and> e \<le> hi" "window s"] assms by (rule le_trans)
    then show ?thesis
      by (simp add: range_sum_def checked_sum_eq u128_max_def)
  qed
  then obtain w where w: "priced_window_sat v2 s e = Some w" "w \<le> 10 ^ 30"
    by (metis priced_window_sat_def)
  have "30000 * w \<le> u128_max" "500 + 30000 * w \<le> u128_max"
    using w(2) by (simp_all add: u128_max_def)
  then have "30000 * w \<le> u128_max" "500 + 30000 * w div tot \<le> u128_max"
    using div_le_dividend [of "30000 * w" tot] by linarith+
  then show ?thesis
    using w(1) by (cases "tot = 0") (auto simp: penalty_bps_eq)
qed

lemma apply_slash_fits:
  assumes "sum_list (map amount_sat ds) \<le> 10 ^ 19"
  shows "\<exists>ls. apply_slash ds v p = Some ls \<and> sum_list ls \<le> 10 ^ 19"
proof -
  let ?loss = "\<lambda>d. if validator d = v \<and> eligible d then amount_sat d * min p 10000 div 10000 else 0"
  have "amount_sat d * 10000 \<le> u128_max" if "d \<in> set ds" for d
    using member_le_sum_list [of "amount_sat d" "map amount_sat ds"] assms that by (simp add: u128_max_def)
  then have "apply_slash ds v p = Some (map ?loss ds)"
    by (rule apply_slash_pro_rata)
  moreover have "?loss d \<le> amount_sat d" for d
    using div_le_mono [OF mult_le_mono2 [of "min p 10000" 10000 "amount_sat d"], of 10000] by simp
  then have "sum_list (map ?loss ds) \<le> sum_list (map amount_sat ds)"
    by (intro sum_list_mono)
  ultimately show ?thesis
    using assms le_trans by blast
qed

lemma commit_offense_total:
  assumes "exposure_fits x s"
  shows "\<exists>out s'. commit_offense v2 i v off x s = Some (out, s')"
proof -
  obtain p where p: "penalty_bps v2 s 500 (judged_epoch x) (total_active_sat x) = Some p" "p \<le> 10000"
    using penalty_bps_fits assms unfolding exposure_fits_def by blast
  obtain ls where ls: "apply_slash (exposed_delegations x) v p = Some ls" "sum_list ls \<le> 10 ^ 19"
    using apply_slash_fits assms unfolding exposure_fits_def by blast
  have loss: "saturating_mul u128_max a (min p 10000) div 10000 \<le> 10 ^ 19" if "a \<le> 10 ^ 19" for a
    using le_trans [OF saturating_mul_bps that] by simp
  have "get_or 0 (window s) (judged_epoch x) \<le> 10 ^ 30"
  proof (cases "map_of (window s) (judged_epoch x)")
    case (Some w)
    then have "w \<le> sum_list (values_of (window s))"
      by (intro member_le_sum_list) (auto dest!: map_of_SomeD simp: image_iff intro!: bexI)
    then show ?thesis
      using assms Some by (simp add: get_or_def exposure_fits_def)
  qed (simp add: get_or_def)
  then have "get_or 0 (window s) (judged_epoch x) + l \<le> u128_max" if "l \<le> 10 ^ 19 + 10 ^ 19" for l
    using that by (simp add: u128_max_def)
  then show ?thesis
    using assms p ls loss [of "own_bond_sat x"] loss [of "offender_effective_sat x"]
    by (simp add: commit_offense_def exposure_fits_def checked_sum_eq checked_add_def saturating_add_def u128_max_def Let_def)
qed

text \<open>Two conflicting votes of one validator with valid signatures are punished by whoever reports them first.\<close>

lemma conflicting_votes_slashed:
  assumes "is_double_vote d d' \<or> surrounds d d' \<or> surrounds d' d" "exposure_fits x s"
    and "\<forall>e \<in> {d, d'}. verify_offender_signature j v (epoch_of (slot e)) (signing_root (judge_sha3 j) e) (sg e) = Some True"
  defines "ev \<equiv> \<lparr> first_vote = \<lparr> att_data = d, att_validator = v, att_signature = sg d \<rparr>,
    second_vote = \<lparr> att_data = d', att_validator = v, att_signature = sg d' \<rparr> \<rparr>"
  assumes "\<not> is_ejected s v" "\<not> is_applied s (evidence_id (judge_sha3 j) ev)"
  shows "\<exists>out s'. process_with_effective_exposure j v2 ev x s = Some (Inr out, s') \<and> slashed_fairly s s' v x out"
proof -
  obtain off where off: "offense_of ev = Inr off"
    using assms(1) by (cases "is_double_vote d d'") (auto simp: offense_of_def ev_def Let_def)
  have v: "att_validator (first_vote ev) = v"
    by (simp add: ev_def)
  have "check_signatures (map (\<lambda>att. verify_offender_signature j v (epoch_of (slot (att_data att)))
      (signing_root (judge_sha3 j) (att_data att)) (att_signature att)) [first_vote ev, second_vote ev]) = None"
    using assms(3) by (simp add: check_signatures_None ev_def)
  moreover obtain out s' where "commit_offense v2 (evidence_id (judge_sha3 j) ev) v off x s = Some (out, s')"
    using commit_offense_total [OF assms(2)] by blast
  ultimately have "process_with_effective_exposure j v2 ev x s = Some (Inr out, s')"
    using assms(5,6) off by (simp add: process_with_effective_exposure_def v Let_def)
  moreover have "slashed_fairly s s' v x out"
    using process_accepted [OF calculation] unfolding v by blast
  ultimately show ?thesis
    by blast
qed

lemma process_proposer_accepted:
  assumes "process_proposer_with_effective_exposure j v2 p q x s = Some (Inr out, s')"
  shows "proposer_index (prop_header p) = proposer_index (prop_header q) \<and>
     block_slot (prop_header p) = block_slot (prop_header q) \<and> prop_header p \<noteq> prop_header q \<and>
     (\<forall>env \<in> {p, q}. verify_offender_signature j (proposer_index (prop_header p))
        (epoch_of (block_slot (prop_header env))) (proposal_signing_root (judge_sha3 j) (prop_header env)) (prop_sig env) = Some True) \<and>
     slashed_fairly s s' (proposer_index (prop_header p)) x out"
proof -
  from process_proposer_cases [OF assms] obtain i where fresh: "\<not> is_ejected s (proposer_index (prop_header p))"
    and hd: "proposer_index (prop_header p) = proposer_index (prop_header q)" "block_slot (prop_header p) = block_slot (prop_header q)"
      "block_id_of (judge_sha3 j) (prop_header p) \<noteq> block_id_of (judge_sha3 j) (prop_header q)"
    and sigs: "\<forall>env \<in> {p, q}. verify_offender_signature j (proposer_index (prop_header p))
      (epoch_of (block_slot (prop_header env))) (proposal_signing_root (judge_sha3 j) (prop_header env)) (prop_sig env) = Some True"
    and c: "commit_offense v2 i (proposer_index (prop_header p)) ProposerEquivocationOffense x s = Some (out, s')"
    by (elim disjE exE conjE) (simp, simp only: sum.inject, blast)
  have "prop_header p \<noteq> prop_header q"
    using hd(3) by (rule contrapos_nn) (rule arg_cong)
  then show ?thesis
    by (intro conjI hd(1,2) sigs commit_offense_fair [OF c fresh])
qed

text \<open>C14. Slashing is sound on both pipelines: an accepted report shows two conflicting messages of one validator, each
  carrying that validator's valid signature for the epoch of the message, against a validator not slashed before; the
  validator is ejected; the penalty lies between five and one hundred per cent; the operator loses at most the bond, and the
  reporter is paid at most a thirty-second of that loss.\<close>

theorem slashing_sound:
  "(process_with_effective_exposure j v2 ev x s = Some (Inr out, s') \<longrightarrow>
     att_validator (first_vote ev) = att_validator (second_vote ev) \<and>
     (is_double_vote (att_data (first_vote ev)) (att_data (second_vote ev)) \<or>
      surrounds (att_data (first_vote ev)) (att_data (second_vote ev)) \<or>
      surrounds (att_data (second_vote ev)) (att_data (first_vote ev))) \<and>
     (\<forall>att \<in> {first_vote ev, second_vote ev}. verify_offender_signature j (att_validator (first_vote ev))
        (epoch_of (slot (att_data att))) (signing_root (judge_sha3 j) (att_data att)) (att_signature att) = Some True) \<and>
     slashed_fairly s s' (att_validator (first_vote ev)) x out) \<and>
   (process_proposer_with_effective_exposure j v2 p q x s = Some (Inr out, s') \<longrightarrow>
     proposer_index (prop_header p) = proposer_index (prop_header q) \<and>
     block_slot (prop_header p) = block_slot (prop_header q) \<and> prop_header p \<noteq> prop_header q \<and>
     (\<forall>env \<in> {p, q}. verify_offender_signature j (proposer_index (prop_header p))
        (epoch_of (block_slot (prop_header env))) (proposal_signing_root (judge_sha3 j) (prop_header env)) (prop_sig env) = Some True) \<and>
     slashed_fairly s s' (proposer_index (prop_header p)) x out)"
  by (intro conjI [of "_ \<longrightarrow> _"] impI process_accepted process_proposer_accepted)

theorem slashing_sound_witness:
  "process_with_effective_exposure demo_judge u64_max demo_evidence demo_exposure new_slashing_state = Some (Inr demo_outcome, demo_after) \<and>
   slashed_fairly new_slashing_state demo_after (att_validator (first_vote demo_evidence)) demo_exposure demo_outcome"
  by (intro conjI demo_process slashing_sound [THEN conjunct1, THEN mp, OF demo_process, THEN conjunct2, THEN conjunct2, THEN conjunct2])

text \<open>C9. Over every run, whatever mixture of reports it saw, each validator is slashed at most once and the ejected
  validators are exactly the slashed ones; pruning loses nothing, since the correlation window of any epoch from the last
  judged one on is the sum of the recorded losses of its 4096 epochs; and every further report against an ejected
  validator is refused without a change of state.\<close>

theorem slashing_run_exact:
  assumes "slashing_run v2 now lg s" "now \<le> e"
  shows "distinct (map fst lg) \<and> set (ejected s) = fst ` set lg \<and>
    slashed_in_window s e = checked_sum u128_max (map (log_loss lg) [e - 4095..<Suc e]) \<and>
    (is_ejected s (att_validator (first_vote ev)) \<longrightarrow>
      (\<exists>err. process_with_effective_exposure j v2 ev x s = Some (Inl err, s))) \<and>
    (is_ejected s (proposer_index (prop_header p)) \<longrightarrow>
      (\<exists>err. process_proposer_with_effective_exposure j v2 p q x s = Some (Inl err, s)))"
proof -
  have ok: "run_ok now lg s"
    by (rule slashing_run_ok [OF assms(1)])
  have eq: "map (get_or 0 (window s)) [e - 4095..<Suc e] = map (log_loss lg) [e - 4095..<Suc e]"
    using ok assms(2) by (intro map_cong refl) (auto simp: run_ok_def simp del: upt_Suc)
  have "om_wf (window s)"
    using ok by (simp add: run_ok_def)
  then have "slashed_in_window s e = checked_sum u128_max (map (log_loss lg) [e - 4095..<Suc e])"
    unfolding slashed_in_window_def CORRELATION_WINDOW_EPOCHS_def by (simp add: range_sum_eq eq del: upt_Suc)
  moreover have "\<exists>err. process_with_effective_exposure j v2 ev x s = Some (Inl err, s)"
    if "is_ejected s (att_validator (first_vote ev))"
    using that by (auto simp: process_with_effective_exposure_def Let_def split: sum.split)
  moreover have "\<exists>err. process_proposer_with_effective_exposure j v2 p q x s = Some (Inl err, s)"
    if "is_ejected s (proposer_index (prop_header p))"
    using that by (auto simp: process_proposer_with_effective_exposure_def Let_def)
  ultimately show ?thesis
    using ok by (simp add: run_ok_def)
qed

theorem slashing_run_exact_witness:
  "slashing_run u64_max 96 [(3, 96, 50000)] demo_after \<and> set (ejected demo_after) = {3} \<and>
   (\<exists>err. process_with_effective_exposure demo_judge u64_max demo_evidence demo_exposure demo_after = Some (Inl err, demo_after))"
proof -
  have "is_ejected demo_after (att_validator (first_vote demo_evidence))"
    by (simp add: is_ejected_def demo_after_def demo_evidence_def demo_vote_def)
  then show ?thesis
    using slashing_run_exact [OF demo_run, of 96 demo_evidence demo_judge demo_exposure] demo_run by simp
qed

text \<open>The correlation penalty: the priced penalty is the base rate plus three times the slashed share of the active
  stake, capped at everything; it grows with the window, it is the base rate on an empty window, and once a third of the
  active stake has been slashed within the window an offender loses everything.\<close>

theorem correlation_penalty:
  assumes "priced_window_sat v2 s e = Some w" "30000 * w + base \<le> u128_max" "0 < tot"
  shows "\<exists>b. penalty_bps v2 s base e tot = Some b \<and> min base 10000 \<le> b \<and> b \<le> 10000 \<and>
    (w = 0 \<longrightarrow> b = min base 10000) \<and> (tot \<le> 3 * w \<longrightarrow> b = 10000) \<and>
    (priced_window_sat v2 s' e = Some w' \<and> w' \<le> w \<longrightarrow>
      (\<exists>b'. penalty_bps v2 s' base e tot = Some b' \<and> b' \<le> b))"
proof -
  have fits: "30000 * u \<le> u128_max \<and> base + 30000 * u div tot \<le> u128_max" if "u \<le> w" for u
    using that assms(2) div_le_dividend [of "30000 * u" tot] by linarith
  define b where "b = min (base + 30000 * w div tot) 10000"
  have "penalty_bps v2 s base e tot = Some b"
    using assms(1,3) fits [of w] by (simp add: penalty_bps_eq b_def)
  moreover have "b = 10000" if "tot \<le> 3 * w"
  proof -
    have "10000 * tot \<le> 30000 * w"
      using that by simp
    then have "10000 \<le> 30000 * w div tot"
      using assms(3) by (simp add: less_eq_div_iff_mult_less_eq)
    then show ?thesis
      by (simp add: b_def)
  qed
  moreover have "\<exists>b'. penalty_bps v2 s' base e tot = Some b' \<and> b' \<le> b" if "priced_window_sat v2 s' e = Some w' \<and> w' \<le> w"
  proof -
    have "30000 * w' div tot \<le> 30000 * w div tot"
      using that by (intro div_le_mono) simp
    then have "penalty_bps v2 s' base e tot = Some (min (base + 30000 * w' div tot) 10000) \<and> min (base + 30000 * w' div tot) 10000 \<le> b"
      using that assms(3) fits [of w'] by (auto simp: penalty_bps_eq b_def)
    then show ?thesis
      by blast
  qed
  ultimately show ?thesis
    by (auto simp: b_def)
qed

theorem correlation_penalty_witness:
  "priced_window_sat u64_max demo_after 96 = Some 50000 \<and> penalty_bps u64_max demo_after 500 96 150000 = Some 10000"
proof -
  have "priced_window_sat u64_max demo_after 96 = Some 50000"
    by (simp add: priced_window_sat_def range_sum_def demo_after_def slashing_economics_v2_start_def epoch_gate_active_def
        u64_max_def u128_max_def checked_add_def CORRELATION_WINDOW_EPOCHS_def)
  then show ?thesis
    using correlation_penalty [of u64_max demo_after 96 50000 500 150000] by (auto simp: u128_max_def)
qed

end
