(* ===== verification/Staking.thy ===== *)
theory Staking
  imports Kes Sampling Tokenomics "HOL-Library.Product_Lexorder"
begin

text \<open>
  The staking lifecycle (\<^verbatim>\<open>bloch-pos-committee/src/staking.rs\<close>): deposits and their proof of
  possession, the activation queue with its churn limit, the stake growth budget, exits and
  withdrawals.  The two halves of the hybrid signature scheme are the record
  \<open>hybrid_key_verifier\<close>, SHA3-256 is the parameter \<open>sha3\<close>.  The activation queue is shown to be
  the epoch-by-epoch scan that its documentation states.
\<close>

section \<open>Constants\<close>

definition DS_DEPOSIT :: bytes where
  "DS_DEPOSIT = domain_tag ''BLCH4:DEPOSIT''"

definition DS_EXIT :: bytes where
  "DS_EXIT = domain_tag ''BLCH4:EXIT''"

definition ROLE_ACTIVATION_QUEUE :: byte where
  "ROLE_ACTIVATION_QUEUE = 4"

definition SUITE_MLDSA65_FALCON1024 :: nat where
  "SUITE_MLDSA65_FALCON1024 = 1"

definition MLDSA65_PK_BYTES :: usize where
  "MLDSA65_PK_BYTES = 1952"

definition FALCON1024_PK_BYTES :: usize where
  "FALCON1024_PK_BYTES = 1793"

definition HYBRID_PK_BYTES :: usize where
  "HYBRID_PK_BYTES = MLDSA65_PK_BYTES + FALCON1024_PK_BYTES"

definition MLDSA65_SIG_BYTES :: usize where
  "MLDSA65_SIG_BYTES = 3309"

definition MIN_DEPOSIT_SAT :: u128 where
  "MIN_DEPOSIT_SAT = 25000 * SAT_PER_BLOCH"

definition ACTIVATION_DELAY_EPOCHS :: u64 where
  "ACTIVATION_DELAY_EPOCHS = 8"

definition MAX_ACTIVATIONS_PER_EPOCH :: usize where
  "MAX_ACTIVATIONS_PER_EPOCH = 4"

definition GROWTH_DIV :: u128 where
  "GROWTH_DIV = 64"

definition EXIT_DELAY_EPOCHS :: u64 where
  "EXIT_DELAY_EPOCHS = 32"

definition WITHDRAWAL_DELAY_EPOCHS :: u64 where
  "WITHDRAWAL_DELAY_EPOCHS = 2048"

lemmas staking_consts = SUITE_MLDSA65_FALCON1024_def MLDSA65_PK_BYTES_def FALCON1024_PK_BYTES_def HYBRID_PK_BYTES_def
  MLDSA65_SIG_BYTES_def ACTIVATION_DELAY_EPOCHS_def MAX_ACTIVATIONS_PER_EPOCH_def GROWTH_DIV_def EXIT_DELAY_EPOCHS_def
  WITHDRAWAL_DELAY_EPOCHS_def

section \<open>The growth budget\<close>

definition growth_budget_sat :: "u128 \<Rightarrow> u128" where
  "growth_budget_sat w = (let g = w div GROWTH_DIV in if g > MIN_DEPOSIT_SAT then g else MIN_DEPOSIT_SAT)"

fun growth_admissions :: "u128 \<Rightarrow> u128 \<Rightarrow> u128 list \<Rightarrow> usize" where
  "growth_admissions used budget [] = 0"
| "growth_admissions used budget (stake # stakes) =
     (if used \<noteq> 0 \<and> saturating_add u128_max used stake > budget then 0
      else 1 + growth_admissions (saturating_add u128_max used stake) budget stakes)"

section \<open>Deposits\<close>

record hybrid_key_verifier =
  verify_mldsa65 :: "bytes \<Rightarrow> hash32 \<Rightarrow> bytes \<Rightarrow> bool"
  verify_falcon1024 :: "bytes \<Rightarrow> hash32 \<Rightarrow> bytes \<Rightarrow> bool"

definition verify_hybrid :: "bytes \<Rightarrow> hash32 \<Rightarrow> bytes \<Rightarrow> hybrid_key_verifier \<Rightarrow> bool" where
  "verify_hybrid pk sroot sig verifier =
     (if length sig \<le> MLDSA65_SIG_BYTES then False
      else verify_mldsa65 verifier (take MLDSA65_PK_BYTES pk) sroot (take MLDSA65_SIG_BYTES sig) \<and>
        verify_falcon1024 verifier (drop MLDSA65_PK_BYTES pk) sroot (drop MLDSA65_SIG_BYTES sig))"

record deposit_input =
  transparent :: bool
  tainted :: bool

record deposit_tx =
  suite :: nat
  deposit_sat :: u128
  deposit_pubkey :: bytes
  deposit_randao :: hash32
  deposit_withdrawal_addr :: hash32
  proof_of_possession :: bytes

definition deposit_signing_root :: "digest \<Rightarrow> deposit_tx \<Rightarrow> hash32" where
  "deposit_signing_root sha3 tx = sha3 (DS_DEPOSIT @ le_bytes 2 (suite tx) @ le_bytes 16 (deposit_sat tx) @
     deposit_pubkey tx @ deposit_randao tx @ deposit_withdrawal_addr tx)"

datatype deposit_reject = WrongSuite | ShieldedInput | TaintedInput | BelowMinimum | AboveMaximum | BadProofOfPossession

definition deposit_shape :: "nat \<Rightarrow> usize \<Rightarrow> u128 \<Rightarrow> u128 \<Rightarrow> deposit_reject + unit" where
  "deposit_shape su pubkey_len amount max_stake_sat =
     (if su \<noteq> SUITE_MLDSA65_FALCON1024 \<or> pubkey_len \<noteq> HYBRID_PK_BYTES then Inl WrongSuite
      else if amount < MIN_DEPOSIT_SAT then Inl BelowMinimum
      else if amount > max_stake_sat then Inl AboveMaximum
      else Inr ())"

definition validate_deposit :: "digest \<Rightarrow> deposit_tx \<Rightarrow> deposit_input list \<Rightarrow> u128 \<Rightarrow> hybrid_key_verifier
    \<Rightarrow> deposit_reject + unit" where
  "validate_deposit sha3 tx inputs max_stake_sat verifier =
     (if suite tx \<noteq> SUITE_MLDSA65_FALCON1024 then Inl WrongSuite
      else if list_ex (\<lambda>i. \<not> transparent i) inputs then Inl ShieldedInput
      else if list_ex tainted inputs then Inl TaintedInput
      else case deposit_shape (suite tx) (length (deposit_pubkey tx)) (deposit_sat tx) max_stake_sat of
        Inl e \<Rightarrow> Inl e
      | Inr _ \<Rightarrow>
          if \<not> verify_hybrid (deposit_pubkey tx) (deposit_signing_root sha3 tx) (proof_of_possession tx) verifier
          then Inl BadProofOfPossession else Inr ())"

definition wire_deposit_pop_root :: "digest \<Rightarrow> bytes \<Rightarrow> u128 \<Rightarrow> hash32 \<Rightarrow> bytes \<Rightarrow> u128 \<Rightarrow> hash32" where
  "wire_deposit_pop_root sha3 pk amount randao creds commission =
     sha3 (DS_DEPOSIT @ le_bytes 4 (length pk mod 2 ^ 32) @ pk @ le_bytes 16 amount @ randao @
       le_bytes 4 (length creds mod 2 ^ 32) @ creds @ le_bytes 16 commission)"

definition validate_wire_deposit :: "digest \<Rightarrow> bytes \<Rightarrow> u128 \<Rightarrow> hash32 \<Rightarrow> bytes \<Rightarrow> u128 \<Rightarrow> bytes \<Rightarrow> u128
    \<Rightarrow> signature_verifier \<Rightarrow> deposit_reject + unit" where
  "validate_wire_deposit sha3 pk amount randao creds commission pop max_stake_sat verifier =
     (case deposit_shape SUITE_MLDSA65_FALCON1024 (length pk) amount max_stake_sat of
        Inl e \<Rightarrow> Inl e
      | Inr _ \<Rightarrow>
          if \<not> verify_with_key verifier pk (wire_deposit_pop_root sha3 pk amount randao creds commission) pop
          then Inl BadProofOfPossession else Inr ())"

section \<open>The activation queue\<close>

record queued_deposit =
  queued_pubkey_hash :: hash32
  deposit_epoch :: u64
  queued_sat :: u128

definition deposit_queue_key :: "queued_deposit \<Rightarrow> u64 \<times> hash32" where
  "deposit_queue_key d = (deposit_epoch d, queued_pubkey_hash d)"

definition activation_queue_priority :: "digest \<Rightarrow> bool \<Rightarrow> hash32 \<Rightarrow> hash32 \<Rightarrow> hash32" where
  "activation_queue_priority sha3 queue_v2 seed pubkey_hash =
     (if \<not> queue_v2 then pubkey_hash else sha3 (DS_SORTITION @ seed @ pubkey_hash @ [ROLE_ACTIVATION_QUEUE]))"

text \<open>The loop; its state is the epoch being filled and the number of deposits admitted to it.\<close>

definition eligible_at :: "queued_deposit \<Rightarrow> u64" where
  "eligible_at d = saturating_add u64_max (deposit_epoch d) ACTIVATION_DELAY_EPOCHS"

fun activate_queue :: "u64 \<Rightarrow> u64 \<Rightarrow> usize \<Rightarrow> queued_deposit list \<Rightarrow> (hash32 \<times> u64) list" where
  "activate_queue epoch a n [] = []"
| "activate_queue epoch a n (d # ds) = (
     let (a, n) = (if eligible_at d > a then (eligible_at d, 0) else (a, n)) in
     case (if n = MAX_ACTIVATIONS_PER_EPOCH then map_option (\<lambda>a. (a, 0)) (checked_add u64_max a 1) else Some (a, n)) of
       None \<Rightarrow> []
     | Some (a, n) \<Rightarrow> if a > epoch then [] else (queued_pubkey_hash d, a) # activate_queue epoch a (n + 1) ds)"

definition resolve_activations :: "queued_deposit list \<Rightarrow> u64 \<Rightarrow> (hash32 \<times> u64) list" where
  "resolve_activations deposits epoch = activate_queue epoch 0 0 (sort_key deposit_queue_key deposits)"

section \<open>Exit and withdrawal\<close>

record validator_record =
  record_pubkey :: bytes
  record_sat :: u128
  activation_epoch_of :: u64
  exit_epoch :: "u64 option"
  record_withdrawal_addr :: hash32
  withdrawn :: bool

definition assigned_duties_at :: "validator_record \<Rightarrow> u64 \<Rightarrow> bool" where
  "assigned_duties_at rec epoch = (case exit_epoch rec of
     Some x \<Rightarrow> epoch < saturating_add u64_max x EXIT_DELAY_EPOCHS
   | None \<Rightarrow> epoch \<ge> activation_epoch_of rec)"

record exit_tx =
  exit_pubkey_hash :: hash32
  exit_tx_epoch :: u64
  exit_signature :: bytes

definition exit_signing_root :: "digest \<Rightarrow> exit_tx \<Rightarrow> hash32" where
  "exit_signing_root sha3 tx = sha3 (DS_EXIT @ exit_pubkey_hash tx @ le_bytes 8 (exit_tx_epoch tx))"

datatype exit_reject = ExitUnknownValidator | AlreadyExited | FutureEpoch | ExitBadSignature

definition validate_exit :: "digest \<Rightarrow> exit_tx \<Rightarrow> validator_record \<Rightarrow> u64 \<Rightarrow> hybrid_key_verifier \<Rightarrow> exit_reject + unit" where
  "validate_exit sha3 tx rec current_epoch verifier =
     (if exit_pubkey_hash tx \<noteq> sha3 (record_pubkey rec) then Inl ExitUnknownValidator
      else if exit_epoch rec \<noteq> None then Inl AlreadyExited
      else if exit_tx_epoch tx > current_epoch then Inl FutureEpoch
      else if \<not> verify_hybrid (record_pubkey rec) (exit_signing_root sha3 tx) (exit_signature tx) verifier
      then Inl ExitBadSignature else Inr ())"

datatype withdraw_reject = NotExited | DelayNotElapsed | AlreadyWithdrawn

definition validate_withdrawal :: "validator_record \<Rightarrow> u64 \<Rightarrow> withdraw_reject + (hash32 \<times> u128)" where
  "validate_withdrawal rec current_epoch = (case exit_epoch rec of
     None \<Rightarrow> Inl NotExited
   | Some x \<Rightarrow>
       if withdrawn rec then Inl AlreadyWithdrawn
       else if current_epoch < saturating_add u64_max x WITHDRAWAL_DELAY_EPOCHS then Inl DelayNotElapsed
       else Inr (record_withdrawal_addr rec, record_sat rec))"

section \<open>The documented schedule\<close>

text \<open>The rule the documentation states: epoch by epoch, admit at most four eligible deposits in queue
  order.  The first epoch may have less capacity left.\<close>

fun scan_epochs :: "usize \<Rightarrow> queued_deposit list \<Rightarrow> u64 list \<Rightarrow> (hash32 \<times> u64) list" where
  "scan_epochs c q [] = []"
| "scan_epochs c q (a # as) = (
     let now = take c (takeWhile (\<lambda>d. eligible_at d \<le> a) q) in
     map (\<lambda>d. (queued_pubkey_hash d, a)) now @ scan_epochs 4 (drop (length now) q) as)"

lemma scan_epochs_Nil: "scan_epochs c [] as = []"
  by (induction as arbitrary: c) auto

lemma scan_epochs_admit:
  "eligible_at d \<le> a \<Longrightarrow> scan_epochs (Suc c) (d # ds) (a # as) = (queued_pubkey_hash d, a) # scan_epochs c ds (a # as)"
  by (simp add: Let_def)

lemma scan_epochs_full: "scan_epochs 0 q (a # as) = scan_epochs 4 q as"
  by simp

lemma scan_epochs_wait:
  "a < eligible_at d \<Longrightarrow> scan_epochs c (d # ds) [a..<e] = scan_epochs 4 (d # ds) [eligible_at d..<e]"
proof (induction "eligible_at d - a" arbitrary: a c)
  case (Suc k)
  show ?case
  proof (cases "a < e")
    case True
    then have "scan_epochs c (d # ds) [a..<e] = scan_epochs 4 (d # ds) [Suc a..<e]"
      using Suc.prems by (simp add: upt_conv_Cons)
    also have "\<dots> = scan_epochs 4 (d # ds) [eligible_at d..<e]"
    proof (cases "Suc a < eligible_at d")
      case True
      then show ?thesis
        using Suc.hyps(1) [of "Suc a" 4] Suc.hyps(2) by simp
    next
      case False
      then have "eligible_at d = Suc a"
        using Suc.prems by simp
      then show ?thesis
        by simp
    qed
    finally show ?thesis .
  next
    case False
    then show ?thesis
      using Suc.prems by simp
  qed
qed simp

lemma activate_queue_admit:
  assumes IH: "\<And>a n. n \<le> 4 \<Longrightarrow> activate_queue epoch a n ds = scan_epochs (4 - n) ds [a..<Suc epoch]"
    and el: "eligible_at d \<le> a" and n: "n < 4"
  shows "activate_queue epoch a n (d # ds) = scan_epochs (4 - n) (d # ds) [a..<Suc epoch]"
proof (cases "a \<le> epoch")
  case True
  then have "[a..<Suc epoch] = a # [Suc a..<Suc epoch]" "4 - n = Suc (4 - Suc n)"
    using n by (simp_all add: upt_conv_Cons del: upt_Suc)
  then show ?thesis
    using IH [of "Suc n" a] el n True scan_epochs_admit [OF el, of "4 - Suc n" ds "[Suc a..<Suc epoch]"]
    by (simp add: MAX_ACTIVATIONS_PER_EPOCH_def del: upt_Suc scan_epochs.simps)
next
  case False
  then show ?thesis
    using el n by (simp add: MAX_ACTIVATIONS_PER_EPOCH_def)
qed

lemma activate_queue_next:
  "eligible_at d \<le> a \<Longrightarrow> a < u64_max \<Longrightarrow> activate_queue epoch a 4 (d # ds) = activate_queue epoch (Suc a) 0 (d # ds)"
  "epoch \<le> a \<Longrightarrow> eligible_at d \<le> a \<Longrightarrow> activate_queue epoch a 4 (d # ds) = []"
  "a < eligible_at d \<Longrightarrow> activate_queue epoch a n (d # ds) = activate_queue epoch (eligible_at d) 0 (d # ds)"
  by (auto simp: MAX_ACTIVATIONS_PER_EPOCH_def checked_add_def split: option.splits)

lemma activate_queue_scan:
  assumes "epoch \<le> u64_max" "n \<le> 4"
  shows "activate_queue epoch a n ds = scan_epochs (4 - n) ds [a..<Suc epoch]"
  using assms(2)
proof (induction ds arbitrary: a n)
  case (Cons d ds)
  have admit: "activate_queue epoch a n (d # ds) = scan_epochs (4 - n) (d # ds) [a..<Suc epoch]"
    if "eligible_at d \<le> a" "n < 4" for a n
    using Cons.IH that by (rule activate_queue_admit)
  consider "a < eligible_at d" | "eligible_at d \<le> a" "n < 4" | "eligible_at d \<le> a" "n = 4" "epoch \<le> a"
    | "eligible_at d \<le> a" "n = 4" "a < epoch"
    using Cons.prems by linarith
  then show ?case
  proof cases
    case 1
    then show ?thesis
      using admit [of "eligible_at d" 0] scan_epochs_wait [of a d "4 - n" ds "Suc epoch"] activate_queue_next(3) by (simp del: upt_Suc)
  next
    case 2
    then show ?thesis
      by (rule admit)
  next
    case 3
    then have "[a..<Suc epoch] \<in> {[], [a]}"
      by (cases "a = epoch") simp_all
    then show ?thesis
      using 3 activate_queue_next(2) by (auto simp del: upt_Suc)
  next
    case 4
    then have "[a..<Suc epoch] = a # [Suc a..<Suc epoch]" "a < u64_max"
      using assms(1) by (simp_all add: upt_conv_Cons del: upt_Suc)
    then show ?thesis
      using 4 admit [of "Suc a" 0] activate_queue_next(1) scan_epochs_full by (simp del: upt_Suc scan_epochs.simps)
  qed
qed (simp add: scan_epochs_Nil)

lemma resolve_activations_scan:
  "epoch \<le> u64_max \<Longrightarrow> resolve_activations ds epoch = scan_epochs 4 (sort_key deposit_queue_key ds) [0..<Suc epoch]"
  unfolding resolve_activations_def by (simp add: activate_queue_scan del: upt_Suc)

section \<open>The schedule\<close>

lemma scan_epochs_fifo: "map fst (scan_epochs c q as) = map queued_pubkey_hash (take (length (scan_epochs c q as)) q)"
proof (induction as arbitrary: c q)
  case (Cons a as)
  define now where "now = take c (takeWhile (\<lambda>d. eligible_at d \<le> a) q)"
  have "now = take (length now) q"
    unfolding now_def by (metis takeWhile_eq_take take_take length_take min.idem min.commute)
  then have "take (length now + k) q = now @ take k (drop (length now) q)" for k
    by (metis take_add)
  moreover have "scan_epochs c q (a # as) = map (\<lambda>d. (queued_pubkey_hash d, a)) now @ scan_epochs 4 (drop (length now) q) as"
    by (simp add: now_def)
  ultimately show ?case
    using Cons.IH [of 4 "drop (length now) q"] by (simp add: comp_def)
qed simp

lemma scan_epochs_append: "\<exists>rest. scan_epochs c q (as @ bs) = scan_epochs c q as @ rest"
proof (induction as arbitrary: c q)
  case (Cons a as)
  from Cons.IH [of 4 "drop (length (take c (takeWhile (\<lambda>d. eligible_at d \<le> a) q))) q"] show ?case
    by (auto simp: Let_def)
qed simp

lemma scan_epochs_in: "p \<in> set (scan_epochs c q as) \<Longrightarrow> snd p \<in> set as"
  by (induction as arbitrary: c q) (auto simp: Let_def)

lemma scan_epochs_cap: "distinct as \<Longrightarrow> c \<le> 4 \<Longrightarrow> length (filter (\<lambda>p. snd p = x) (scan_epochs c q as)) \<le> 4"
proof (induction as arbitrary: c q)
  case (Cons a as)
  define now where "now = take c (takeWhile (\<lambda>d. eligible_at d \<le> a) q)"
  have eq: "scan_epochs c q (a # as) = map (\<lambda>d. (queued_pubkey_hash d, a)) now @ scan_epochs 4 (drop (length now) q) as"
    by (simp add: now_def)
  show ?case
  proof (cases "x = a")
    case True
    have "filter (\<lambda>p. snd p = x) (scan_epochs 4 (drop (length now) q) as) = []"
      using Cons.prems(1) True scan_epochs_in by (fastforce simp: filter_empty_conv)
    moreover have "length now \<le> 4"
      using Cons.prems(2) by (simp add: now_def)
    ultimately show ?thesis
      unfolding eq by (simp add: filter_map comp_def True)
  next
    case False
    then show ?thesis
      unfolding eq using Cons by (simp add: filter_map comp_def)
  qed
qed simp

lemma scan_epochs_delay:
  "i < length (scan_epochs c q as) \<Longrightarrow> eligible_at (q ! i) \<le> snd (scan_epochs c q as ! i)"
proof (induction as arbitrary: c q i)
  case (Cons a as)
  define now where "now = take c (takeWhile (\<lambda>d. eligible_at d \<le> a) q)"
  have eq: "scan_epochs c q (a # as) = map (\<lambda>d. (queued_pubkey_hash d, a)) now @ scan_epochs 4 (drop (length now) q) as"
    by (simp add: now_def)
  have len: "length now \<le> length q"
    unfolding now_def length_take by (rule min.coboundedI1) (rule length_takeWhile_le)
  show ?case
  proof (cases "i < length now")
    case True
    then have "now ! i \<in> set (takeWhile (\<lambda>d. eligible_at d \<le> a) q)"
      unfolding now_def by (metis in_set_takeD nth_mem)
    moreover have "now ! i = q ! i"
      using True by (simp add: now_def takeWhile_nth)
    ultimately have "eligible_at (q ! i) \<le> a"
      by (metis set_takeWhileD)
    then show ?thesis
      unfolding eq using True by (simp add: nth_append)
  next
    case False
    then show ?thesis
      using Cons.IH [of "i - length now" 4 "drop (length now) q"] Cons.prems [unfolded eq] len unfolding eq by (simp add: nth_append)
  qed
qed simp

text \<open>Everyone is admitted in time: the loop never falls behind four admissions an epoch.\<close>

lemma activate_queue_all:
  assumes "epoch \<le> u64_max" "n \<le> 4" "\<forall>d \<in> set ds. eligible_at d \<le> D" "max (4 * a + n) (4 * D) + length ds \<le> 4 * epoch + 4"
  shows "length (activate_queue epoch a n ds) = length ds"
  using assms(2-4)
proof (induction ds arbitrary: a n)
  case (Cons d ds)
  have step: "length (activate_queue epoch a n (d # ds)) = Suc (length ds)"
    if "eligible_at d \<le> a" "n < 4" "max (4 * a + n) (4 * D) + Suc (length ds) \<le> 4 * epoch + 4" for a n
  proof -
    have "\<not> epoch < a"
      using that(3) by linarith
    moreover have "length (activate_queue epoch a (n + 1) ds) = length ds"
      using Cons.prems(2) that(2,3) by (intro Cons.IH) auto
    ultimately show ?thesis
      using that(1,2) by (simp add: MAX_ACTIVATIONS_PER_EPOCH_def)
  qed
  have el: "4 * eligible_at d \<le> 4 * D"
    using Cons.prems(2) by simp
  consider "a < eligible_at d" | "eligible_at d \<le> a" "n < 4" | "eligible_at d \<le> a" "n = 4"
    using Cons.prems(1) by linarith
  then show ?case
  proof cases
    case 1
    then have "activate_queue epoch a n (d # ds) = activate_queue epoch (eligible_at d) 0 (d # ds)"
      by (simp add: MAX_ACTIVATIONS_PER_EPOCH_def)
    then show ?thesis
      using step [of "eligible_at d" 0] Cons.prems(3) el by simp
  next
    case 2
    then show ?thesis
      using step Cons.prems(3) by simp
  next
    case 3
    have "Suc a \<le> u64_max"
      using Cons.prems(3) assms(1) 3(2) by simp
    then have "activate_queue epoch a n (d # ds) = activate_queue epoch (Suc a) 0 (d # ds)"
      using 3 by (simp add: MAX_ACTIVATIONS_PER_EPOCH_def checked_add_def)
    then show ?thesis
      using step [of "Suc a" 0] Cons.prems(3) 3 by simp
  qed
qed simp

text \<open>The loop reads only the keys of the deposits.\<close>

lemma activate_queue_keys:
  "map deposit_queue_key ds = map deposit_queue_key ds' \<Longrightarrow> activate_queue epoch a n ds = activate_queue epoch a n ds'"
proof (induction ds arbitrary: ds' a n)
  case (Cons d ds)
  then obtain d' es where ds': "ds' = d' # es" "deposit_queue_key d = deposit_queue_key d'" "map deposit_queue_key ds = map deposit_queue_key es"
    by auto
  then have eqs: "eligible_at d' = eligible_at d" "queued_pubkey_hash d' = queued_pubkey_hash d"
    by (simp_all add: deposit_queue_key_def eligible_at_def)
  show ?case
    unfolding ds'(1) activate_queue.simps Cons.IH [OF ds'(3)] eqs by (rule refl)
qed simp

lemma resolve_activations_perm:
  assumes "mset ds = mset ds'"
  shows "resolve_activations ds epoch = resolve_activations ds' epoch"
proof -
  have "map deposit_queue_key (sort_key deposit_queue_key ds) = map deposit_queue_key (sort_key deposit_queue_key ds')"
    unfolding map_sort_key using assms by (intro properties_for_sort) (simp_all add: mset_map)
  then show ?thesis
    unfolding resolve_activations_def by (rule activate_queue_keys)
qed

section \<open>Judgements\<close>

lemma validate_deposit_iff:
  "validate_deposit sha3 tx inputs m V = Inr () \<longleftrightarrow>
     suite tx = 1 \<and> (\<forall>i \<in> set inputs. transparent i \<and> \<not> tainted i) \<and> length (deposit_pubkey tx) = 3745 \<and>
     MIN_DEPOSIT_SAT \<le> deposit_sat tx \<and> deposit_sat tx \<le> m \<and> 3309 < length (proof_of_possession tx) \<and>
     verify_mldsa65 V (take 1952 (deposit_pubkey tx)) (deposit_signing_root sha3 tx) (take 3309 (proof_of_possession tx)) \<and>
     verify_falcon1024 V (drop 1952 (deposit_pubkey tx)) (deposit_signing_root sha3 tx) (drop 3309 (proof_of_possession tx))"
  by (auto simp: validate_deposit_def deposit_shape_def verify_hybrid_def staking_consts list_ex_iff split: if_splits)

lemma validate_withdrawal_Inr:
  "validate_withdrawal rec e = Inr p \<longleftrightarrow> (\<exists>x. exit_epoch rec = Some x) \<and> \<not> withdrawn rec \<and>
     min u64_max (the (exit_epoch rec) + 2048) \<le> e \<and> p = (record_withdrawal_addr rec, record_sat rec)"
  by (auto simp: validate_withdrawal_def staking_consts saturating_add_def split: option.splits if_splits)

text \<open>Growth: from a window already in use, the admitted stakes stay within the budget and the next one
  would not; from an unused window the first stake is always admitted.\<close>

lemma growth_admissions_within:
  assumes "used \<noteq> 0" "used \<le> budget" "budget < u128_max"
  shows "used + sum_list (take (growth_admissions used budget xs) xs) \<le> budget \<and>
    (growth_admissions used budget xs < length xs \<longrightarrow>
      budget < used + sum_list (take (Suc (growth_admissions used budget xs)) xs))"
  using assms
proof (induction xs arbitrary: used)
  case (Cons x xs)
  show ?case
  proof (cases "budget < saturating_add u128_max used x")
    case True
    then show ?thesis
      using Cons.prems by (simp add: saturating_add_def)
  next
    case False
    then have "saturating_add u128_max used x = used + x" "used + x \<le> budget"
      using Cons.prems(3) by (auto simp: saturating_add_def min_def split: if_splits)
    then show ?thesis
      using Cons.IH [of "used + x"] Cons.prems by (simp add: add.assoc)
  qed
qed simp

lemma growth_admissions_first: "0 < growth_admissions 0 budget (x # xs)"
  by simp

text \<open>Once an exit is recorded the activation epoch is not consulted: a validator that exits while it
  waits for its activation counts as on duty before it.\<close>

lemma duties_before_activation:
  "assigned_duties_at \<lparr> record_pubkey = [], record_sat = 0, activation_epoch_of = 100, exit_epoch = Some 50,
     record_withdrawal_addr = [], withdrawn = False \<rparr> 60"
  by (simp add: assigned_duties_at_def saturating_add_def EXIT_DELAY_EPOCHS_def u64_max_def)

section \<open>Properties\<close>

text \<open>C15. The activation queue jumps from boundary to boundary but computes the documented schedule: its result is the
  epoch-by-epoch scan that admits at most four eligible deposits per epoch in queue order, and it does not depend on the
  order in which the node holds the deposits.\<close>

theorem activation_schedule:
  assumes "epoch \<le> u64_max"
  shows "resolve_activations ds epoch = scan_epochs 4 (sort_key deposit_queue_key ds) [0..<Suc epoch] \<and>
    (mset ds = mset ds' \<longrightarrow> resolve_activations ds epoch = resolve_activations ds' epoch)"
  using resolve_activations_scan [OF assms] resolve_activations_perm by blast

theorem activation_schedule_witness:
  "resolve_activations [\<lparr> queued_pubkey_hash = [2], deposit_epoch = 1, queued_sat = 5 \<rparr>, \<lparr> queued_pubkey_hash = [1], deposit_epoch = 1, queued_sat = 7 \<rparr>] 12
   = scan_epochs 4 (sort_key deposit_queue_key [\<lparr> queued_pubkey_hash = [2], deposit_epoch = 1, queued_sat = 5 \<rparr>, \<lparr> queued_pubkey_hash = [1], deposit_epoch = 1, queued_sat = 7 \<rparr>]) [0..<Suc 12]"
  by (rule activation_schedule [THEN conjunct1]) (simp add: u64_max_def)

text \<open>The queue is fair and live: deposits activate in queue order, at most four an epoch, none before its delay has
  passed or after the epoch asked for; a later epoch extends the answer of an earlier one; and when every deposit is
  eligible by epoch \<open>D\<close>, all are active as soon as four an epoch from \<open>D\<close> on suffice for their number.\<close>

theorem activation_queue:
  assumes "epoch \<le> u64_max" "r = resolve_activations ds epoch" "q = sort_key deposit_queue_key ds"
  shows "map fst r = map queued_pubkey_hash (take (length r) q) \<and>
    (\<forall>i < length r. eligible_at (q ! i) \<le> snd (r ! i) \<and> snd (r ! i) \<le> epoch) \<and>
    (\<forall>a. length (filter (\<lambda>p. snd p = a) r) \<le> 4) \<and>
    (\<forall>e' \<le> epoch. \<exists>rest. r = resolve_activations ds e' @ rest) \<and>
    (\<forall>D. (\<forall>d \<in> set ds. eligible_at d \<le> D) \<and> 4 * D + length ds \<le> 4 * epoch + 4 \<longrightarrow> length r = length ds)"
proof -
  have r: "r = scan_epochs 4 q [0..<Suc epoch]"
    using assms resolve_activations_scan by simp
  have "\<exists>rest. r = resolve_activations ds e' @ rest" if "e' \<le> epoch" for e'
  proof -
    have "[0..<Suc epoch] = [0..<Suc e'] @ [Suc e'..<Suc epoch]"
      using that upt_add_eq_append [of 0 "Suc e'" "epoch - e'"] by simp
    moreover have "resolve_activations ds e' = scan_epochs 4 q [0..<Suc e']"
      using that assms(1,3) resolve_activations_scan by simp
    ultimately show ?thesis
      unfolding r using scan_epochs_append by metis
  qed
  moreover have "length r = length ds"
    if "(\<forall>d \<in> set ds. eligible_at d \<le> D) \<and> 4 * D + length ds \<le> 4 * epoch + 4" for D
    unfolding assms(2) resolve_activations_def
    using that assms(1) activate_queue_all [of epoch 0 "sort_key deposit_queue_key ds" D 0] by simp
  moreover have "snd (r ! i) \<le> epoch" if "i < length r" for i
    using scan_epochs_in [of "r ! i" 4 q "[0..<Suc epoch]"] that nth_mem [OF that] unfolding r by auto
  moreover have "map fst r = map queued_pubkey_hash (take (length r) q)"
    unfolding r by (rule scan_epochs_fifo)
  moreover have "eligible_at (q ! i) \<le> snd (r ! i)" if "i < length r" for i
    using that unfolding r by (rule scan_epochs_delay)
  moreover have "length (filter (\<lambda>p. snd p = a) r) \<le> 4" for a
    unfolding r by (rule scan_epochs_cap) simp_all
  ultimately show ?thesis
    by blast
qed

theorem activation_queue_witness:
  "length (resolve_activations (map (\<lambda>b. \<lparr> queued_pubkey_hash = [b], deposit_epoch = 1, queued_sat = 5 \<rparr>) [1, 2, 3, 4, 5]) 10) = 5"
proof -
  define ds where "ds = map (\<lambda>b::byte. \<lparr> queued_pubkey_hash = [b], deposit_epoch = 1, queued_sat = 5 \<rparr>) [1, 2, 3, 4, 5]"
  have "(\<forall>d \<in> set ds. eligible_at d \<le> 9) \<and> 4 * 9 + length ds \<le> 4 * 10 + 4"
    by (simp add: ds_def eligible_at_def saturating_add_def ACTIVATION_DELAY_EPOCHS_def u64_max_def)
  moreover have "(10::nat) \<le> u64_max"
    by (simp add: u64_max_def)
  ultimately have "length (resolve_activations ds 10) = length ds"
    using activation_queue [OF _ refl refl, of 10 ds] by blast
  then show ?thesis
    by (simp add: ds_def)
qed

end
