(* ===== verification/Weak_Subjectivity.thy ===== *)
theory Weak_Subjectivity
  imports Staking Finality
begin

text \<open>
  Weak subjectivity (\<^verbatim>\<open>bloch-pos-committee/src/ws.rs\<close>): the checkpoint and its digest, the signer
  arrangement and the verification of an envelope, and the decisions of a node that boots, stores or
  compares checkpoints.  The window is derived from the staking delays, and the main result composes
  the two components: inside the window no validator that was on duty at the anchor can have
  withdrawn.
\<close>

section \<open>Periods\<close>

definition DS_WSCKPT :: bytes where
  "DS_WSCKPT = domain_tag ''BLCH4:WSCKPT''"

definition WS_PERIOD_EPOCHS :: u64 where
  "WS_PERIOD_EPOCHS = WITHDRAWAL_DELAY_EPOCHS - EXIT_DELAY_EPOCHS"

definition WS_FRESH_EPOCHS :: u64 where
  "WS_FRESH_EPOCHS = WS_PERIOD_EPOCHS div 2"

definition EPOCHS_PER_DAY :: u64 where
  "EPOCHS_PER_DAY = 86400 div (SLOT_DURATION_SECS * SLOTS_PER_EPOCH)"

definition WS_ARRANGEMENT_REVIEW_EPOCHS :: u64 where
  "WS_ARRANGEMENT_REVIEW_EPOCHS = 365 * EPOCHS_PER_DAY"

definition WS_ARRANGEMENT_GRACE_EPOCHS :: u64 where
  "WS_ARRANGEMENT_GRACE_EPOCHS = 91 * EPOCHS_PER_DAY"

section \<open>Checkpoints\<close>

definition WS_FORMAT_VERSION :: nat where
  "WS_FORMAT_VERSION = 1"

definition WS_CHECKPOINT_BYTES :: usize where
  "WS_CHECKPOINT_BYTES = 2 + 4 + 32 + 8 + 32 + 32 + 32 + 8 + 4"

record ws_checkpoint =
  ws_version :: nat
  network_id :: u32
  genesis_root :: hash32
  ws_epoch :: u64
  block_root :: hash32
  ws_state_root :: hash32
  validator_set_root :: hash32
  issued_at :: u64
  signer_set_id :: u32

definition ws_serialize :: "ws_checkpoint \<Rightarrow> bytes" where
  "ws_serialize cp = le_bytes 2 (ws_version cp) @ le_bytes 4 (network_id cp) @ genesis_root cp @ le_bytes 8 (ws_epoch cp) @
     block_root cp @ ws_state_root cp @ validator_set_root cp @ le_bytes 8 (issued_at cp) @ le_bytes 4 (signer_set_id cp)"

definition ws_digest :: "digest \<Rightarrow> ws_checkpoint \<Rightarrow> hash32" where
  "ws_digest sha3 cp = sha3 (DS_WSCKPT @ ws_serialize cp)"

definition as_finality_checkpoint :: "ws_checkpoint \<Rightarrow> checkpoint" where
  "as_finality_checkpoint cp = checkpoint.make (ws_epoch cp) (block_root cp)"

definition anchor :: "ws_checkpoint \<Rightarrow> finality_error + finality_state" where
  "anchor cp = new_state (as_finality_checkpoint cp)"

section \<open>The signer arrangement\<close>

definition WS_GENESIS_SIGNER_SET_ID :: u32 where
  "WS_GENESIS_SIGNER_SET_ID = 0"

record signer =
  signer_pubkey :: bytes
  external :: bool

record signer_set =
  set_id :: u32
  signers :: "signer list"
  threshold :: usize
  min_external :: usize
  adopted_epoch :: u64

definition review_deadline :: "signer_set \<Rightarrow> u64" where
  "review_deadline ss = saturating_add u64_max (adopted_epoch ss) WS_ARRANGEMENT_REVIEW_EPOCHS"

definition hard_stop :: "signer_set \<Rightarrow> u64" where
  "hard_stop ss = saturating_add u64_max (review_deadline ss) WS_ARRANGEMENT_GRACE_EPOCHS"

definition matches_policy :: "signer_set \<Rightarrow> usize \<Rightarrow> usize \<Rightarrow> usize \<Rightarrow> bool" where
  "matches_policy ss t n m = (threshold ss = t \<and> length (signers ss) = n \<and> min_external ss = m \<and>
     length (filter external (signers ss)) \<ge> m \<and> threshold ss \<le> length (signers ss) \<and> min_external ss \<le> threshold ss)"

record checkpoint_envelope =
  env_checkpoint :: ws_checkpoint
  env_signatures :: "(nat \<times> bytes) list"

datatype envelope_reject = WrongVersion nat | WrongNetwork u32 u32 | WrongGenesisRoot | WrongSignerSet u32 u32 | ReservedSignerSet
  | ArrangementExpired u64 | UnknownSignerIndex nat | DuplicateSigner nat | DuplicateSignerKey usize usize
  | QuorumNotReached usize usize | ExternalQuorumNotReached usize usize | EnvelopeBadSignature nat
  | SignerSetShapeMismatch usize usize usize

record envelope_ok =
  arrangement_past_review :: bool

text \<open>The first signer whose key occurs earlier in the list.\<close>

fun duplicate_key :: "bytes list \<Rightarrow> bytes list \<Rightarrow> (usize \<times> usize) option" where
  "duplicate_key before [] = None"
| "duplicate_key before (k # ks) =
     (if k \<in> set before then Some (length (takeWhile (\<lambda>x. x \<noteq> k) before), length before)
      else duplicate_key (before @ [k]) ks)"

fun check_indices :: "usize \<Rightarrow> bool list \<Rightarrow> (nat \<times> bytes) list \<Rightarrow> envelope_reject option" where
  "check_indices n seen [] = None"
| "check_indices n seen ((i, sg) # sigs) =
     (if i \<ge> n then Some (UnknownSignerIndex i)
      else if seen ! i then Some (DuplicateSigner i)
      else check_indices n (seen[i := True]) sigs)"

fun check_envelope_signatures :: "hash32 \<Rightarrow> signer list \<Rightarrow> hybrid_key_verifier \<Rightarrow> (nat \<times> bytes) list \<Rightarrow> envelope_reject option" where
  "check_envelope_signatures dig ss V [] = None"
| "check_envelope_signatures dig ss V ((i, sg) # sigs) =
     (if \<not> verify_hybrid (signer_pubkey (ss ! i)) dig sg V then Some (EnvelopeBadSignature i)
      else check_envelope_signatures dig ss V sigs)"

definition verify_envelope :: "digest \<Rightarrow> checkpoint_envelope \<Rightarrow> signer_set \<Rightarrow> u32 \<Rightarrow> hash32 \<Rightarrow> hybrid_key_verifier
    \<Rightarrow> envelope_reject + envelope_ok" where
  "verify_envelope sha3 env ss network genesis V = (
     let cp = env_checkpoint env; sigs = env_signatures env;
         external_listed = length (filter (\<lambda>(i, _). external (signers ss ! i)) sigs) in
     if threshold ss = 0 \<or> length (signers ss) > 256 \<or> threshold ss > length (signers ss) \<or> min_external ss > threshold ss \<or>
       length (filter external (signers ss)) < min_external ss
     then Inl (SignerSetShapeMismatch (threshold ss) (length (signers ss)) (min_external ss))
     else case duplicate_key [] (map signer_pubkey (signers ss)) of
       Some (a, b) \<Rightarrow> Inl (DuplicateSignerKey a b)
     | None \<Rightarrow>
         if ws_version cp \<noteq> WS_FORMAT_VERSION then Inl (WrongVersion (ws_version cp))
         else if network_id cp \<noteq> network then Inl (WrongNetwork (network_id cp) network)
         else if genesis_root cp \<noteq> genesis then Inl WrongGenesisRoot
         else if signer_set_id cp = WS_GENESIS_SIGNER_SET_ID \<or> set_id ss = WS_GENESIS_SIGNER_SET_ID then Inl ReservedSignerSet
         else if signer_set_id cp \<noteq> set_id ss then Inl (WrongSignerSet (signer_set_id cp) (set_id ss))
         else if ws_epoch cp > hard_stop ss then Inl (ArrangementExpired (hard_stop ss))
         else case check_indices (length (signers ss)) (replicate 256 False) sigs of
           Some e \<Rightarrow> Inl e
         | None \<Rightarrow>
             if length sigs < threshold ss then Inl (QuorumNotReached (length sigs) (threshold ss))
             else if external_listed < min_external ss then Inl (ExternalQuorumNotReached external_listed (min_external ss))
             else case check_envelope_signatures (ws_digest sha3 cp) (signers ss) V sigs of
               Some e \<Rightarrow> Inl e
             | None \<Rightarrow> Inr \<lparr> arrangement_past_review = ws_epoch cp > review_deadline ss \<rparr>)"

definition verify_envelope_with_shape_policy :: "digest \<Rightarrow> checkpoint_envelope \<Rightarrow> signer_set \<Rightarrow> u32 \<Rightarrow> hash32 \<Rightarrow> hybrid_key_verifier
    \<Rightarrow> usize \<Rightarrow> usize \<Rightarrow> usize \<Rightarrow> envelope_reject + envelope_ok" where
  "verify_envelope_with_shape_policy sha3 env ss network genesis V t n m =
     (if \<not> matches_policy ss t n m then Inl (SignerSetShapeMismatch t n m)
      else verify_envelope sha3 env ss network genesis V)"

section \<open>Decisions of a node\<close>

datatype acceptance = Store | Ignore | Conflict

definition accept :: "digest \<Rightarrow> ws_checkpoint option \<Rightarrow> ws_checkpoint \<Rightarrow> acceptance" where
  "accept sha3 stored incoming = (case stored of
     None \<Rightarrow> Store
   | Some s \<Rightarrow>
       if ws_epoch incoming > ws_epoch s then Store
       else if ws_epoch incoming < ws_epoch s then Ignore
       else if ws_digest sha3 incoming = ws_digest sha3 s then Ignore else Conflict)"

datatype boot_decision = RequireCheckpoint | Resume | ResumeStaleWarn | RefuseStale

definition boot_decision_of :: "bool \<Rightarrow> u64 \<Rightarrow> boot_decision" where
  "boot_decision_of has_local_finality age_epochs =
     (if \<not> has_local_finality then RequireCheckpoint
      else if age_epochs < WS_FRESH_EPOCHS then Resume
      else if age_epochs < WS_PERIOD_EPOCHS then ResumeStaleWarn
      else RefuseStale)"

datatype reconciliation = ContinueForward | HaltForOperator hash32 hash32

definition reconcile :: "ws_checkpoint \<Rightarrow> hash32 \<Rightarrow> bool \<Rightarrow> reconciliation" where
  "reconcile cp local_finalized_root checkpoint_descends_local =
     (if checkpoint_descends_local \<or> block_root cp = local_finalized_root then ContinueForward
      else HaltForOperator local_finalized_root (block_root cp))"

datatype cross_check = Consistent | AheadOfLocal | RootConflict hash32 hash32

definition cross_check_of :: "hash32 option \<Rightarrow> ws_checkpoint \<Rightarrow> cross_check" where
  "cross_check_of local_root published = (case local_root of
     None \<Rightarrow> AheadOfLocal
   | Some r \<Rightarrow> if r = block_root published then Consistent else RootConflict r (block_root published))"

definition genesis_anchor :: "u32 \<Rightarrow> hash32 \<Rightarrow> hash32 \<Rightarrow> hash32 \<Rightarrow> u64 \<Rightarrow> ws_checkpoint" where
  "genesis_anchor network genesis sroot vroot issued = \<lparr> ws_version = WS_FORMAT_VERSION, network_id = network,
     genesis_root = genesis, ws_epoch = 0, block_root = genesis, ws_state_root = sroot, validator_set_root = vroot,
     issued_at = issued, signer_set_id = WS_GENESIS_SIGNER_SET_ID \<rparr>"

section \<open>Envelopes\<close>

lemma duplicate_key_None: "distinct before \<Longrightarrow> duplicate_key before ks = None \<longleftrightarrow> distinct (before @ ks)"
  by (induction ks arbitrary: before) auto

lemma check_indices_None:
  "n \<le> length seen \<Longrightarrow> check_indices n seen sigs = None \<longleftrightarrow>
     (\<forall>p \<in> set sigs. fst p < n \<and> \<not> seen ! fst p) \<and> distinct (map fst sigs)"
proof (induction sigs arbitrary: seen)
  case (Cons p sigs)
  obtain i sg where p: "p = (i, sg)"
    by fastforce
  show ?case
  proof (cases "i < n \<and> \<not> seen ! i")
    case True
    then have "i < length seen"
      using Cons.prems by simp
    then have "(\<forall>p \<in> set sigs. fst p < n \<and> \<not> seen[i := True] ! fst p) \<longleftrightarrow>
        (\<forall>p \<in> set sigs. fst p < n \<and> \<not> seen ! fst p) \<and> i \<notin> fst ` set sigs"
      by (auto simp: nth_list_update)
    then show ?thesis
      using True Cons.IH [of "seen[i := True]"] Cons.prems by (auto simp: p)
  next
    case False
    then show ?thesis
      by (auto simp: p)
  qed
qed simp

lemma check_envelope_signatures_None:
  "check_envelope_signatures dig ss V sigs = None \<longleftrightarrow> (\<forall>(i, sg) \<in> set sigs. verify_hybrid (signer_pubkey (ss ! i)) dig sg V)"
  by (induction sigs) (auto split: if_splits)

lemma verify_envelope_Inr:
  assumes "verify_envelope sha3 env ss network genesis V = Inr ok"
  shows "0 < threshold ss" "length (signers ss) \<le> 256" "distinct (map signer_pubkey (signers ss))"
    and "genesis_root (env_checkpoint env) = genesis" "network_id (env_checkpoint env) = network"
    and "ws_epoch (env_checkpoint env) \<le> hard_stop ss"
    and "distinct (map fst (env_signatures env))" "\<forall>p \<in> set (env_signatures env). fst p < length (signers ss)"
    and "threshold ss \<le> length (env_signatures env)"
    and "min_external ss \<le> length (filter (\<lambda>(i, _). external (signers ss ! i)) (env_signatures env))"
    and "\<forall>(i, sg) \<in> set (env_signatures env). verify_hybrid (signer_pubkey (signers ss ! i)) (ws_digest sha3 (env_checkpoint env)) sg V"
  using assms duplicate_key_None [of "[]" "map signer_pubkey (signers ss)"]
    check_indices_None [of "length (signers ss)" "replicate 256 False" "env_signatures env"] check_envelope_signatures_None
  by (auto simp: verify_envelope_def Let_def split: if_splits option.splits prod.splits)

text \<open>Distinct indices into a list of distinct keys name distinct keys.\<close>

lemma distinct_keys_of_indices:
  assumes "distinct (map key xs)" "distinct (map fst ps)" "\<forall>p \<in> set ps. fst p < length xs"
  shows "card ((\<lambda>p. key (xs ! fst p)) ` set ps) = length ps"
proof -
  have "inj_on (\<lambda>p. key (xs ! fst p)) (set ps)"
  proof (rule inj_onI)
    fix p q
    assume pq: "p \<in> set ps" "q \<in> set ps" "key (xs ! fst p) = key (xs ! fst q)"
    then have "fst p = fst q"
      using assms(1,3) nth_eq_iff_index_eq [of "map key xs" "fst p" "fst q"] by auto
    then show "p = q"
      using assms(2) pq(1,2) by (metis eq_key_imp_eq_value prod.collapse)
  qed
  then show ?thesis
    using assms(2) by (simp add: card_image distinct_card distinct_map)
qed

section \<open>The encoding\<close>

definition ws_ok :: "ws_checkpoint \<Rightarrow> bool" where
  "ws_ok cp = (ws_version cp < 256 ^ 2 \<and> network_id cp \<le> u32_max \<and> ws_epoch cp \<le> u64_max \<and> issued_at cp \<le> u64_max \<and>
     signer_set_id cp \<le> u32_max \<and> list_all (\<lambda>r. length r = 32) [genesis_root cp, block_root cp, ws_state_root cp, validator_set_root cp])"

text \<open>The encoding has the stated length and determines the checkpoint, so checkpoints with one digest
  are equal or exhibit a collision.\<close>

lemma length_ws_serialize: "ws_ok cp \<Longrightarrow> length (ws_serialize cp) = WS_CHECKPOINT_BYTES"
  by (simp add: ws_ok_def ws_serialize_def WS_CHECKPOINT_BYTES_def)

lemma ws_serialize_inject:
  assumes "ws_ok a" "ws_ok b" "ws_serialize a = ws_serialize b"
  shows "a = b"
  using assms by (cases a; cases b) (simp add: ws_ok_def ws_serialize_def u_bytes le_bytes_inject)

lemma ws_digest_binding:
  assumes "ws_ok a" "ws_ok b" "ws_digest sha3 a = ws_digest sha3 b" "a \<noteq> b"
  shows "collides_in sha3 [DS_WSCKPT @ ws_serialize a, DS_WSCKPT @ ws_serialize b]"
  using assms ws_serialize_inject [of a b] by (auto simp: ws_digest_def collides_in_def)

text \<open>A node that stores what it accepts never lowers its floor, and a conflicting checkpoint of the
  floor's epoch never replaces it.\<close>

definition store_step :: "digest \<Rightarrow> ws_checkpoint option \<Rightarrow> ws_checkpoint \<Rightarrow> ws_checkpoint option" where
  "store_step sha3 stored incoming = (if accept sha3 stored incoming = Store then Some incoming else stored)"

lemma store_step_floor:
  assumes "foldl (store_step sha3) (Some cp) cps = st"
  shows "\<exists>cp'. st = Some cp' \<and> ws_epoch cp \<le> ws_epoch cp' \<and> (ws_epoch cp' = ws_epoch cp \<longrightarrow> cp' = cp)"
  using assms
proof (induction cps arbitrary: cp)
  case (Cons c cps)
  consider "store_step sha3 (Some cp) c = Some cp" | "store_step sha3 (Some cp) c = Some c" "ws_epoch cp < ws_epoch c"
    by (cases "ws_epoch cp < ws_epoch c") (auto simp: store_step_def accept_def split: if_splits)
  then show ?case
  proof cases
    case 1
    then show ?thesis
      using Cons by simp
  next
    case 2
    then show ?thesis
      using Cons.IH [of c] Cons.prems by fastforce
  qed
qed auto

section \<open>Properties\<close>

text \<open>C10. Inside the weak-subjectivity window every signer is still slashable: while a node resumes from finality of
  epoch \<open>f\<close>, no validator that had duties in \<open>f\<close> can have a withdrawal accepted, whenever its exit was recorded; and
  the window is as long as it can be, since one epoch after the first refused age some exiting validator that served in
  \<open>f\<close> can already withdraw.\<close>

theorem ws_window:
  assumes "assigned_duties_at rec f" "f \<le> now" "now < u64_max"
    and "boot_decision_of True (now - f) \<in> {Resume, ResumeStaleWarn}"
  shows "(\<exists>e. validate_withdrawal rec now = Inl e) \<and>
    (31 \<le> f \<and> f + WS_PERIOD_EPOCHS < u64_max \<longrightarrow> (\<exists>rec'. assigned_duties_at rec' f \<and>
      (\<exists>e. validate_withdrawal rec' (f + WS_PERIOD_EPOCHS) = Inl e) \<and>
      (\<exists>p. validate_withdrawal rec' (f + WS_PERIOD_EPOCHS + 1) = Inr p)))"
proof -
  have now: "now < f + 2016"
    using assms(2,4) by (auto simp: boot_decision_of_def WS_FRESH_EPOCHS_def WS_PERIOD_EPOCHS_def staking_consts split: if_splits)
  have "validate_withdrawal rec now \<noteq> Inr p" for p
    using assms(1,3) now
    by (auto simp: validate_withdrawal_Inr assigned_duties_at_def saturating_add_def staking_consts split: option.splits)
  then have "\<exists>e. validate_withdrawal rec now = Inl e"
    by (cases "validate_withdrawal rec now") auto
  moreover have "\<exists>rec'. assigned_duties_at rec' f \<and> (\<exists>e. validate_withdrawal rec' (f + WS_PERIOD_EPOCHS) = Inl e) \<and>
      (\<exists>p. validate_withdrawal rec' (f + WS_PERIOD_EPOCHS + 1) = Inr p)" if "31 \<le> f" "f + WS_PERIOD_EPOCHS < u64_max"
    using that
    by (intro exI [of _ "\<lparr> record_pubkey = [], record_sat = 0, activation_epoch_of = 0, exit_epoch = Some (f - 31),
        record_withdrawal_addr = [], withdrawn = False \<rparr>"])
      (auto simp: validate_withdrawal_def assigned_duties_at_def saturating_add_def staking_consts WS_PERIOD_EPOCHS_def)
  ultimately show ?thesis
    by blast
qed

theorem ws_window_witness:
  "\<exists>e. validate_withdrawal \<lparr> record_pubkey = [], record_sat = 9, activation_epoch_of = 0, exit_epoch = Some 9969,
     record_withdrawal_addr = [], withdrawn = False \<rparr> 12015 = Inl e"
  by (rule ws_window [where f = 10000, THEN conjunct1])
    (simp_all add: assigned_duties_at_def saturating_add_def staking_consts u64_max_def boot_decision_of_def
      WS_FRESH_EPOCHS_def WS_PERIOD_EPOCHS_def)

text \<open>A registered key has signed the checkpoint of an envelope.\<close>

definition has_signed :: "digest \<Rightarrow> checkpoint_envelope \<Rightarrow> signer_set \<Rightarrow> hybrid_key_verifier \<Rightarrow> bytes \<Rightarrow> bool" where
  "has_signed sha3 env ss V k = list_ex (\<lambda>(i, sg). i < length (signers ss) \<and> signer_pubkey (signers ss ! i) = k \<and>
     verify_hybrid k (ws_digest sha3 (env_checkpoint env)) sg V) (env_signatures env)"

text \<open>C21. An accepted envelope carries a real quorum: at least the threshold of different registered keys, and at least the
  required number of different external ones, signed the digest of this very checkpoint with both halves of the scheme;
  the checkpoint is for this network and genesis and was issued before the arrangement's hard stop.\<close>

theorem ws_envelope_quorum:
  assumes "verify_envelope sha3 env ss network genesis V = Inr ok"
  shows "threshold ss \<le> card {k \<in> set (map signer_pubkey (signers ss)). has_signed sha3 env ss V k} \<and>
    min_external ss \<le> card {k \<in> set (map signer_pubkey (filter external (signers ss))). has_signed sha3 env ss V k} \<and> 0 < threshold ss \<and>
    network_id (env_checkpoint env) = network \<and> genesis_root (env_checkpoint env) = genesis \<and>
    ws_epoch (env_checkpoint env) \<le> hard_stop ss"
proof -
  note ok = verify_envelope_Inr [OF assms(1)]
  let ?key = "\<lambda>p. signer_pubkey (signers ss ! fst p)"
  define ext where "ext = filter (\<lambda>p. external (signers ss ! fst p)) (env_signatures env)"
  have sgn: "has_signed sha3 env ss V (?key p)" if "p \<in> set (env_signatures env)" for p
    using that ok(8,11) unfolding has_signed_def list_ex_iff by (intro bexI [of _ p]) auto
  have "card (?key ` set (env_signatures env)) \<le> card {k \<in> set (map signer_pubkey (signers ss)). has_signed sha3 env ss V k}"
    using sgn ok(8) by (intro card_mono) auto
  then have "threshold ss \<le> card {k \<in> set (map signer_pubkey (signers ss)). has_signed sha3 env ss V k}"
    using distinct_keys_of_indices [OF ok(3,7,8)] ok(9) by simp
  moreover have "card (?key ` set ext) \<le> card {k \<in> set (map signer_pubkey (filter external (signers ss))). has_signed sha3 env ss V k}"
    using sgn ok(8) by (intro card_mono) (auto simp: ext_def)
  moreover have "card (?key ` set ext) = length ext"
    using ok(7,8) by (intro distinct_keys_of_indices [OF ok(3)]) (auto simp: ext_def distinct_map_filter)
  moreover have "length ext = length (filter (\<lambda>(i, _). external (signers ss ! i)) (env_signatures env))"
    by (simp add: ext_def case_prod_beta')
  ultimately show ?thesis
    using ok(1,4,5,6,10) by simp
qed

definition demo_signers :: signer_set where
  "demo_signers = \<lparr> set_id = 1, signers = [\<lparr> signer_pubkey = [1], external = False \<rparr>, \<lparr> signer_pubkey = [2], external = False \<rparr>,
     \<lparr> signer_pubkey = [3], external = True \<rparr>], threshold = 2, min_external = 1, adopted_epoch = 100 \<rparr>"

definition demo_envelope :: checkpoint_envelope where
  "demo_envelope = \<lparr> env_checkpoint = (genesis_anchor 7 (replicate 32 1) (replicate 32 2) (replicate 32 3) 0)\<lparr> ws_epoch := 256, signer_set_id := 1 \<rparr>,
     env_signatures = [(2, replicate 3310 0), (0, replicate 3310 0)] \<rparr>"

theorem ws_envelope_quorum_witness:
  "\<exists>ok V. verify_envelope (\<lambda>x. take 32 x) demo_envelope demo_signers 7 (replicate 32 1) V = Inr ok \<and>
     2 \<le> card {k \<in> set (map signer_pubkey (signers demo_signers)). has_signed (\<lambda>x. take 32 x) demo_envelope demo_signers V k}"
proof -
  define V where "V = \<lparr> verify_mldsa65 = \<lambda>_ _ _. True, verify_falcon1024 = \<lambda>_ _ _. True \<rparr>"
  have ok: "verify_envelope (\<lambda>x. take 32 x) demo_envelope demo_signers 7 (replicate 32 1) V = Inr \<lparr> arrangement_past_review = False \<rparr>"
    by (simp add: verify_envelope_def demo_envelope_def demo_signers_def genesis_anchor_def V_def verify_hybrid_def Let_def
        WS_FORMAT_VERSION_def WS_GENESIS_SIGNER_SET_ID_def hard_stop_def review_deadline_def saturating_add_def u64_max_def
        WS_ARRANGEMENT_REVIEW_EPOCHS_def WS_ARRANGEMENT_GRACE_EPOCHS_def EPOCHS_PER_DAY_def SLOT_DURATION_SECS_def SLOTS_PER_EPOCH_def
        MLDSA65_SIG_BYTES_def nth_list_update)
  have "threshold demo_signers = 2"
    by (simp add: demo_signers_def)
  then have "2 \<le> card {k \<in> set (map signer_pubkey (signers demo_signers)). has_signed (\<lambda>x. take 32 x) demo_envelope demo_signers V k}"
    using ws_envelope_quorum [OF ok] by simp
  then show ?thesis
    using ok by blast
qed

end
