(* ===== verification/State_Tree.thy ===== *)
theory State_Tree
  imports Params Ordered_Map
begin

text \<open>
  The sparse Merkle tree that commits the consensus state
  (\<^verbatim>\<open>bloch-pos-committee/src/state_root.rs\<close>): the flat recursion that defines the root, the
  memoised fold of a lone leaf, the incremental trie with its insertion and removal, and the inclusion
  and absence proofs.  SHA3-256 is the parameter \<open>sha3\<close> and \<open>emp\<close> is the table of
  empty-subtree hashes that every tree carries.

  Reading a bit beyond the 256 of a key indexes out of range: a result \<^term>\<open>None\<close> is that panic.
  The trie operations take the fold of a lone leaf without its memo, which is shown transparent.  The
  debug assertions are not part of a release build.
\<close>

section \<open>Hashing\<close>

definition DS_STATE :: bytes where
  "DS_STATE = domain_tag ''BLCH4:STATE''"

definition TREE_DEPTH :: usize where
  "TREE_DEPTH = 256"

definition MARK_LEAF :: byte where
  "MARK_LEAF = 0"

definition MARK_NODE :: byte where
  "MARK_NODE = 1"

definition MARK_EMPTY :: byte where
  "MARK_EMPTY = 2"

definition smt_sha3 :: "digest \<Rightarrow> bytes list \<Rightarrow> hash32" where
  "smt_sha3 sha3 parts = sha3 (DS_STATE @ concat parts)"

definition smt_leaf_hash :: "digest \<Rightarrow> hash32 \<Rightarrow> hash32 \<Rightarrow> hash32" where
  "smt_leaf_hash sha3 k v = smt_sha3 sha3 [[MARK_LEAF], k, v]"

definition smt_node_hash :: "digest \<Rightarrow> hash32 \<Rightarrow> hash32 \<Rightarrow> hash32" where
  "smt_node_hash sha3 l r = smt_sha3 sha3 [[MARK_NODE], l, r]"

text \<open>The table, filled from the empty leaf slot upwards.\<close>

fun empty_up :: "digest \<Rightarrow> nat \<Rightarrow> hash32 list" where
  "empty_up sha3 0 = [smt_sha3 sha3 [[MARK_EMPTY]]]"
| "empty_up sha3 (Suc n) = (let t = empty_up sha3 n in smt_node_hash sha3 (hd t) (hd t) # t)"

definition empty_hashes :: "digest \<Rightarrow> hash32 list" where
  "empty_hashes sha3 = empty_up sha3 TREE_DEPTH"

definition key_bit :: "hash32 \<Rightarrow> usize \<Rightarrow> byte" where
  "key_bit k d = and (drop_bit (7 - d mod 8) (k ! (d div 8))) 1"

text \<open>One level of a climb: the side of the running hash is the bit of the key.\<close>

definition key_step :: "digest \<Rightarrow> hash32 \<Rightarrow> usize \<Rightarrow> hash32 \<Rightarrow> hash32 \<Rightarrow> hash32" where
  "key_step sha3 k d sib h = (if key_bit k d = 0 then smt_node_hash sha3 h sib else smt_node_hash sha3 sib h)"

definition singleton_fold :: "digest \<Rightarrow> hash32 list \<Rightarrow> hash32 \<Rightarrow> hash32 \<Rightarrow> usize \<Rightarrow> hash32" where
  "singleton_fold sha3 emp k v depth =
     foldl (\<lambda>h d. key_step sha3 k d (emp ! (d + 1)) h) (smt_leaf_hash sha3 k v) (rev [depth..<TREE_DEPTH])"

section \<open>The memo\<close>

definition SINGLETON_MEMO_GENERATION :: usize where
  "SINGLETON_MEMO_GENERATION = 600000"

record singleton_memo =
  hot :: "((hash32 \<times> hash32 \<times> usize) \<times> hash32) list"
  cold :: "((hash32 \<times> hash32 \<times> usize) \<times> hash32) list"

definition memo_get :: "singleton_memo \<Rightarrow> (hash32 \<times> hash32 \<times> usize) \<Rightarrow> hash32 option \<times> singleton_memo" where
  "memo_get m key = (case map_of (hot m) key of
     Some hit \<Rightarrow> (Some hit, m)
   | None \<Rightarrow> (case map_of (cold m) key of
       None \<Rightarrow> (None, m)
     | Some hit \<Rightarrow> (Some hit, m\<lparr> hot := AList.update key hit (hot m) \<rparr>)))"

definition memo_put :: "singleton_memo \<Rightarrow> (hash32 \<times> hash32 \<times> usize) \<Rightarrow> hash32 \<Rightarrow> singleton_memo" where
  "memo_put m key v = (
     let h = AList.update key v (hot m) in
     if length h \<ge> SINGLETON_MEMO_GENERATION then \<lparr> hot = [], cold = h \<rparr> else m\<lparr> hot := h \<rparr>)"

definition singleton_subtree_root :: "digest \<Rightarrow> hash32 list \<Rightarrow> hash32 \<Rightarrow> hash32 \<Rightarrow> usize \<Rightarrow> singleton_memo
    \<Rightarrow> hash32 \<times> singleton_memo" where
  "singleton_subtree_root sha3 emp k v depth m = (case memo_get m (k, v, depth) of
     (Some hit, m') \<Rightarrow> (hit, m')
   | (None, m') \<Rightarrow> (let h = singleton_fold sha3 emp k v depth in (h, memo_put m' (k, v, depth) h)))"

section \<open>The root of a key set\<close>

function subtree_root :: "digest \<Rightarrow> hash32 list \<Rightarrow> (hash32 \<times> hash32) list \<Rightarrow> usize \<Rightarrow> hash32 option" where
  "subtree_root sha3 emp leaves depth =
     (if leaves = [] then Some (emp ! depth)
      else if depth = TREE_DEPTH then Some (smt_leaf_hash sha3 (fst (leaves ! 0)) (snd (leaves ! 0)))
      else if length leaves = 1 then Some (singleton_fold sha3 emp (fst (leaves ! 0)) (snd (leaves ! 0)) depth)
      else if depth > TREE_DEPTH then None
      else do {
        let split = length (takeWhile (\<lambda>(k, _). key_bit k depth = 0) leaves);
        l \<leftarrow> subtree_root sha3 emp (take split leaves) (depth + 1);
        r \<leftarrow> subtree_root sha3 emp (drop split leaves) (depth + 1);
        Some (smt_node_hash sha3 l r)
      })"
  by pat_completeness auto
termination
  by (relation "measure (\<lambda>(_, _, _, depth). Suc TREE_DEPTH - depth)") auto

declare subtree_root.simps [simp del]

section \<open>The trie\<close>

datatype node = LeafNode hash32 hash32 hash32 u16 | SplitNode "node option" "node option" hash32

fun hash_of :: "hash32 list \<Rightarrow> node option \<Rightarrow> usize \<Rightarrow> hash32" where
  "hash_of emp None depth = emp ! depth"
| "hash_of emp (Some (LeafNode _ _ h _)) depth = h"
| "hash_of emp (Some (SplitNode _ _ h)) depth = h"

definition new_leaf :: "digest \<Rightarrow> hash32 list \<Rightarrow> hash32 \<Rightarrow> hash32 \<Rightarrow> usize \<Rightarrow> node" where
  "new_leaf sha3 emp k v depth = LeafNode k v (singleton_fold sha3 emp k v depth) (depth mod 2 ^ 16)"

definition new_split :: "digest \<Rightarrow> hash32 list \<Rightarrow> node option \<Rightarrow> node option \<Rightarrow> usize \<Rightarrow> node" where
  "new_split sha3 emp l r depth =
     SplitNode l r (smt_node_hash sha3 (hash_of emp l (depth + 1)) (hash_of emp r (depth + 1)))"

function build_subtree :: "digest \<Rightarrow> hash32 list \<Rightarrow> (hash32 \<times> hash32) list \<Rightarrow> usize \<Rightarrow> node option option" where
  "build_subtree sha3 emp leaves depth =
     (if leaves = [] then Some None
      else if length leaves = 1 then Some (Some (new_leaf sha3 emp (fst (leaves ! 0)) (snd (leaves ! 0)) depth))
      else if depth \<ge> TREE_DEPTH then None
      else do {
        let split = length (takeWhile (\<lambda>(k, _). key_bit k depth = 0) leaves);
        l \<leftarrow> build_subtree sha3 emp (take split leaves) (depth + 1);
        r \<leftarrow> build_subtree sha3 emp (drop split leaves) (depth + 1);
        Some (Some (new_split sha3 emp l r depth))
      })"
  by pat_completeness auto
termination
  by (relation "measure (\<lambda>(_, _, _, depth). TREE_DEPTH - depth)") auto

declare build_subtree.simps [simp del]

function split_apart :: "digest \<Rightarrow> hash32 list \<Rightarrow> hash32 \<Rightarrow> hash32 \<Rightarrow> hash32 \<Rightarrow> hash32 \<Rightarrow> usize \<Rightarrow> node option" where
  "split_apart sha3 emp k0 v0 k v depth =
     (if depth \<ge> TREE_DEPTH then None
      else if key_bit k0 depth = key_bit k depth then do {
        child \<leftarrow> split_apart sha3 emp k0 v0 k v (depth + 1);
        Some (if key_bit k0 depth = 0 then new_split sha3 emp (Some child) None depth
              else new_split sha3 emp None (Some child) depth)
      }
      else
        let kept = new_leaf sha3 emp k0 v0 (depth + 1); fresh = new_leaf sha3 emp k v (depth + 1) in
        Some (if key_bit k0 depth = 0 then new_split sha3 emp (Some kept) (Some fresh) depth
              else new_split sha3 emp (Some fresh) (Some kept) depth))"
  by pat_completeness auto
termination
  by (relation "measure (\<lambda>(_, _, _, _, _, _, depth). TREE_DEPTH - depth)") auto

declare split_apart.simps [simp del]

text \<open>The flags report a key that was not there and a change of any kind.\<close>

fun node_insert :: "digest \<Rightarrow> hash32 list \<Rightarrow> node option \<Rightarrow> usize \<Rightarrow> hash32 \<Rightarrow> hash32
    \<Rightarrow> (node option \<times> bool \<times> bool) option" where
  "node_insert sha3 emp None depth k v = Some (Some (new_leaf sha3 emp k v depth), True, True)"
| "node_insert sha3 emp (Some (LeafNode lk lv lh ld)) depth k v =
     (if lk = k then
        if lv = v then Some (Some (LeafNode lk lv lh ld), False, False)
        else Some (Some (new_leaf sha3 emp k v depth), False, True)
      else do { n \<leftarrow> split_apart sha3 emp lk lv k v depth; Some (Some n, True, True) })"
| "node_insert sha3 emp (Some (SplitNode l r h)) depth k v =
     (if depth \<ge> TREE_DEPTH then None
      else if key_bit k depth = 0 then do {
        (l', added, mutated) \<leftarrow> node_insert sha3 emp l (depth + 1) k v;
        Some (if \<not> mutated then (Some (SplitNode l r h), added, mutated)
              else (Some (new_split sha3 emp l' r depth), added, mutated))
      }
      else do {
        (r', added, mutated) \<leftarrow> node_insert sha3 emp r (depth + 1) k v;
        Some (if \<not> mutated then (Some (SplitNode l r h), added, mutated)
              else (Some (new_split sha3 emp l r' depth), added, mutated))
      })"

fun collapse :: "digest \<Rightarrow> hash32 list \<Rightarrow> node option \<Rightarrow> node option \<Rightarrow> usize \<Rightarrow> node option" where
  "collapse sha3 emp None None depth = None"
| "collapse sha3 emp (Some (LeafNode k v _ _)) None depth = Some (new_leaf sha3 emp k v depth)"
| "collapse sha3 emp None (Some (LeafNode k v _ _)) depth = Some (new_leaf sha3 emp k v depth)"
| "collapse sha3 emp l r depth = Some (new_split sha3 emp l r depth)"

fun node_remove :: "digest \<Rightarrow> hash32 list \<Rightarrow> node option \<Rightarrow> usize \<Rightarrow> hash32 \<Rightarrow> (node option \<times> bool) option" where
  "node_remove sha3 emp None depth k = Some (None, False)"
| "node_remove sha3 emp (Some (LeafNode lk lv lh ld)) depth k =
     (if lk = k then Some (None, True) else Some (Some (LeafNode lk lv lh ld), False))"
| "node_remove sha3 emp (Some (SplitNode l r h)) depth k =
     (if depth \<ge> TREE_DEPTH then None
      else if key_bit k depth = 0 then do {
        (l', removed) \<leftarrow> node_remove sha3 emp l (depth + 1) k;
        Some (if \<not> removed then Some (SplitNode l r h) else collapse sha3 emp l' r depth, removed)
      }
      else do {
        (r', removed) \<leftarrow> node_remove sha3 emp r (depth + 1) k;
        Some (if \<not> removed then Some (SplitNode l r h) else collapse sha3 emp l r' depth, removed)
      })"

fun node_get :: "node option \<Rightarrow> usize \<Rightarrow> hash32 \<Rightarrow> hash32 option option" where
  "node_get None d k = Some None"
| "node_get (Some (LeafNode lk lv _ _)) d k = Some (if lk = k then Some lv else None)"
| "node_get (Some (SplitNode l r _)) d k =
     (if d \<ge> TREE_DEPTH then None else node_get (if key_bit k d = 0 then l else r) (d + 1) k)"

text \<open>The siblings of a committed key, from depth \<open>d\<close> down.\<close>

fun node_prove :: "hash32 list \<Rightarrow> node option \<Rightarrow> usize \<Rightarrow> hash32 \<Rightarrow> hash32 list option" where
  "node_prove emp None d k = None"
| "node_prove emp (Some (LeafNode lk _ _ _)) d k =
     (if lk \<noteq> k then None else Some (map (\<lambda>e. emp ! (e + 1)) [d..<TREE_DEPTH]))"
| "node_prove emp (Some (SplitNode l r _)) d k =
     (if d \<ge> TREE_DEPTH then None
      else if key_bit k d = 0 then map_option (\<lambda>s. hash_of emp r (d + 1) # s) (node_prove emp l (d + 1) k)
      else map_option (\<lambda>s. hash_of emp l (d + 1) # s) (node_prove emp r (d + 1) k))"

fun node_prove_absence :: "digest \<Rightarrow> hash32 list \<Rightarrow> node option \<Rightarrow> usize \<Rightarrow> hash32 \<Rightarrow> hash32 list option" where
  "node_prove_absence sha3 emp None d k = Some (map (\<lambda>e. emp ! (e + 1)) [d..<TREE_DEPTH])"
| "node_prove_absence sha3 emp (Some (LeafNode lk lv _ _)) d k =
     (if lk = k then None
      else
        let dd = d + length (takeWhile (\<lambda>e. key_bit k e = key_bit lk e) [d..<TREE_DEPTH]) in
        if dd \<ge> TREE_DEPTH then None
        else Some (map (\<lambda>e. emp ! (e + 1)) [d..<dd] @ [singleton_fold sha3 emp lk lv (dd + 1)] @
               map (\<lambda>e. emp ! (e + 1)) [dd + 1..<TREE_DEPTH]))"
| "node_prove_absence sha3 emp (Some (SplitNode l r _)) d k =
     (if d \<ge> TREE_DEPTH then None
      else if key_bit k d = 0 then map_option (\<lambda>s. hash_of emp r (d + 1) # s) (node_prove_absence sha3 emp l (d + 1) k)
      else map_option (\<lambda>s. hash_of emp l (d + 1) # s) (node_prove_absence sha3 emp r (d + 1) k))"

section \<open>The tree as a value\<close>

record smt =
  smt_node :: "node option"
  smt_len :: usize
  smt_empty :: "hash32 list"

definition smt_new :: "digest \<Rightarrow> smt" where
  "smt_new sha3 = \<lparr> smt_node = None, smt_len = 0, smt_empty = empty_hashes sha3 \<rparr>"

definition from_leaf_map :: "digest \<Rightarrow> (hash32, hash32) btree_map \<Rightarrow> smt option" where
  "from_leaf_map sha3 leaves = do {
     n \<leftarrow> build_subtree sha3 (empty_hashes sha3) leaves 0;
     Some \<lparr> smt_node = n, smt_len = length leaves, smt_empty = empty_hashes sha3 \<rparr>
   }"

definition smt_insert :: "digest \<Rightarrow> hash32 \<Rightarrow> hash32 \<Rightarrow> smt \<Rightarrow> smt option" where
  "smt_insert sha3 k v s = do {
     (n, added, _) \<leftarrow> node_insert sha3 (smt_empty s) (smt_node s) 0 k v;
     len \<leftarrow> (if added then checked_add u64_max (smt_len s) 1 else Some (smt_len s));
     Some (s\<lparr> smt_node := n, smt_len := len \<rparr>)
   }"

definition smt_remove :: "digest \<Rightarrow> hash32 \<Rightarrow> smt \<Rightarrow> smt option" where
  "smt_remove sha3 k s = do {
     (n, removed) \<leftarrow> node_remove sha3 (smt_empty s) (smt_node s) 0 k;
     len \<leftarrow> (if removed then checked_sub (smt_len s) 1 else Some (smt_len s));
     Some (s\<lparr> smt_node := n, smt_len := len \<rparr>)
   }"

definition smt_get :: "smt \<Rightarrow> hash32 \<Rightarrow> hash32 option option" where
  "smt_get s k = node_get (smt_node s) 0 k"

definition smt_root :: "smt \<Rightarrow> hash32" where
  "smt_root s = hash_of (smt_empty s) (smt_node s) 0"

definition smt_prove :: "smt \<Rightarrow> hash32 \<Rightarrow> hash32 list option" where
  "smt_prove s k = node_prove (smt_empty s) (smt_node s) 0 k"

definition smt_prove_absence :: "digest \<Rightarrow> smt \<Rightarrow> hash32 \<Rightarrow> hash32 list option" where
  "smt_prove_absence sha3 s k = node_prove_absence sha3 (smt_empty s) (smt_node s) 0 k"

definition verify_inclusion :: "digest \<Rightarrow> hash32 \<Rightarrow> hash32 \<Rightarrow> hash32 \<Rightarrow> hash32 list \<Rightarrow> bool" where
  "verify_inclusion sha3 rt k v siblings =
     (if length siblings \<noteq> TREE_DEPTH then False
      else foldl (\<lambda>h d. key_step sha3 k d (siblings ! d) h) (smt_leaf_hash sha3 k v) (rev [0..<TREE_DEPTH]) = rt)"

definition verify_absence :: "digest \<Rightarrow> hash32 \<Rightarrow> hash32 \<Rightarrow> hash32 list \<Rightarrow> bool" where
  "verify_absence sha3 rt k siblings =
     (if length siblings \<noteq> TREE_DEPTH then False
      else foldl (\<lambda>h d. key_step sha3 k d (siblings ! d) h) (smt_sha3 sha3 [[MARK_EMPTY]]) (rev [0..<TREE_DEPTH]) = rt)"

section \<open>Bits of keys\<close>

lemma key_bit_eq: "key_bit k d = of_bool (bit (k ! (d div 8)) (7 - d mod 8))"
  by (simp add: key_bit_def and_one_eq bit_iff_odd_drop_bit mod_2_eq_odd)

lemma key_bit_cases: "key_bit k d = 0 \<or> key_bit k d = 1"
  by (simp add: key_bit_eq)

definition same_path :: "usize \<Rightarrow> hash32 \<Rightarrow> hash32 \<Rightarrow> bool" where
  "same_path d k k' \<longleftrightarrow> (\<forall>e < d. key_bit k e = key_bit k' e)"

lemma key_byte:
  assumes "\<And>j. j < 8 \<Longrightarrow> key_bit k (8 * i + j) = key_bit k' (8 * i + j)"
  shows "k ! i = k' ! i"
proof (rule bit_eqI)
  fix n
  assume "possible_bit TYPE(byte) n"
  then have n: "n < 8"
    by simp
  define m where "m = 7 - n"
  have m: "m < 8" "7 - m = n"
    using n by (simp_all add: m_def)
  then have "(8 * i + m) div 8 = i" "(8 * i + m) mod 8 = m"
    by simp_all
  then show "bit (k ! i) n = bit (k' ! i) n"
    using assms [OF m(1)] m(2) by (auto simp: key_bit_eq of_bool_def split: if_splits)
qed

lemma same_path_full:
  assumes "length k = 32" "length k' = 32" "same_path 256 k k'"
  shows "k = k'"
proof (rule nth_equalityI)
  fix i
  assume "i < length k"
  then show "k ! i = k' ! i"
    using assms by (intro key_byte) (auto simp: same_path_def)
qed (simp add: assms)

text \<open>The order of bytes is decided by their highest differing bit.\<close>

lemma nat_less_bit:
  fixes u v :: nat
  assumes "u \<le> v" "\<And>m. n < m \<Longrightarrow> bit u m = bit v m" "bit u n"
  shows "bit v n"
proof (rule ccontr)
  assume no: "\<not> bit v n"
  have half: "x div 2 = y div 2 \<Longrightarrow> odd x \<Longrightarrow> even y \<Longrightarrow> x \<le> y \<Longrightarrow> False" for x y :: nat
    by presburger
  have "drop_bit (Suc n) u = drop_bit (Suc n) v"
    by (rule bit_eqI) (use assms(2) in \<open>simp add: bit_drop_bit_eq\<close>)
  then have "u div 2 ^ n div 2 = v div 2 ^ n div 2"
    by (simp add: drop_bit_eq_div div_mult2_eq mult.commute [of 2])
  moreover have "odd (u div 2 ^ n)" "even (v div 2 ^ n)"
    using assms(3) no by (simp_all add: bit_iff_odd)
  moreover have "u div 2 ^ n \<le> v div 2 ^ n"
    using assms(1) by (rule div_le_mono)
  ultimately show False
    by (rule half)
qed

lemma byte_less_bit:
  fixes a b :: byte
  assumes "a < b" "\<And>m. n < m \<Longrightarrow> bit a m = bit b m" "bit a n"
  shows "bit b n"
proof -
  have "bit (unat b) n"
  proof (rule nat_less_bit)
    show "unat a \<le> unat b"
      using assms(1) by (simp add: word_less_nat_alt)
    show "bit (unat a) m = bit (unat b) m" if "n < m" for m
      using assms(2) [OF that] by (simp add: bit_unsigned_iff)
    show "bit (unat a) n"
      using assms(3) by (simp add: bit_unsigned_iff bit_imp_possible_bit)
  qed
  then show ?thesis
    by (simp add: bit_unsigned_iff)
qed

lemma key_bit_above:
  assumes "same_path d k k'" "7 - d mod 8 < m"
  shows "bit (k ! (d div 8)) m = bit (k' ! (d div 8)) m"
proof (cases "m < 8")
  case True
  define p where "p = 7 - m"
  have p: "p < 8" "7 - p = m" "p < d mod 8"
    using True assms(2) by (simp_all add: p_def)
  define e where "e = 8 * (d div 8) + p"
  have e: "e div 8 = d div 8" "7 - e mod 8 = m"
    using p(1,2) by (simp_all add: e_def)
  have "e < d"
    using p(3) mult_div_mod_eq [of 8 d] unfolding e_def by linarith
  then have "key_bit k e = key_bit k' e"
    using assms(1) by (simp add: same_path_def)
  then show ?thesis
    using e by (auto simp: key_bit_eq of_bool_def split: if_splits)
next
  case False
  have "\<not> bit w m" for w :: byte
    using False bit_imp_le_length [of w m] by auto
  then show ?thesis
    by blast
qed

text \<open>Branching on the most significant bit first follows the order of the keys.\<close>

lemma path_less:
  assumes "length k = 32" "length k' = 32" "d < 256" "same_path d k k'" "key_bit k d = 0" "key_bit k' d \<noteq> 0"
  shows "k < k'"
proof -
  let ?i = "d div 8" and ?n = "7 - d mod 8"
  have bits: "\<not> bit (k ! ?i) ?n" "bit (k' ! ?i) ?n"
    using assms(5,6) by (auto simp: key_bit_eq of_bool_def split: if_splits)
  have "\<not> k' ! ?i < k ! ?i"
    using bits byte_less_bit [of "k' ! ?i" "k ! ?i" ?n] key_bit_above [OF assms(4)] by blast
  moreover have "k ! ?i \<noteq> k' ! ?i"
    using bits by metis
  ultimately have less: "k ! ?i < k' ! ?i"
    by simp
  have "k ! j = k' ! j" if "j < ?i" for j
    using assms(4) that by (intro key_byte) (simp add: same_path_def)
  then have "take ?i k = take ?i k'"
    using assms(1-3) by (intro nth_equalityI) simp_all
  then show ?thesis
    using less assms(1-3) unfolding list_less_def lexord_take_index_conv
    by (intro disjI2 exI [of _ ?i]) simp
qed

lemma same_path_Suc: "same_path (Suc d) k k' \<longleftrightarrow> same_path d k k' \<and> key_bit k d = key_bit k' d"
  by (auto simp: same_path_def less_Suc_eq)

lemma same_path_sym: "same_path d k k' \<Longrightarrow> same_path d k' k"
  by (simp add: same_path_def)

lemma same_path_trans: "same_path d k k' \<Longrightarrow> same_path d k' k'' \<Longrightarrow> same_path d k k''"
  by (simp add: same_path_def)

lemma same_path_0 [simp]: "same_path 0 k k'"
  by (simp add: same_path_def)

section \<open>The invariant of the trie\<close>

text \<open>\<open>LeafNode::depth\<close> and both hashes are right, every key hangs on the side of its bit, and a split
  holds two keys or more: a removal leaves no chain of dead splits.\<close>

fun node_leaves :: "node option \<Rightarrow> (hash32 \<times> hash32) list" where
  "node_leaves None = []"
| "node_leaves (Some (LeafNode k v _ _)) = [(k, v)]"
| "node_leaves (Some (SplitNode l r _)) = node_leaves l @ node_leaves r"

definition keys_left :: "usize \<Rightarrow> (hash32 \<times> hash32) list \<Rightarrow> bool" where
  "keys_left d xs \<longleftrightarrow> (\<forall>e \<in> set xs. key_bit (fst e) d = 0)"

definition keys_right :: "usize \<Rightarrow> (hash32 \<times> hash32) list \<Rightarrow> bool" where
  "keys_right d xs \<longleftrightarrow> (\<forall>e \<in> set xs. key_bit (fst e) d \<noteq> 0)"

fun node_ok :: "digest \<Rightarrow> hash32 list \<Rightarrow> node option \<Rightarrow> usize \<Rightarrow> bool" where
  "node_ok sha3 emp None d \<longleftrightarrow> d \<le> TREE_DEPTH"
| "node_ok sha3 emp (Some (LeafNode k v h ld)) d \<longleftrightarrow>
     d \<le> TREE_DEPTH \<and> length k = 32 \<and> h = singleton_fold sha3 emp k v d \<and> ld = d"
| "node_ok sha3 emp (Some (SplitNode l r h)) d \<longleftrightarrow>
     d < TREE_DEPTH \<and> node_ok sha3 emp l (d + 1) \<and> node_ok sha3 emp r (d + 1) \<and>
     keys_left d (node_leaves l) \<and> keys_right d (node_leaves r) \<and>
     2 \<le> length (node_leaves l @ node_leaves r) \<and>
     h = smt_node_hash sha3 (hash_of emp l (d + 1)) (hash_of emp r (d + 1))"

definition keys32 :: "(hash32 \<times> hash32) list \<Rightarrow> bool" where
  "keys32 xs \<longleftrightarrow> (\<forall>e \<in> set xs. length (fst e) = 32)"

definition together :: "usize \<Rightarrow> (hash32 \<times> hash32) list \<Rightarrow> bool" where
  "together d xs \<longleftrightarrow> (\<forall>e \<in> set xs. \<forall>e' \<in> set xs. same_path d (fst e) (fst e'))"

definition on_path :: "usize \<Rightarrow> hash32 \<Rightarrow> (hash32 \<times> hash32) list \<Rightarrow> bool" where
  "on_path d k xs \<longleftrightarrow> (\<forall>e \<in> set xs. same_path d k (fst e))"

named_theorems path_simps

declare keys_left_def [path_simps] keys_right_def [path_simps] keys32_def [path_simps] together_def [path_simps]
  on_path_def [path_simps]

lemma on_path_together: "on_path d k xs \<Longrightarrow> together d xs"
  unfolding path_simps using same_path_sym same_path_trans by blast

lemma together_left: "together d xs \<Longrightarrow> keys_left d xs \<Longrightarrow> together (Suc d) xs"
  by (simp add: path_simps same_path_Suc)

lemma together_right: "together d xs \<Longrightarrow> keys_right d xs \<Longrightarrow> together (Suc d) xs"
  using key_bit_cases by (simp add: path_simps same_path_Suc) metis

lemma together_append: "together d (xs @ ys) \<Longrightarrow> together d xs \<and> together d ys"
  by (simp add: path_simps)

lemma on_path_left: "on_path d k xs \<Longrightarrow> keys_left d xs \<Longrightarrow> key_bit k d = 0 \<Longrightarrow> on_path (Suc d) k xs"
  by (simp add: path_simps same_path_Suc)

lemma on_path_right: "on_path d k xs \<Longrightarrow> keys_right d xs \<Longrightarrow> key_bit k d \<noteq> 0 \<Longrightarrow> on_path (Suc d) k xs"
  using key_bit_cases by (simp add: path_simps same_path_Suc) metis

lemma on_path_append: "on_path d k (xs @ ys) \<longleftrightarrow> on_path d k xs \<and> on_path d k ys"
  by (auto simp: path_simps)

lemma node_ok_depth: "node_ok sha3 emp n d \<Longrightarrow> d \<le> TREE_DEPTH"
  by (cases "(sha3, emp, n, d)" rule: node_ok.cases) simp_all

lemma node_ok_keys32: "node_ok sha3 emp n d \<Longrightarrow> keys32 (node_leaves n)"
  by (induction sha3 emp n d rule: node_ok.induct) (auto simp: keys32_def)

lemma node_ok_Some: "node_ok sha3 emp (Some n) d \<Longrightarrow> node_leaves (Some n) \<noteq> []"
  by (cases n) auto

lemma sides_less:
  assumes "together d (xs @ ys)" "keys_left d xs" "keys_right d ys" "keys32 (xs @ ys)" "d < TREE_DEPTH"
    "e \<in> set xs" "e' \<in> set ys"
  shows "fst e < fst e'"
  by (rule path_less [of _ _ d]) (use assms in \<open>auto simp: path_simps TREE_DEPTH_def\<close>)

lemma leaves_sorted: "node_ok sha3 emp n d \<Longrightarrow> together d (node_leaves n) \<Longrightarrow> om_wf (node_leaves n)"
proof (induction sha3 emp n d rule: node_ok.induct)
  case (3 sha3 emp l r h d)
  let ?l = "node_leaves l" and ?r = "node_leaves r"
  from 3(3) have ok: "d < TREE_DEPTH" "node_ok sha3 emp l (d + 1)" "node_ok sha3 emp r (d + 1)"
    "keys_left d ?l" "keys_right d ?r"
    by simp_all
  from 3(4) have t: "together d (?l @ ?r)"
    by simp
  then have "together (Suc d) ?l" "together (Suc d) ?r"
    using ok(4,5) together_append together_left together_right by blast+
  then have "om_wf ?l" "om_wf ?r"
    using 3(1,2) ok(2,3) by simp_all
  moreover have "keys32 (?l @ ?r)"
    using node_ok_keys32 [OF 3(3)] by simp
  ultimately show ?case
    using sides_less [OF t ok(4,5) _ ok(1)] by (auto simp: om_wf_def sorted_wrt_append)
qed (simp_all add: om_wf_def)

text \<open>The partition point of the recursion is the boundary between the two sides.\<close>

lemma partition_point:
  assumes "keys_left d xs" "keys_right d ys"
  shows "length (takeWhile (\<lambda>(k, _). key_bit k d = 0) (xs @ ys)) = length xs"
proof -
  have "takeWhile (\<lambda>(k, _). key_bit k d = 0) (xs @ ys) = xs @ takeWhile (\<lambda>(k, _). key_bit k d = 0) ys"
    using assms(1) by (intro takeWhile_append2) (auto simp: keys_left_def)
  moreover have "takeWhile (\<lambda>(k, _). key_bit k d = 0) ys = []"
    using assms(2) by (cases ys) (auto simp: keys_right_def)
  ultimately show ?thesis
    by simp
qed

lemma partition_sorted:
  assumes "om_wf xs" "together d xs" "keys32 xs" "d < TREE_DEPTH"
  obtains ys zs where "xs = ys @ zs" "keys_left d ys" "keys_right d zs"
proof
  let ?P = "\<lambda>(k, _). key_bit k d = 0"
  show "xs = takeWhile ?P xs @ dropWhile ?P xs"
    by simp
  show "keys_left d (takeWhile ?P xs)"
    by (auto simp: keys_left_def dest: set_takeWhileD)
  show "keys_right d (dropWhile ?P xs)"
  proof (cases "dropWhile ?P xs")
    case Nil
    then show ?thesis
      unfolding Nil by (simp add: keys_right_def)
  next
    case (Cons e es)
    have e: "key_bit (fst e) d \<noteq> 0"
      using Cons by (simp add: dropWhile_eq_Cons_conv case_prod_unfold)
    have sub: "set (e # es) \<subseteq> set xs"
      using Cons set_dropWhileD by (metis subsetI)
    have "sorted_wrt (<) (map fst (dropWhile ?P xs))"
      using assms(1) by (simp add: om_wf_def sorted_wrt_map sorted_wrt_dropWhile)
    then have "\<forall>e' \<in> set es. fst e < fst e'"
      by (simp add: Cons)
    moreover have "fst e' < fst e" if "e' \<in> set es" "key_bit (fst e') d = 0" for e'
      by (rule path_less [of _ _ d]) (use assms that e sub in \<open>auto simp: path_simps TREE_DEPTH_def\<close>)
    ultimately show ?thesis
      using e Cons by (fastforce simp: keys_right_def)
  qed
qed

lemma hash_is_flat_root:
  "node_ok sha3 emp n d \<Longrightarrow> subtree_root sha3 emp (node_leaves n) d = Some (hash_of emp n d)"
proof (induction sha3 emp n d rule: node_ok.induct)
  case (1 sha3 emp d)
  then show ?case
    by (simp add: subtree_root.simps)
next
  case (2 sha3 emp k v h ld d)
  then show ?case
    by (simp add: subtree_root.simps [of _ _ _ d] singleton_fold_def)
next
  case (3 sha3 emp l r h d)
  then have "node_leaves l @ node_leaves r \<noteq> []" "length (node_leaves l @ node_leaves r) \<noteq> 1" "d < TREE_DEPTH"
    by (auto simp del: length_append)
  then show ?case
    using 3 by (subst subtree_root.simps) (auto simp: partition_point simp del: length_append)
qed

lemma new_leaf_ok: "length k = 32 \<Longrightarrow> d \<le> TREE_DEPTH \<Longrightarrow> node_ok sha3 emp (Some (new_leaf sha3 emp k v d)) d"
  by (simp add: new_leaf_def TREE_DEPTH_def)

lemma new_leaf_leaves [simp]: "node_leaves (Some (new_leaf sha3 emp k v d)) = [(k, v)]"
  by (simp add: new_leaf_def)

lemma new_split_leaves [simp]: "node_leaves (Some (new_split sha3 emp l r d)) = node_leaves l @ node_leaves r"
  by (simp add: new_split_def)

lemma new_split_ok:
  "d < TREE_DEPTH \<Longrightarrow> node_ok sha3 emp l (d + 1) \<Longrightarrow> node_ok sha3 emp r (d + 1) \<Longrightarrow> keys_left d (node_leaves l) \<Longrightarrow>
   keys_right d (node_leaves r) \<Longrightarrow> 2 \<le> length (node_leaves l @ node_leaves r) \<Longrightarrow>
   node_ok sha3 emp (Some (new_split sha3 emp l r d)) d"
  by (simp add: new_split_def)

lemma keys32_append: "keys32 (xs @ ys) \<longleftrightarrow> keys32 xs \<and> keys32 ys"
  by (auto simp: keys32_def)

text \<open>No two keys survive 256 splits together.\<close>

lemma together_full:
  assumes "together TREE_DEPTH xs" "om_wf xs" "keys32 xs"
  shows "length xs \<le> 1"
proof (rule ccontr)
  assume "\<not> length xs \<le> 1"
  then obtain e e' es where xs: "xs = e # e' # es"
    by (cases xs; cases "tl xs") auto
  then have "fst e = fst e'"
    using assms(1,3) by (intro same_path_full) (simp_all add: path_simps TREE_DEPTH_def)
  then show False
    using assms(2) xs by (simp add: om_wf_def)
qed

lemma build_subtree_sides:
  assumes "keys_left d ys" "keys_right d zs" "2 \<le> length (ys @ zs)" "d < TREE_DEPTH"
  shows "build_subtree sha3 emp (ys @ zs) d = do {
     l \<leftarrow> build_subtree sha3 emp ys (d + 1);
     r \<leftarrow> build_subtree sha3 emp zs (d + 1);
     Some (Some (new_split sha3 emp l r d)) }"
proof -
  have "ys @ zs \<noteq> []" "length (ys @ zs) \<noteq> 1" "\<not> TREE_DEPTH \<le> d"
    using assms(3,4) by auto
  then show ?thesis
    using assms(1,2) by (subst build_subtree.simps) (simp add: partition_point del: append_is_Nil_conv length_append)
qed

lemma build_subtree_small:
  assumes "length xs \<le> 1" "keys32 xs" "d \<le> TREE_DEPTH"
  shows "\<exists>n. build_subtree sha3 emp xs d = Some n \<and> node_ok sha3 emp n d \<and> node_leaves n = xs"
proof (cases xs)
  case Nil
  then show ?thesis
    using assms(3) by (simp add: build_subtree.simps)
next
  case (Cons e es)
  then show ?thesis
    using assms by (cases e) (simp add: build_subtree.simps new_leaf_ok keys32_def)
qed

lemma build_subtree_ok:
  assumes "d \<le> TREE_DEPTH"
  shows "om_wf xs \<Longrightarrow> keys32 xs \<Longrightarrow> together d xs \<Longrightarrow>
    \<exists>n. build_subtree sha3 emp xs d = Some n \<and> node_ok sha3 emp n d \<and> node_leaves n = xs"
  using assms
proof (induction d arbitrary: xs rule: inc_induct)
  case base
  then show ?case
    using together_full build_subtree_small by blast
next
  case (step d)
  show ?case
  proof (cases "length xs \<le> 1")
    case False
    obtain ys zs where xs: "xs = ys @ zs" and sides: "keys_left d ys" "keys_right d zs"
      using partition_sorted [OF step.prems(1,3,2) step.hyps(2)] .
    have tog: "together (Suc d) ys" "together (Suc d) zs"
      using together_append [of d ys zs] step.prems(3) xs sides together_left together_right by auto
    have parts: "om_wf ys" "om_wf zs" "keys32 ys" "keys32 zs"
      using step.prems(1,2) by (simp_all add: xs om_wf_def sorted_wrt_append keys32_append)
    obtain l where l: "build_subtree sha3 emp ys (Suc d) = Some l" "node_ok sha3 emp l (Suc d)" "node_leaves l = ys"
      using step.IH [OF parts(1,3) tog(1)] by blast
    obtain r where r: "build_subtree sha3 emp zs (Suc d) = Some r" "node_ok sha3 emp r (Suc d)" "node_leaves r = zs"
      using step.IH [OF parts(2,4) tog(2)] by blast
    have two: "2 \<le> length (ys @ zs)"
      using False by (simp add: xs)
    have "build_subtree sha3 emp xs d = Some (Some (new_split sha3 emp l r d))"
      unfolding xs build_subtree_sides [OF sides two step.hyps(2)] by (simp add: l(1) r(1))
    moreover have "node_ok sha3 emp (Some (new_split sha3 emp l r d)) d"
      using l r sides two step.hyps(2) by (intro new_split_ok) simp_all
    ultimately show ?thesis
      using l(3) r(3) xs by (intro exI [of _ "Some (new_split sha3 emp l r d)"]) simp
  qed (use step build_subtree_small in simp)
qed

text \<open>The trie is a function of its leaves.\<close>

lemma sides_unique:
  assumes "xs @ ys = xs' @ ys'" "keys_left d xs" "keys_left d xs'" "keys_right d ys" "keys_right d ys'"
  shows "xs = xs'" "ys = ys'"
proof -
  have "length xs = length xs'"
    using partition_point [OF assms(2,4)] partition_point [OF assms(3,5)] assms(1) by simp
  then show "xs = xs'" "ys = ys'"
    using assms(1) by simp_all
qed

lemma node_unique:
  "node_ok sha3 emp n d \<Longrightarrow> node_ok sha3 emp n' d \<Longrightarrow> node_leaves n = node_leaves n' \<Longrightarrow> n = n'"
proof (induction sha3 emp n d arbitrary: n' rule: node_ok.induct)
  case (1 sha3 emp d)
  then show ?case
    using node_ok_Some by (cases n') force+
next
  case (2 sha3 emp k v h ld d)
  then show ?case
    by (cases n'; cases "the n'") (auto dest: arg_cong [where f = length])
next
  case (3 sha3 emp l r h d)
  obtain l' r' h' where n': "n' = Some (SplitNode l' r' h')"
    using 3(3-5) by (cases n'; cases "the n'") (auto dest: arg_cong [where f = length])
  have "node_leaves l = node_leaves l'" "node_leaves r = node_leaves r'"
    using sides_unique [of "node_leaves l" "node_leaves r" "node_leaves l'" "node_leaves r'" d] 3(3-5) n' by auto
  then have "l = l'" "r = r'"
    using 3 n' by auto
  then show ?case
    using 3(3,4) n' by simp
qed

section \<open>Insertion and removal\<close>

lemma om_insert_left: "(\<forall>e \<in> set ys. k < fst e) \<Longrightarrow> om_insert k v (xs @ ys) = om_insert k v xs @ ys"
  by (induction xs) (cases ys; auto)+

lemma om_insert_right: "(\<forall>e \<in> set xs. fst e < k) \<Longrightarrow> om_insert k v (xs @ ys) = xs @ om_insert k v ys"
  by (induction xs) auto

lemma om_insert_length: "length xs \<le> length (om_insert k v xs)"
  by (induction xs) auto

lemma keys_left_insert: "keys_left d xs \<Longrightarrow> key_bit k d = 0 \<Longrightarrow> keys_left d (om_insert k v xs)"
  by (induction xs) (auto simp: keys_left_def)

lemma keys_right_insert: "keys_right d xs \<Longrightarrow> key_bit k d \<noteq> 0 \<Longrightarrow> keys_right d (om_insert k v xs)"
  by (induction xs) (auto simp: keys_right_def)

lemma split_apart_same:
  assumes "d < TREE_DEPTH" "key_bit k0 d = key_bit k d" "k0 \<noteq> k"
    "split_apart sha3 emp k0 v0 k v (Suc d) = Some n" "node_ok sha3 emp (Some n) (Suc d)"
    "node_leaves (Some n) = om_insert k v [(k0, v0)]"
  shows "\<exists>n'. split_apart sha3 emp k0 v0 k v d = Some n' \<and> node_ok sha3 emp (Some n') d \<and>
        node_leaves (Some n') = om_insert k v [(k0, v0)]"
proof -
  have two: "2 \<le> length (node_leaves (Some n))"
    using assms(3,6) by simp
  have set: "set (node_leaves (Some n)) = {(k0, v0), (k, v)}"
    using assms(3) unfolding assms(6) by auto
  show ?thesis
  proof (cases "key_bit k d = 0")
    case True
    then have "node_ok sha3 emp (Some (new_split sha3 emp (Some n) None d)) d"
      using assms(1,2,5) two set by (intro new_split_ok) (simp_all add: keys_left_def keys_right_def)
    then show ?thesis
      using True assms by (subst split_apart.simps) simp
  next
    case False
    then have "node_ok sha3 emp (Some (new_split sha3 emp None (Some n) d)) d"
      using assms(1,2,5) two set by (intro new_split_ok) (simp_all add: keys_left_def keys_right_def)
    then show ?thesis
      using False assms by (subst split_apart.simps) simp
  qed
qed

lemma split_apart_part:
  assumes "d < TREE_DEPTH" "key_bit k0 d \<noteq> key_bit k d" "length k0 = 32" "length k = 32" "same_path d k0 k"
  shows "\<exists>n'. split_apart sha3 emp k0 v0 k v d = Some n' \<and> node_ok sha3 emp (Some n') d \<and>
        node_leaves (Some n') = om_insert k v [(k0, v0)]"
proof (cases "key_bit k0 d = 0")
  case True
  then have "k0 < k"
    using assms path_less [of k0 k d] by (simp add: TREE_DEPTH_def)
  moreover have "node_ok sha3 emp (Some (new_split sha3 emp (Some (new_leaf sha3 emp k0 v0 (Suc d)))
      (Some (new_leaf sha3 emp k v (Suc d))) d)) d"
    using assms True by (intro new_split_ok) (simp_all add: new_leaf_ok keys_left_def keys_right_def)
  ultimately show ?thesis
    using True assms(1,2) by (subst split_apart.simps) simp
next
  case False
  then have bit: "key_bit k d = 0"
    using assms(2) key_bit_cases [of k0 d] key_bit_cases [of k d] by auto
  then have "k < k0"
    using assms False path_less [of k k0 d] same_path_sym by (simp add: TREE_DEPTH_def)
  moreover have "node_ok sha3 emp (Some (new_split sha3 emp (Some (new_leaf sha3 emp k v (Suc d)))
      (Some (new_leaf sha3 emp k0 v0 (Suc d))) d)) d"
    using assms False bit by (intro new_split_ok) (simp_all add: new_leaf_ok keys_left_def keys_right_def)
  ultimately show ?thesis
    using False bit assms(1) by (subst split_apart.simps) (simp add: not_less_iff_gr_or_eq)
qed

lemma split_apart_ok:
  assumes "d \<le> TREE_DEPTH" "k0 \<noteq> k" "length k0 = 32" "length k = 32"
  shows "same_path d k0 k \<Longrightarrow> \<exists>n. split_apart sha3 emp k0 v0 k v d = Some n \<and> node_ok sha3 emp (Some n) d \<and>
        node_leaves (Some n) = om_insert k v [(k0, v0)]"
  using assms(1)
proof (induction d rule: inc_induct)
  case base
  then show ?case
    using same_path_full assms by (simp add: TREE_DEPTH_def)
next
  case (step d)
  show ?case
  proof (cases "key_bit k0 d = key_bit k d")
    case True
    then have "same_path (Suc d) k0 k"
      using step.prems by (simp add: same_path_Suc)
    then show ?thesis
      using step.IH split_apart_same [OF step.hyps(2) True assms(2)] by blast
  next
    case False
    then show ?thesis
      using split_apart_part step.hyps(2) step.prems assms by blast
  qed
qed

text \<open>What an insertion and a removal below depth \<open>d\<close> must return.\<close>

definition inserted :: "digest \<Rightarrow> hash32 list \<Rightarrow> hash32 \<Rightarrow> hash32 \<Rightarrow> node option \<Rightarrow> usize
    \<Rightarrow> (node option \<times> bool \<times> bool) option \<Rightarrow> bool" where
  "inserted sha3 emp k v n d res \<longleftrightarrow> (case res of None \<Rightarrow> False | Some (n', added, mutated) \<Rightarrow>
     node_ok sha3 emp n' d \<and> node_leaves n' = om_insert k v (node_leaves n) \<and>
     (added \<longleftrightarrow> k \<notin> fst ` set (node_leaves n)) \<and> (\<not> mutated \<longrightarrow> n' = n))"

definition taken_out :: "digest \<Rightarrow> hash32 list \<Rightarrow> hash32 \<Rightarrow> node option \<Rightarrow> usize
    \<Rightarrow> (node option \<times> bool) option \<Rightarrow> bool" where
  "taken_out sha3 emp k n d res \<longleftrightarrow> (case res of None \<Rightarrow> False | Some (n', removed) \<Rightarrow>
     node_ok sha3 emp n' d \<and> node_leaves n' = om_remove k (node_leaves n) \<and>
     (removed \<longleftrightarrow> k \<in> fst ` set (node_leaves n)) \<and> (\<not> removed \<longrightarrow> n' = n))"

lemma off_side_right:
  "key_bit k d = 0 \<Longrightarrow> keys_right d ys \<Longrightarrow> k \<notin> fst ` set ys"
  by (auto simp: keys_right_def)

lemma off_side_left:
  "key_bit k d \<noteq> 0 \<Longrightarrow> keys_left d ys \<Longrightarrow> k \<notin> fst ` set ys"
  by (auto simp: keys_left_def)

lemma left_of_right:
  assumes "key_bit k d = 0" "keys_right d ys" "on_path d k ys" "keys32 ys" "length k = 32" "d < TREE_DEPTH"
  shows "\<forall>e \<in> set ys. k < fst e"
  using assms by (auto simp: path_simps TREE_DEPTH_def intro!: path_less [of k _ d])

lemma right_of_left:
  assumes "key_bit k d \<noteq> 0" "keys_left d ys" "on_path d k ys" "keys32 ys" "length k = 32" "d < TREE_DEPTH"
  shows "\<forall>e \<in> set ys. fst e < k"
  using assms same_path_sym by (auto simp: path_simps TREE_DEPTH_def intro!: path_less [of _ k d])

lemma insert_left_side:
  assumes "node_ok sha3 emp (Some (SplitNode l r h)) d" "on_path d k (node_leaves (Some (SplitNode l r h)))"
    "length k = 32" "key_bit k d = 0" "inserted sha3 emp k v l (d + 1) (node_insert sha3 emp l (d + 1) k v)"
  shows "inserted sha3 emp k v (Some (SplitNode l r h)) d (node_insert sha3 emp (Some (SplitNode l r h)) d k v)"
proof -
  obtain l' a m where l': "node_insert sha3 emp l (d + 1) k v = Some (l', a, m)" "node_ok sha3 emp l' (d + 1)"
    "node_leaves l' = om_insert k v (node_leaves l)" "a \<longleftrightarrow> k \<notin> fst ` set (node_leaves l)" "\<not> m \<longrightarrow> l' = l"
    using assms(5) by (auto simp: inserted_def split: option.splits)
  have ok: "d < TREE_DEPTH" "node_ok sha3 emp r (d + 1)" "keys_left d (node_leaves l)" "keys_right d (node_leaves r)"
    "2 \<le> length (node_leaves l) + length (node_leaves r)"
    using assms(1) by simp_all
  have "\<forall>e \<in> set (node_leaves r). k < fst e"
    using assms(2-4) ok node_ok_keys32 by (intro left_of_right) (auto simp: on_path_append)
  then have leaves: "om_insert k v (node_leaves l @ node_leaves r) = om_insert k v (node_leaves l) @ node_leaves r"
    by (rule om_insert_left)
  have "node_ok sha3 emp (Some (new_split sha3 emp l' r d)) d"
    using ok l'(2) om_insert_length [of "node_leaves l" k v] assms(4)
    by (intro new_split_ok) (simp_all add: l'(3) keys_left_insert)
  then show ?thesis
    using l' ok(1) assms(1,4) off_side_right [OF assms(4) ok(4)] leaves
    by (auto simp: inserted_def image_Un)
qed

lemma insert_right_side:
  assumes "node_ok sha3 emp (Some (SplitNode l r h)) d" "on_path d k (node_leaves (Some (SplitNode l r h)))"
    "length k = 32" "key_bit k d \<noteq> 0" "inserted sha3 emp k v r (d + 1) (node_insert sha3 emp r (d + 1) k v)"
  shows "inserted sha3 emp k v (Some (SplitNode l r h)) d (node_insert sha3 emp (Some (SplitNode l r h)) d k v)"
proof -
  obtain r' a m where r': "node_insert sha3 emp r (d + 1) k v = Some (r', a, m)" "node_ok sha3 emp r' (d + 1)"
    "node_leaves r' = om_insert k v (node_leaves r)" "a \<longleftrightarrow> k \<notin> fst ` set (node_leaves r)" "\<not> m \<longrightarrow> r' = r"
    using assms(5) by (auto simp: inserted_def split: option.splits)
  have ok: "d < TREE_DEPTH" "node_ok sha3 emp l (d + 1)" "keys_left d (node_leaves l)" "keys_right d (node_leaves r)"
    "2 \<le> length (node_leaves l) + length (node_leaves r)"
    using assms(1) by simp_all
  have "\<forall>e \<in> set (node_leaves l). fst e < k"
    using assms(2-4) ok node_ok_keys32 by (intro right_of_left) (auto simp: on_path_append)
  then have leaves: "om_insert k v (node_leaves l @ node_leaves r) = node_leaves l @ om_insert k v (node_leaves r)"
    by (rule om_insert_right)
  have "node_ok sha3 emp (Some (new_split sha3 emp l r' d)) d"
    using ok r'(2) om_insert_length [of "node_leaves r" k v] assms(4)
    by (intro new_split_ok) (simp_all add: r'(3) keys_right_insert)
  then show ?thesis
    using r' ok(1) assms(1,4) off_side_left [OF assms(4) ok(3)] leaves
    by (auto simp: inserted_def image_Un)
qed

lemma node_insert_ok:
  assumes "length k = 32"
  shows "node_ok sha3 emp n d \<Longrightarrow> on_path d k (node_leaves n) \<Longrightarrow>
    inserted sha3 emp k v n d (node_insert sha3 emp n d k v)"
proof (induction sha3 emp n d rule: node_ok.induct)
  case (1 sha3 emp d)
  then show ?case
    using assms new_leaf_ok by (simp add: inserted_def)
next
  case (2 sha3 emp lk lv h ld d)
  then show ?case
    using assms new_leaf_ok split_apart_ok [of d lk k sha3 emp lv v] same_path_sym
    by (auto simp: inserted_def on_path_def)
next
  case (3 sha3 emp l r h d)
  note ok = 3(3) and path = 3(4)
  show ?case
  proof (cases "key_bit k d = 0")
    case True
    then have "on_path (d + 1) k (node_leaves l)"
      using ok path on_path_left by (simp add: on_path_append)
    then show ?thesis
      using 3(1) ok by (intro insert_left_side [OF ok path assms True]) simp
  next
    case False
    then have "on_path (d + 1) k (node_leaves r)"
      using ok path on_path_right by (simp add: on_path_append)
    then show ?thesis
      using 3(2) ok by (intro insert_right_side [OF ok path assms False]) simp
  qed
qed

lemma collapse_ok:
  assumes "d < TREE_DEPTH" "node_ok sha3 emp l (d + 1)" "node_ok sha3 emp r (d + 1)" "keys_left d (node_leaves l)"
    "keys_right d (node_leaves r)"
  shows "node_ok sha3 emp (collapse sha3 emp l r d) d \<and> node_leaves (collapse sha3 emp l r d) = node_leaves l @ node_leaves r"
proof -
  have two: "2 \<le> length (node_leaves l @ node_leaves r) \<Longrightarrow> ?thesis" if "collapse sha3 emp l r d = Some (new_split sha3 emp l r d)"
    unfolding that using assms by (intro conjI new_split_ok) simp_all
  have pos: "0 < length (node_leaves (Some n))" if "node_ok sha3 emp (Some n) (d + 1)" for n
    using node_ok_Some [OF that] by simp
  show ?thesis
  proof (cases l; cases r)
    fix a b
    assume ab: "l = Some a" "r = Some b"
    then have "2 \<le> length (node_leaves l @ node_leaves r)"
      using pos [of a] pos [of b] assms by (simp add: Suc_le_eq del: length_greater_0_conv)
    then show ?thesis
      using ab by (intro two) (cases a; simp)+
  next
    fix a
    assume "l = Some a" "r = None"
    then show ?thesis
      using assms two by (cases a) (auto intro: new_leaf_ok)
  next
    fix b
    assume "l = None" "r = Some b"
    then show ?thesis
      using assms two by (cases b) (auto intro: new_leaf_ok)
  qed (use assms in simp)
qed

lemma om_remove_append: "om_remove k (xs @ ys) = om_remove k xs @ om_remove k ys"
  by (simp add: om_remove_def)

lemma om_remove_absent: "k \<notin> fst ` set xs \<Longrightarrow> om_remove k xs = xs"
  unfolding om_remove_def by (rule filter_True) auto

lemma keys_side_remove:
  "keys_left d xs \<Longrightarrow> keys_left d (om_remove k xs)" "keys_right d xs \<Longrightarrow> keys_right d (om_remove k xs)"
  by (simp_all add: keys_left_def keys_right_def om_remove_def)

lemma remove_left_side:
  assumes "node_ok sha3 emp (Some (SplitNode l r h)) d" "key_bit k d = 0"
    "taken_out sha3 emp k l (d + 1) (node_remove sha3 emp l (d + 1) k)"
  shows "taken_out sha3 emp k (Some (SplitNode l r h)) d (node_remove sha3 emp (Some (SplitNode l r h)) d k)"
proof -
  obtain l' b where l': "node_remove sha3 emp l (d + 1) k = Some (l', b)" "node_ok sha3 emp l' (d + 1)"
    "node_leaves l' = om_remove k (node_leaves l)" "b \<longleftrightarrow> k \<in> fst ` set (node_leaves l)" "\<not> b \<longrightarrow> l' = l"
    using assms(3) by (auto simp: taken_out_def split: option.splits)
  have ok: "d < TREE_DEPTH" "node_ok sha3 emp r (d + 1)" "keys_left d (node_leaves l)" "keys_right d (node_leaves r)"
    using assms(1) by simp_all
  note off = off_side_right [OF assms(2) ok(4)]
  have "node_ok sha3 emp (collapse sha3 emp l' r d) d \<and>
      node_leaves (collapse sha3 emp l' r d) = node_leaves l' @ node_leaves r"
    using collapse_ok [OF ok(1) l'(2) ok(2)] l'(3) ok(3,4) keys_side_remove by simp
  then show ?thesis
    using l' ok(1) assms(1,2) off by (auto simp: taken_out_def om_remove_append om_remove_absent image_Un)
qed

lemma remove_right_side:
  assumes "node_ok sha3 emp (Some (SplitNode l r h)) d" "key_bit k d \<noteq> 0"
    "taken_out sha3 emp k r (d + 1) (node_remove sha3 emp r (d + 1) k)"
  shows "taken_out sha3 emp k (Some (SplitNode l r h)) d (node_remove sha3 emp (Some (SplitNode l r h)) d k)"
proof -
  obtain r' b where r': "node_remove sha3 emp r (d + 1) k = Some (r', b)" "node_ok sha3 emp r' (d + 1)"
    "node_leaves r' = om_remove k (node_leaves r)" "b \<longleftrightarrow> k \<in> fst ` set (node_leaves r)" "\<not> b \<longrightarrow> r' = r"
    using assms(3) by (auto simp: taken_out_def split: option.splits)
  have ok: "d < TREE_DEPTH" "node_ok sha3 emp l (d + 1)" "keys_left d (node_leaves l)" "keys_right d (node_leaves r)"
    using assms(1) by simp_all
  note off = off_side_left [OF assms(2) ok(3)]
  have "node_ok sha3 emp (collapse sha3 emp l r' d) d \<and>
      node_leaves (collapse sha3 emp l r' d) = node_leaves l @ node_leaves r'"
    using collapse_ok [OF ok(1) ok(2) r'(2)] r'(3) ok(3,4) keys_side_remove by simp
  then show ?thesis
    using r' ok(1) assms(1,2) off by (auto simp: taken_out_def om_remove_append om_remove_absent image_Un)
qed

lemma node_remove_ok:
  "node_ok sha3 emp n d \<Longrightarrow> taken_out sha3 emp k n d (node_remove sha3 emp n d k)"
proof (induction sha3 emp n d rule: node_ok.induct)
  case (3 sha3 emp l r h d)
  then show ?case
    using remove_left_side [OF 3(3)] remove_right_side [OF 3(3)] by (cases "key_bit k d = 0") simp_all
qed (auto simp: taken_out_def om_remove_def)

lemma lookup_left: "keys_right d ys \<Longrightarrow> key_bit k d = 0 \<Longrightarrow> map_of (xs @ ys) k = map_of xs k"
  using off_side_right [of k d ys] map_of_eq_None_iff [of ys k] by (simp add: map_add_def split: option.splits)

lemma lookup_right: "keys_left d xs \<Longrightarrow> key_bit k d \<noteq> 0 \<Longrightarrow> map_of (xs @ ys) k = map_of ys k"
  using off_side_left [of k d xs] map_of_eq_None_iff [of xs k] by (simp add: map_add_def split: option.splits)

lemma node_get_ok: "node_ok sha3 emp n d \<Longrightarrow> node_get n d k = Some (map_of (node_leaves n) k)"
proof (induction sha3 emp n d rule: node_ok.induct)
  case (3 sha3 emp l r h d)
  then show ?case
    using lookup_left [of d "node_leaves r" k "node_leaves l"] lookup_right [of d "node_leaves l" k "node_leaves r"]
    by (simp del: map_of_append)
qed simp_all

section \<open>Proofs\<close>

text \<open>The climb of a proof from depth 256 to depth \<open>d\<close>, as a recursion from the top.\<close>

fun climb_path :: "digest \<Rightarrow> hash32 \<Rightarrow> hash32 \<Rightarrow> hash32 list \<Rightarrow> usize \<Rightarrow> hash32" where
  "climb_path sha3 k h [] d = h"
| "climb_path sha3 k h (s # ss) d = key_step sha3 k d s (climb_path sha3 k h ss (Suc d))"

lemma climb_path_foldl:
  "foldl (\<lambda>h e. key_step sha3 k e (f e) h) h (rev [d..<d + n]) = climb_path sha3 k h (map f [d..<d + n]) d"
proof (induction n arbitrary: d)
  case (Suc n)
  then show ?case
    using Suc.IH [of "Suc d"] by (simp add: upt_conv_Cons del: upt_Suc)
qed simp

definition empty_siblings :: "hash32 list \<Rightarrow> usize \<Rightarrow> hash32 list" where
  "empty_siblings emp d = map (\<lambda>e. emp ! (e + 1)) [d..<TREE_DEPTH]"

lemma singleton_climb:
  "d \<le> TREE_DEPTH \<Longrightarrow> singleton_fold sha3 emp k v d = climb_path sha3 k (smt_leaf_hash sha3 k v) (empty_siblings emp d) d"
  using climb_path_foldl [of sha3 k "\<lambda>e. emp ! (e + 1)" "smt_leaf_hash sha3 k v" d "TREE_DEPTH - d"]
  by (simp add: singleton_fold_def empty_siblings_def)

lemma verify_climb:
  assumes "length ss = TREE_DEPTH"
  shows "foldl (\<lambda>h e. key_step sha3 k e (ss ! e) h) h (rev [0..<TREE_DEPTH]) = climb_path sha3 k h ss 0"
  using climb_path_foldl [of sha3 k "\<lambda>e. ss ! e" h 0 "length ss"] unfolding assms [symmetric] by (simp add: map_nth)

lemma empty_siblings_step: "d < TREE_DEPTH \<Longrightarrow> empty_siblings emp d = emp ! Suc d # empty_siblings emp (Suc d)"
  by (simp add: empty_siblings_def upt_conv_Cons)

lemma empty_siblings_full [simp]: "empty_siblings emp TREE_DEPTH = []"
  by (simp add: empty_siblings_def)

lemma empty_siblings_length [simp]: "length (empty_siblings emp d) = TREE_DEPTH - d"
  by (simp add: empty_siblings_def)

lemma empty_up_length: "length (empty_up sha3 n) = Suc n"
  by (induction n) (simp_all add: Let_def)

lemma empty_up_last: "empty_up sha3 n ! n = smt_sha3 sha3 [[MARK_EMPTY]]"
  by (induction n) (simp_all add: Let_def)

lemma empty_up_step:
  "i < n \<Longrightarrow> empty_up sha3 n ! i = smt_node_hash sha3 (empty_up sha3 n ! Suc i) (empty_up sha3 n ! Suc i)"
proof (induction n arbitrary: i)
  case (Suc n)
  have "empty_up sha3 n \<noteq> []"
    using empty_up_length [of sha3 n] by auto
  then show ?case
    using Suc by (cases i) (simp_all add: Let_def hd_conv_nth)
qed simp

lemma empty_climb:
  assumes "d \<le> TREE_DEPTH"
  shows "climb_path sha3 k (smt_sha3 sha3 [[MARK_EMPTY]]) (empty_siblings (empty_hashes sha3) d) d = empty_hashes sha3 ! d"
  using assms
proof (induction d rule: inc_induct)
  case base
  then show ?case
    by (simp add: empty_hashes_def empty_up_last)
next
  case (step d)
  then show ?case
    by (simp add: empty_siblings_step key_step_def empty_hashes_def empty_up_step [of d])
qed

lemma node_prove_committed:
  "node_ok sha3 emp n d \<Longrightarrow> map_of (node_leaves n) k = Some v \<Longrightarrow>
   \<exists>ss. node_prove emp n d k = Some ss \<and> length ss = TREE_DEPTH - d \<and>
     climb_path sha3 k (smt_leaf_hash sha3 k v) ss d = hash_of emp n d"
proof (induction sha3 emp n d rule: node_ok.induct)
  case (2 sha3 emp lk lv h ld d)
  then show ?case
    by (auto simp: singleton_climb empty_siblings_def split: if_splits)
next
  case (3 sha3 emp l r h d)
  show ?case
  proof (cases "key_bit k d = 0")
    case True
    then have "map_of (node_leaves l) k = Some v"
      using 3(3,4) lookup_left [of d "node_leaves r" k] by (simp del: map_of_append)
    then show ?thesis
      using 3(1,3) True by (auto simp: key_step_def)
  next
    case False
    then have "map_of (node_leaves r) k = Some v"
      using 3(3,4) lookup_right [of d "node_leaves l" k] by (simp del: map_of_append)
    then show ?thesis
      using 3(2,3) False by (auto simp: key_step_def)
  qed
qed simp

lemma node_prove_absent: "map_of (node_leaves n) k = None \<Longrightarrow> node_prove emp n d k = None"
  by (induction emp n d k rule: node_prove.induct) (auto simp: map_add_None split: if_splits)

lemma singleton_step:
  "d < TREE_DEPTH \<Longrightarrow> singleton_fold sha3 emp k v d = key_step sha3 k d (emp ! Suc d) (singleton_fold sha3 emp k v (Suc d))"
  by (simp add: singleton_climb empty_siblings_step)

lemma key_step_other:
  "key_bit k d \<noteq> key_bit k' d \<Longrightarrow> key_step sha3 k d s h = key_step sha3 k' d h s"
  using key_bit_cases [of k d] key_bit_cases [of k' d] by (auto simp: key_step_def)

lemma leaf_absence:
  assumes "d \<le> TREE_DEPTH" "k \<noteq> lk" "length k = 32" "length lk = 32" "emp = empty_hashes sha3"
  shows "same_path d k lk \<Longrightarrow> \<exists>ss. node_prove_absence sha3 emp (Some (LeafNode lk lv h ld)) d k = Some ss \<and>
     length ss = TREE_DEPTH - d \<and> climb_path sha3 k (smt_sha3 sha3 [[MARK_EMPTY]]) ss d = singleton_fold sha3 emp lk lv d"
  using assms(1)
proof (induction d rule: inc_induct)
  case base
  then show ?case
    using same_path_full assms by (simp add: TREE_DEPTH_def)
next
  case (step d)
  have up: "[d..<TREE_DEPTH] = d # [Suc d..<TREE_DEPTH]"
    using step.hyps(2) by (rule upt_conv_Cons)
  show ?case
  proof (cases "key_bit k d = key_bit lk d")
    case True
    then obtain ss where ss: "node_prove_absence sha3 emp (Some (LeafNode lk lv h ld)) (Suc d) k = Some ss"
      "length ss = TREE_DEPTH - Suc d"
      "climb_path sha3 k (smt_sha3 sha3 [[MARK_EMPTY]]) ss (Suc d) = singleton_fold sha3 emp lk lv (Suc d)"
      using step by (auto simp: same_path_Suc)
    let ?m = "length (takeWhile (\<lambda>e. key_bit k e = key_bit lk e) [Suc d..<TREE_DEPTH])"
    have "[d..<Suc (d + ?m)] = d # [Suc d..<Suc (d + ?m)]"
      by (rule upt_conv_Cons) simp
    then have "node_prove_absence sha3 emp (Some (LeafNode lk lv h ld)) d k = Some (emp ! Suc d # ss)"
      using ss(1) True assms(2) by (simp add: up Let_def del: upt_Suc split: if_splits)
    then show ?thesis
      using ss(2,3) True step.hyps(2) by (simp add: singleton_step key_step_def)
  next
    case False
    then have "node_prove_absence sha3 emp (Some (LeafNode lk lv h ld)) d k
        = Some (singleton_fold sha3 emp lk lv (Suc d) # empty_siblings emp (Suc d))"
      using step.hyps(2) assms(2) by (simp add: up Let_def empty_siblings_def)
    then show ?thesis
      using False step.hyps(2) empty_climb [of "Suc d" sha3 k]
      by (simp add: singleton_step key_step_other [of k d lk] assms(5))
  qed
qed

lemma node_prove_absence_absent:
  assumes "length k = 32"
  shows "node_ok sha3 emp n d \<Longrightarrow> emp = empty_hashes sha3 \<Longrightarrow> on_path d k (node_leaves n) \<Longrightarrow>
    map_of (node_leaves n) k = None \<Longrightarrow>
   \<exists>ss. node_prove_absence sha3 emp n d k = Some ss \<and> length ss = TREE_DEPTH - d \<and>
     climb_path sha3 k (smt_sha3 sha3 [[MARK_EMPTY]]) ss d = hash_of emp n d"
proof (induction sha3 emp n d rule: node_ok.induct)
  case (1 sha3 emp d)
  then show ?case
    using empty_climb [of d sha3 k] by (simp add: empty_siblings_def)
next
  case (2 sha3 emp lk lv h ld d)
  then show ?case
    using leaf_absence [of d k lk emp sha3 lv h ld] assms by (auto simp: on_path_def split: if_splits)
next
  case (3 sha3 emp l r h d)
  show ?case
  proof (cases "key_bit k d = 0")
    case True
    then have "map_of (node_leaves l) k = None" "on_path (Suc d) k (node_leaves l)"
      using 3(3,5,6) lookup_left [of d "node_leaves r" k] on_path_left by (simp_all add: on_path_append del: map_of_append)
    then show ?thesis
      using 3(1,3,4) True by (auto simp: key_step_def)
  next
    case False
    then have "map_of (node_leaves r) k = None" "on_path (Suc d) k (node_leaves r)"
      using 3(3,5,6) lookup_right [of d "node_leaves l" k] on_path_right by (simp_all add: on_path_append del: map_of_append)
    then show ?thesis
      using 3(2,3,4) False by (auto simp: key_step_def)
  qed
qed

lemma node_prove_absence_committed:
  "node_ok sha3 emp n d \<Longrightarrow> map_of (node_leaves n) k = Some v \<Longrightarrow> node_prove_absence sha3 emp n d k = None"
proof (induction sha3 emp n d rule: node_ok.induct)
  case (3 sha3 emp l r h d)
  then show ?case
    using lookup_left [of d "node_leaves r" k "node_leaves l"] lookup_right [of d "node_leaves l" k "node_leaves r"]
    by (simp del: map_of_append)
qed (auto split: if_splits)

section \<open>Proofs are binding\<close>

text \<open>What a climb hashes: the input of every level, and the slot at the bottom.\<close>

definition step_preimage :: "hash32 \<Rightarrow> usize \<Rightarrow> hash32 \<Rightarrow> hash32 \<Rightarrow> bytes" where
  "step_preimage k d sib h = DS_STATE @ [MARK_NODE] @ (if key_bit k d = 0 then h @ sib else sib @ h)"

fun path_preimages :: "digest \<Rightarrow> hash32 \<Rightarrow> bytes \<Rightarrow> hash32 list \<Rightarrow> usize \<Rightarrow> bytes list" where
  "path_preimages sha3 k x [] d = [x]"
| "path_preimages sha3 k x (s # ss) d =
     step_preimage k d s (climb_path sha3 k (sha3 x) ss (Suc d)) # path_preimages sha3 k x ss (Suc d)"

definition leaf_preimage :: "hash32 \<Rightarrow> hash32 \<Rightarrow> bytes" where
  "leaf_preimage k v = DS_STATE @ [MARK_LEAF] @ k @ v"

definition empty_preimage :: bytes where
  "empty_preimage = DS_STATE @ [MARK_EMPTY]"

lemma preimages: "smt_leaf_hash sha3 k v = sha3 (leaf_preimage k v)" "smt_sha3 sha3 [[MARK_EMPTY]] = sha3 empty_preimage"
  "key_step sha3 k d s h = sha3 (step_preimage k d s h)"
  by (simp_all add: smt_leaf_hash_def smt_sha3_def leaf_preimage_def empty_preimage_def key_step_def smt_node_hash_def step_preimage_def)

lemma preimages_distinct:
  "leaf_preimage k v = leaf_preimage k w \<longleftrightarrow> v = w" "leaf_preimage k v \<noteq> empty_preimage"
  by (simp_all add: leaf_preimage_def empty_preimage_def MARK_LEAF_def MARK_EMPTY_def)

definition all32 :: "hash32 list \<Rightarrow> bool" where
  "all32 hs \<longleftrightarrow> (\<forall>h \<in> set hs. length h = 32)"

lemma climb_path_32: "digest32 sha3 \<Longrightarrow> length (climb_path sha3 k (sha3 x) ss d) = 32"
  by (cases ss) (simp_all add: preimages digest32_def)

lemma path_binding:
  assumes "length ss = length ss'" "digest32 sha3"
  shows "climb_path sha3 k (sha3 x) ss d = climb_path sha3 k (sha3 y) ss' d \<Longrightarrow> all32 ss \<Longrightarrow> all32 ss' \<Longrightarrow>
    x = y \<or> collides_in sha3 (path_preimages sha3 k x ss d @ path_preimages sha3 k y ss' d)"
  using assms(1)
proof (induction ss ss' arbitrary: d rule: list_induct2)
  case Nil
  then show ?case
    using collides_step [of sha3 x y "[]" "[]"] by simp
next
  case (Cons s ss s' ss')
  let ?h = "climb_path sha3 k (sha3 x) ss (Suc d)" and ?h' = "climb_path sha3 k (sha3 y) ss' (Suc d)"
  have "step_preimage k d s ?h = step_preimage k d s' ?h' \<or> collides_in sha3
      (path_preimages sha3 k x (s # ss) d @ path_preimages sha3 k y (s' # ss') d)"
    using Cons.prems(1) unfolding path_preimages.simps by (intro collides_step) (simp add: preimages)
  moreover have "?h = ?h'" if "step_preimage k d s ?h = step_preimage k d s' ?h'"
    using that Cons.prems(2,3) climb_path_32 [OF assms(2)] by (simp add: step_preimage_def all32_def split: if_splits)
  moreover have "all32 ss" "all32 ss'"
    using Cons.prems by (simp_all add: all32_def)
  ultimately show ?case
    using Cons.IH [of "Suc d"] unfolding collides_in_def by auto
qed

lemma empty_up_32: "digest32 sha3 \<Longrightarrow> all32 (empty_up sha3 n)"
  by (induction n) (simp_all add: all32_def digest32_def smt_sha3_def smt_node_hash_def Let_def)

lemma hash_of_32:
  assumes "digest32 sha3" "node_ok sha3 (empty_hashes sha3) n d"
  shows "length (hash_of (empty_hashes sha3) n d) = 32"
proof (cases n)
  case None
  then show ?thesis
    using assms empty_up_32 [of sha3 TREE_DEPTH] empty_up_length [of sha3 TREE_DEPTH]
    by (simp add: empty_hashes_def all32_def)
next
  case (Some m)
  then show ?thesis
    using assms climb_path_32 by (cases m) (simp_all add: singleton_climb preimages smt_node_hash_def smt_sha3_def digest32_def)
qed

lemma empty_siblings_32: "digest32 sha3 \<Longrightarrow> all32 (empty_siblings (empty_hashes sha3) d)"
  using empty_up_32 [of sha3 TREE_DEPTH] empty_up_length [of sha3 TREE_DEPTH]
  by (auto simp: empty_siblings_def empty_hashes_def all32_def)

lemma node_prove_32:
  "node_ok sha3 emp n d \<Longrightarrow> digest32 sha3 \<Longrightarrow> emp = empty_hashes sha3 \<Longrightarrow> node_prove emp n d k = Some ss \<Longrightarrow> all32 ss"
proof (induction sha3 emp n d arbitrary: ss rule: node_ok.induct)
  case (2 sha3 emp lk lv h ld d)
  then show ?case
    using empty_siblings_32 [of sha3 d] by (auto simp: empty_siblings_def split: if_splits)
next
  case (3 sha3 emp l r h d)
  then show ?case
    using hash_of_32 [of sha3 l "d + 1"] hash_of_32 [of sha3 r "d + 1"]
    by (cases "key_bit k d = 0") (auto simp: all32_def)
qed simp

lemma node_prove_absence_32:
  "node_ok sha3 emp n d \<Longrightarrow> digest32 sha3 \<Longrightarrow> emp = empty_hashes sha3 \<Longrightarrow>
   node_prove_absence sha3 emp n d k = Some ss \<Longrightarrow> all32 ss"
proof (induction sha3 emp n d arbitrary: ss rule: node_ok.induct)
  case (1 sha3 emp d)
  then show ?case
    using empty_siblings_32 [of sha3 d] by (auto simp: empty_siblings_def)
next
  case (2 sha3 emp lk lv h ld d)
  have "length (emp ! Suc e) = 32" if "e < TREE_DEPTH" for e
    using that 2(2,3) empty_up_32 [of sha3 TREE_DEPTH] empty_up_length [of sha3 TREE_DEPTH]
    by (auto simp: empty_hashes_def all32_def)
  moreover have "length (singleton_fold sha3 emp lk lv e) = 32" if "e \<le> TREE_DEPTH" for e
    using that 2(2) climb_path_32 by (simp add: singleton_climb preimages)
  ultimately show ?case
    using 2(4) by (auto simp: all32_def Let_def split: if_splits)
next
  case (3 sha3 emp l r h d)
  then show ?case
    using hash_of_32 [of sha3 l "d + 1"] hash_of_32 [of sha3 r "d + 1"]
    by (cases "key_bit k d = 0") (auto simp: all32_def)
qed

section \<open>The tree as a map\<close>

text \<open>The contract of a store that commits a map: each operation does on the content what it does on a
  sorted map, and the content determines the state, its commitment included.\<close>

datatype ('k, 'v) map_op = Put 'k 'v | Del 'k

fun map_op_key :: "('k, 'v) map_op \<Rightarrow> 'k" where
  "map_op_key (Put k _) = k"
| "map_op_key (Del k) = k"

fun map_op_apply :: "('k::linorder, 'v) map_op \<Rightarrow> ('k, 'v) btree_map \<Rightarrow> ('k, 'v) btree_map" where
  "map_op_apply (Put k v) m = om_insert k v m"
| "map_op_apply (Del k) m = om_remove k m"

fun run_map_ops :: "('k \<Rightarrow> 'v \<Rightarrow> 's \<Rightarrow> 's option) \<Rightarrow> ('k \<Rightarrow> 's \<Rightarrow> 's option) \<Rightarrow> ('k, 'v) map_op list \<Rightarrow> 's \<Rightarrow> 's option" where
  "run_map_ops put del [] s = Some s"
| "run_map_ops put del (Put k v # ops) s = do { s' \<leftarrow> put k v s; run_map_ops put del ops s' }"
| "run_map_ops put del (Del k # ops) s = do { s' \<leftarrow> del k s; run_map_ops put del ops s' }"

locale committed_map =
  fixes ok :: "'s \<Rightarrow> bool" and content :: "'s \<Rightarrow> ('k::linorder \<times> 'v) list" and valid :: "'k \<Rightarrow> bool" and room :: nat
    and put :: "'k \<Rightarrow> 'v \<Rightarrow> 's \<Rightarrow> 's option" and del :: "'k \<Rightarrow> 's \<Rightarrow> 's option"
  assumes content_wf: "ok s \<Longrightarrow> om_wf (content s)"
    and put_ok: "ok s \<Longrightarrow> valid k \<Longrightarrow> length (content s) < room \<Longrightarrow>
      \<exists>s'. put k v s = Some s' \<and> ok s' \<and> content s' = om_insert k v (content s)"
    and del_ok: "ok s \<Longrightarrow> \<exists>s'. del k s = Some s' \<and> ok s' \<and> content s' = om_remove k (content s)"
    and canonical: "ok s \<Longrightarrow> ok s' \<Longrightarrow> content s = content s' \<Longrightarrow> s = s'"
begin

lemma run_ok:
  "ok s \<Longrightarrow> \<forall>p \<in> set ops. valid (map_op_key p) \<Longrightarrow> length (content s) + length ops \<le> room \<Longrightarrow>
   \<exists>s'. run_map_ops put del ops s = Some s' \<and> ok s' \<and> content s' = fold map_op_apply ops (content s)"
proof (induction ops arbitrary: s)
  case (Cons p ops)
  have "\<exists>s'. run_map_ops put del (p # ops) s = run_map_ops put del ops s' \<and> ok s' \<and>
      content s' = map_op_apply p (content s) \<and> length (content s') \<le> Suc (length (content s))"
  proof (cases p)
    case (Put k v)
    have len: "length (om_insert k v m) \<le> Suc (length m)" for m :: "('k \<times> 'v) list"
      by (induction m) auto
    show ?thesis
      using put_ok [of s k v] Cons.prems len by (auto simp: Put)
  next
    case (Del k)
    have len: "length (om_remove k m) \<le> Suc (length m)" for m :: "('k \<times> 'v) list"
      unfolding om_remove_def using length_filter_le [of "\<lambda>e. fst e \<noteq> k" m] by linarith
    show ?thesis
      using del_ok [of s k] Cons.prems len by (auto simp: Del)
  qed
  then obtain s' where s': "run_map_ops put del (p # ops) s = run_map_ops put del ops s'" "ok s'"
      "content s' = map_op_apply p (content s)" "length (content s') \<le> Suc (length (content s))"
    by blast
  have "length (content s') + length ops \<le> room"
    using s'(4) Cons.prems(3) by simp
  then show ?case
    using Cons.IH [OF s'(2)] Cons.prems(2) s'(1,3) by simp
qed simp

text \<open>Two histories that leave the same bindings leave the same state.\<close>

lemma history_free:
  assumes "ok s" "ok s'" "run_map_ops put del ops s = Some t" "run_map_ops put del ops' s' = Some t'"
    and "\<forall>p \<in> set ops \<union> set ops'. valid (map_op_key p)"
    and "length (content s) + length ops \<le> room" "length (content s') + length ops' \<le> room"
    and "map_of (content t) = map_of (content t')"
  shows "t = t'"
proof -
  have "ok t" "ok t'"
    using run_ok [of s ops] run_ok [of s' ops'] assms by auto
  then show ?thesis
    using canonical om_ext content_wf assms(8) by blast
qed

end

definition smt_leaves :: "smt \<Rightarrow> (hash32 \<times> hash32) list" where
  "smt_leaves s = node_leaves (smt_node s)"

definition smt_ok :: "digest \<Rightarrow> smt \<Rightarrow> bool" where
  "smt_ok sha3 s \<longleftrightarrow> smt_empty s = empty_hashes sha3 \<and> node_ok sha3 (empty_hashes sha3) (smt_node s) 0 \<and>
     smt_len s = length (smt_leaves s)"

lemma smt_leaves_wf: "smt_ok sha3 s \<Longrightarrow> om_wf (smt_leaves s)"
  unfolding smt_ok_def smt_leaves_def by (rule leaves_sorted [of sha3 "empty_hashes sha3" _ 0]) (simp_all add: together_def)

lemma smt_leaves_keys32: "smt_ok sha3 s \<Longrightarrow> keys32 (smt_leaves s)"
  using node_ok_keys32 unfolding smt_ok_def smt_leaves_def by blast

lemma om_length: "om_wf m \<Longrightarrow> length m = card (set (keys_of m))"
  using distinct_card [OF om.wf_distinct] by (metis length_map)

lemma om_insert_count:
  "om_wf m \<Longrightarrow> length (om_insert k v m) = (if k \<in> fst ` set m then length m else Suc (length m))"
  using om_length [of m] om_length [OF om_wf_insert, of m k v] om_insert_keys [of k v m] by (simp add: card_insert_if)

lemma om_remove_count:
  assumes "om_wf m"
  shows "length (om_remove k m) = (if k \<in> fst ` set m then length m - 1 else length m)"
proof -
  have "set (keys_of (om_remove k m)) = set (keys_of m) - {k}"
    by (auto simp: om_remove_def)
  then show ?thesis
    using om_length [OF assms] om_length [of "om_remove k m"] om.wf_del [OF assms, of k] by (simp add: card_Diff_singleton_if)
qed

lemma smt_new_ok: "smt_ok sha3 (smt_new sha3)" "smt_leaves (smt_new sha3) = []"
  by (simp_all add: smt_ok_def smt_new_def smt_leaves_def)

lemma from_leaf_map_ok:
  assumes "om_wf m" "keys32 m"
  shows "\<exists>s. from_leaf_map sha3 m = Some s \<and> smt_ok sha3 s \<and> smt_leaves s = m"
proof -
  obtain n where "build_subtree sha3 (empty_hashes sha3) m 0 = Some n" "node_ok sha3 (empty_hashes sha3) n 0" "node_leaves n = m"
    using build_subtree_ok [of 0 m sha3 "empty_hashes sha3"] assms by (auto simp: together_def)
  then show ?thesis
    by (simp add: from_leaf_map_def smt_ok_def smt_leaves_def)
qed

lemma smt_insert_ok:
  assumes "smt_ok sha3 s" "length k = 32" "length (smt_leaves s) < u64_max"
  shows "\<exists>s'. smt_insert sha3 k v s = Some s' \<and> smt_ok sha3 s' \<and> smt_leaves s' = om_insert k v (smt_leaves s)"
proof -
  have ok: "smt_empty s = empty_hashes sha3" "node_ok sha3 (empty_hashes sha3) (smt_node s) 0" "smt_len s = length (smt_leaves s)"
    using assms(1) by (simp_all add: smt_ok_def)
  have "inserted sha3 (empty_hashes sha3) k v (smt_node s) 0 (node_insert sha3 (empty_hashes sha3) (smt_node s) 0 k v)"
    using assms(2) ok(2) by (rule node_insert_ok) (simp add: on_path_def)
  then obtain n a m where n: "node_insert sha3 (empty_hashes sha3) (smt_node s) 0 k v = Some (n, a, m)"
      "node_ok sha3 (empty_hashes sha3) n 0" "node_leaves n = om_insert k v (smt_leaves s)" "a \<longleftrightarrow> k \<notin> fst ` set (smt_leaves s)"
    unfolding smt_leaves_def by (auto simp: inserted_def split: option.splits)
  have "(if a then checked_add u64_max (smt_len s) 1 else Some (smt_len s)) = Some (length (node_leaves n))"
    using n(3,4) ok(3) assms(3) om_insert_count [OF smt_leaves_wf [OF assms(1)], of k v] by (simp add: checked_add_def)
  then show ?thesis
    using n(1-3) ok(1) by (simp add: smt_insert_def smt_ok_def smt_leaves_def)
qed

lemma smt_remove_ok:
  assumes "smt_ok sha3 s"
  shows "\<exists>s'. smt_remove sha3 k s = Some s' \<and> smt_ok sha3 s' \<and> smt_leaves s' = om_remove k (smt_leaves s)"
proof -
  have ok: "smt_empty s = empty_hashes sha3" "node_ok sha3 (empty_hashes sha3) (smt_node s) 0" "smt_len s = length (smt_leaves s)"
    using assms(1) by (simp_all add: smt_ok_def)
  obtain n b where n: "node_remove sha3 (empty_hashes sha3) (smt_node s) 0 k = Some (n, b)"
      "node_ok sha3 (empty_hashes sha3) n 0" "node_leaves n = om_remove k (smt_leaves s)" "b \<longleftrightarrow> k \<in> fst ` set (smt_leaves s)"
    using node_remove_ok [OF ok(2), of k] unfolding smt_leaves_def by (auto simp: taken_out_def split: option.splits)
  have "b \<Longrightarrow> 1 \<le> length (smt_leaves s)"
    using n(4) by (cases "smt_leaves s") auto
  then have "(if b then checked_sub (smt_len s) 1 else Some (smt_len s)) = Some (length (node_leaves n))"
    using n(3,4) ok(3) om_remove_count [OF smt_leaves_wf [OF assms(1)], of k] by (simp add: checked_sub_def)
  then show ?thesis
    using n(1-3) ok(1) by (simp add: smt_remove_def smt_ok_def smt_leaves_def)
qed

lemma smt_canonical:
  assumes "smt_ok sha3 s" "smt_ok sha3 s'" "smt_leaves s = smt_leaves s'"
  shows "s = s'"
  using assms node_unique [of sha3 "empty_hashes sha3" "smt_node s" 0 "smt_node s'"]
  by (cases s; cases s') (simp add: smt_ok_def smt_leaves_def)

interpretation smt_map: committed_map "smt_ok sha3" smt_leaves "\<lambda>k. length k = 32" u64_max "smt_insert sha3" "smt_remove sha3"
  for sha3
  by unfold_locales (rule smt_leaves_wf smt_insert_ok smt_remove_ok smt_canonical; assumption)+

lemma smt_root_flat:
  "smt_ok sha3 s \<Longrightarrow> subtree_root sha3 (empty_hashes sha3) (smt_leaves s) 0 = Some (smt_root s)"
  by (simp add: smt_ok_def smt_leaves_def smt_root_def hash_is_flat_root)

lemma smt_get_ok: "smt_ok sha3 s \<Longrightarrow> smt_get s k = Some (map_of (smt_leaves s) k)"
  using node_get_ok by (auto simp: smt_ok_def smt_leaves_def smt_get_def)

section \<open>Properties\<close>

text \<open>A digest for the concrete instances, and two keys that part at the last bit.\<close>

definition toy_digest :: digest where
  "toy_digest x = replicate 32 (of_nat (length x))"

definition key_a :: hash32 where
  "key_a = replicate 32 0"

definition key_b :: hash32 where
  "key_b = replicate 31 0 @ [1]"

definition pair_map :: "(hash32, hash32) btree_map" where
  "pair_map = [(key_a, replicate 32 5), (key_b, replicate 32 6)]"

lemma toy_digest32: "digest32 toy_digest"
  by (simp add: digest32_def toy_digest_def)

lemma key_a_less_b: "key_a < key_b"
  unfolding list_less_def lexord_take_index_conv
  by (intro disjI2 exI [of _ 31]) (simp add: key_a_def key_b_def nth_append)

lemma pair_map_ok: "om_wf pair_map" "keys32 pair_map"
  using key_a_less_b by (simp_all add: pair_map_def om_wf_def keys32_def key_a_def key_b_def)

lemma pair_map_lookup: "map_of pair_map key_b = Some (replicate 32 6)" "map_of pair_map (replicate 32 9) = None"
  using key_a_less_b by (auto simp: pair_map_def key_a_def key_b_def replicate_append_same dest: arg_cong [where f = last])

text \<open>C8. The incremental tree is the flat definition: after any sequence of insertions and removals the tree holds the
  map that the same sequence makes, it is node for node the tree built in bulk from that map, its root is the root of
  the flat recursion over that map, and lookups and the count are those of the map.\<close>

theorem smt_refines_map:
  assumes "\<forall>p \<in> set ops. length (map_op_key p) = 32" "length ops \<le> u64_max"
  shows "\<exists>s. run_map_ops (smt_insert sha3) (smt_remove sha3) ops (smt_new sha3) = Some s \<and>
    from_leaf_map sha3 (fold map_op_apply ops []) = Some s \<and>
    subtree_root sha3 (empty_hashes sha3) (fold map_op_apply ops []) 0 = Some (smt_root s) \<and>
    (\<forall>k. smt_get s k = Some (map_of (fold map_op_apply ops []) k)) \<and> smt_len s = length (fold map_op_apply ops [])"
proof -
  obtain s where s: "run_map_ops (smt_insert sha3) (smt_remove sha3) ops (smt_new sha3) = Some s" "smt_ok sha3 s"
      "smt_leaves s = fold map_op_apply ops []"
    using smt_map.run_ok [OF smt_new_ok(1) assms(1), of sha3] assms(2) by (auto simp: smt_new_ok(2))
  obtain t where "from_leaf_map sha3 (smt_leaves s) = Some t" "smt_ok sha3 t" "smt_leaves t = smt_leaves s"
    using from_leaf_map_ok [OF smt_leaves_wf smt_leaves_keys32] s(2) by blast
  then have "from_leaf_map sha3 (smt_leaves s) = Some s"
    using smt_canonical s(2) by blast
  then show ?thesis
    using s smt_root_flat [OF s(2)] smt_get_ok [OF s(2)] by (simp add: smt_ok_def)
qed

theorem smt_refines_map_witness:
  "\<exists>s. run_map_ops (smt_insert toy_digest) (smt_remove toy_digest)
      [Put key_a (replicate 32 5), Put key_b (replicate 32 6), Del key_a] (smt_new toy_digest) = Some s \<and>
    smt_get s key_b = Some (Some (replicate 32 6)) \<and> smt_len s = 1"
  using smt_refines_map [of "[Put key_a (replicate 32 5), Put key_b (replicate 32 6), Del key_a]" toy_digest] key_a_less_b
  by (auto simp: key_a_def key_b_def om_remove_def u64_max_def)

text \<open>C25. Every operation keeps the shape of the trie: hashes and depths of all nodes are right, every key hangs on the
  side of its bit, no split holds fewer than two keys, and the count is the number of leaves.\<close>

theorem smt_shape:
  assumes "smt_ok sha3 s" "length k = 32" "smt_len s < u64_max"
  shows "smt_ok sha3 (smt_new sha3) \<and> (\<exists>s'. smt_insert sha3 k v s = Some s' \<and> smt_ok sha3 s') \<and>
    (\<exists>s'. smt_remove sha3 k s = Some s' \<and> smt_ok sha3 s') \<and>
    (om_wf m \<and> keys32 m \<longrightarrow> (\<exists>s'. from_leaf_map sha3 m = Some s' \<and> smt_ok sha3 s'))"
proof -
  have "length (smt_leaves s) < u64_max"
    using assms(1,3) by (simp add: smt_ok_def)
  then show ?thesis
    using smt_new_ok(1) smt_insert_ok [OF assms(1,2)] smt_remove_ok [OF assms(1)] from_leaf_map_ok by blast
qed

theorem smt_shape_witness:
  "\<exists>s'. smt_insert toy_digest key_a (replicate 32 5) (smt_new toy_digest) = Some s' \<and> smt_ok toy_digest s'"
  using smt_shape [of toy_digest "smt_new toy_digest" key_a "replicate 32 5" "[]"]
  by (simp add: smt_new_ok) (simp add: key_a_def smt_new_def u64_max_def)

text \<open>A repeated key would make the builder read a bit beyond the key: it is the sorted map that rules this out.\<close>

lemma build_duplicate:
  assumes "d \<le> TREE_DEPTH"
  shows "build_subtree sha3 emp [(k, v), (k, w)] d = None"
  using assms
proof (induction d rule: inc_induct)
  case (step d)
  then show ?case
    by (subst build_subtree.simps) simp
qed (simp add: build_subtree.simps)

lemma prove_committed:
  assumes "smt_ok sha3 s" "map_of (smt_leaves s) k = Some v"
  obtains q where "smt_prove s k = Some q" "length q = TREE_DEPTH"
    and "climb_path sha3 k (smt_leaf_hash sha3 k v) q 0 = smt_root s" "smt_prove_absence sha3 s k = None"
    and "digest32 sha3 \<longrightarrow> all32 q"
proof -
  have ok: "smt_empty s = empty_hashes sha3" "node_ok sha3 (empty_hashes sha3) (smt_node s) 0"
    using assms(1) by (simp_all add: smt_ok_def)
  obtain q where q: "node_prove (empty_hashes sha3) (smt_node s) 0 k = Some q" "length q = TREE_DEPTH"
      "climb_path sha3 k (smt_leaf_hash sha3 k v) q 0 = hash_of (empty_hashes sha3) (smt_node s) 0"
    using node_prove_committed [OF ok(2)] assms(2) unfolding smt_leaves_def by fastforce
  moreover have "node_prove_absence sha3 (empty_hashes sha3) (smt_node s) 0 k = None"
    using node_prove_absence_committed [OF ok(2)] assms(2) unfolding smt_leaves_def by blast
  moreover have "digest32 sha3 \<longrightarrow> all32 q"
    using node_prove_32 [OF ok(2) _ refl q(1)] by blast
  ultimately show thesis
    using that by (simp add: smt_prove_def smt_prove_absence_def smt_root_def ok(1))
qed

lemma prove_absent:
  assumes "smt_ok sha3 s" "map_of (smt_leaves s) k = None" "length k = 32"
  obtains q where "smt_prove_absence sha3 s k = Some q" "length q = TREE_DEPTH"
    and "climb_path sha3 k (smt_sha3 sha3 [[MARK_EMPTY]]) q 0 = smt_root s" "smt_prove s k = None"
    and "digest32 sha3 \<longrightarrow> all32 q"
proof -
  have ok: "smt_empty s = empty_hashes sha3" "node_ok sha3 (empty_hashes sha3) (smt_node s) 0"
    using assms(1) by (simp_all add: smt_ok_def)
  obtain q where q: "node_prove_absence sha3 (empty_hashes sha3) (smt_node s) 0 k = Some q" "length q = TREE_DEPTH"
      "climb_path sha3 k (smt_sha3 sha3 [[MARK_EMPTY]]) q 0 = hash_of (empty_hashes sha3) (smt_node s) 0"
    using node_prove_absence_absent [OF assms(3) ok(2) refl] assms(2) unfolding smt_leaves_def by (fastforce simp: on_path_def)
  moreover have "node_prove (empty_hashes sha3) (smt_node s) 0 k = None"
    using node_prove_absent assms(2) unfolding smt_leaves_def by blast
  moreover have "digest32 sha3 \<longrightarrow> all32 q"
    using node_prove_absence_32 [OF ok(2) _ refl q(1)] by blast
  ultimately show thesis
    using that by (simp add: smt_prove_def smt_prove_absence_def smt_root_def ok(1))
qed

text \<open>C26. Proofs are complete: for a committed key the tree makes an inclusion proof that verifies and no absence proof;
  for any other key it makes an absence proof that verifies and no inclusion proof.\<close>

theorem smt_proofs_complete:
  assumes "smt_ok sha3 s" "length k = 32"
  shows "case map_of (smt_leaves s) k of
      Some v \<Rightarrow> (\<exists>q. smt_prove s k = Some q \<and> verify_inclusion sha3 (smt_root s) k v q) \<and> smt_prove_absence sha3 s k = None
    | None \<Rightarrow> (\<exists>q. smt_prove_absence sha3 s k = Some q \<and> verify_absence sha3 (smt_root s) k q) \<and> smt_prove s k = None"
proof (cases "map_of (smt_leaves s) k")
  case None
  obtain q where "smt_prove_absence sha3 s k = Some q" "length q = TREE_DEPTH"
      "climb_path sha3 k (smt_sha3 sha3 [[MARK_EMPTY]]) q 0 = smt_root s" "smt_prove s k = None"
    using prove_absent [OF assms(1) None assms(2)] by metis
  then show ?thesis
    by (simp add: None verify_absence_def verify_climb)
next
  case (Some v)
  obtain q where "smt_prove s k = Some q" "length q = TREE_DEPTH"
      "climb_path sha3 k (smt_leaf_hash sha3 k v) q 0 = smt_root s" "smt_prove_absence sha3 s k = None"
    using prove_committed [OF assms(1) Some] by metis
  then show ?thesis
    by (simp add: Some verify_inclusion_def verify_climb)
qed

theorem smt_proofs_complete_witness:
  "\<exists>s q q'. from_leaf_map toy_digest pair_map = Some s \<and>
    smt_prove s key_b = Some q \<and> verify_inclusion toy_digest (smt_root s) key_b (replicate 32 6) q \<and>
    smt_prove_absence toy_digest s (replicate 32 9) = Some q' \<and> verify_absence toy_digest (smt_root s) (replicate 32 9) q'"
proof -
  obtain s where "from_leaf_map toy_digest pair_map = Some s" "smt_ok toy_digest s" "smt_leaves s = pair_map"
    using from_leaf_map_ok [OF pair_map_ok] by blast
  then show ?thesis
    using smt_proofs_complete [of toy_digest s key_b] smt_proofs_complete [of toy_digest s "replicate 32 9"] pair_map_lookup
    by (auto simp: key_b_def)
qed

text \<open>The inputs that the honest proof of a key hashes.\<close>

definition opening_preimages :: "digest \<Rightarrow> smt \<Rightarrow> hash32 \<Rightarrow> bytes list" where
  "opening_preimages sha3 s k = (case map_of (smt_leaves s) k of
     Some v \<Rightarrow> path_preimages sha3 k (leaf_preimage k v) (the (smt_prove s k)) 0
   | None \<Rightarrow> path_preimages sha3 k empty_preimage (the (smt_prove_absence sha3 s k)) 0)"

definition slot_preimage :: "smt \<Rightarrow> hash32 \<Rightarrow> bytes" where
  "slot_preimage s k = (case map_of (smt_leaves s) k of Some v \<Rightarrow> leaf_preimage k v | None \<Rightarrow> empty_preimage)"

lemma climb_binds_slot:
  assumes "digest32 sha3" "smt_ok sha3 s" "length k = 32" "all32 p" "length p = TREE_DEPTH"
    and "climb_path sha3 k (sha3 x) p 0 = smt_root s"
  shows "x = slot_preimage s k \<or> collides_in sha3 (path_preimages sha3 k x p 0 @ opening_preimages sha3 s k)"
proof (cases "map_of (smt_leaves s) k")
  case None
  obtain q where q: "smt_prove_absence sha3 s k = Some q" "length q = TREE_DEPTH"
      "climb_path sha3 k (smt_sha3 sha3 [[MARK_EMPTY]]) q 0 = smt_root s" "all32 q"
    using prove_absent [OF assms(2) None assms(3)] assms(1) by metis
  then show ?thesis
    using path_binding [of p q sha3 k x 0 empty_preimage] assms
    by (simp add: None slot_preimage_def opening_preimages_def preimages)
next
  case (Some v)
  obtain q where q: "smt_prove s k = Some q" "length q = TREE_DEPTH"
      "climb_path sha3 k (smt_leaf_hash sha3 k v) q 0 = smt_root s" "all32 q"
    using prove_committed [OF assms(2) Some] assms(1) by metis
  then show ?thesis
    using path_binding [of p q sha3 k x 0 "leaf_preimage k v"] assms
    by (simp add: Some slot_preimage_def opening_preimages_def preimages)
qed

text \<open>C22. Proofs are sound: an inclusion proof that verifies against the root shows the value the tree commits at the key,
  and an absence proof that verifies shows that it commits none, or a collision of the digest is found among the inputs
  that the proof and the honest opening of that key hash.\<close>

theorem smt_proofs_sound:
  assumes "digest32 sha3" "smt_ok sha3 s" "length k = 32" "all32 p"
  shows "(verify_inclusion sha3 (smt_root s) k v p \<longrightarrow> smt_get s k = Some (Some v) \<or>
      collides_in sha3 (path_preimages sha3 k (leaf_preimage k v) p 0 @ opening_preimages sha3 s k)) \<and>
    (verify_absence sha3 (smt_root s) k p \<longrightarrow> smt_get s k = Some None \<or>
      collides_in sha3 (path_preimages sha3 k empty_preimage p 0 @ opening_preimages sha3 s k))"
proof (intro conjI impI)
  note slot = climb_binds_slot [OF assms]
  assume "verify_inclusion sha3 (smt_root s) k v p"
  then have "length p = TREE_DEPTH" "climb_path sha3 k (sha3 (leaf_preimage k v)) p 0 = smt_root s"
    by (auto simp: verify_inclusion_def verify_climb preimages(1) split: if_splits)
  then show "smt_get s k = Some (Some v) \<or>
      collides_in sha3 (path_preimages sha3 k (leaf_preimage k v) p 0 @ opening_preimages sha3 s k)"
    using slot [of "leaf_preimage k v"] smt_get_ok [OF assms(2), of k]
    by (auto simp: slot_preimage_def preimages_distinct split: option.splits)
next
  note slot = climb_binds_slot [OF assms]
  assume "verify_absence sha3 (smt_root s) k p"
  then have "length p = TREE_DEPTH" "climb_path sha3 k (sha3 empty_preimage) p 0 = smt_root s"
    by (auto simp: verify_absence_def verify_climb preimages(2) split: if_splits)
  then show "smt_get s k = Some None \<or>
      collides_in sha3 (path_preimages sha3 k empty_preimage p 0 @ opening_preimages sha3 s k)"
    using slot [of empty_preimage] smt_get_ok [OF assms(2), of k] preimages_distinct(2) [symmetric]
    by (auto simp: slot_preimage_def split: option.splits)
qed

theorem smt_proofs_sound_witness:
  "\<exists>s q. from_leaf_map toy_digest pair_map = Some s \<and> verify_inclusion toy_digest (smt_root s) key_b (replicate 32 6) q \<and>
    (smt_get s key_b = Some (Some (replicate 32 6)) \<or> collides_in toy_digest
      (path_preimages toy_digest key_b (leaf_preimage key_b (replicate 32 6)) q 0 @ opening_preimages toy_digest s key_b))"
proof -
  obtain s where s: "from_leaf_map toy_digest pair_map = Some s" "smt_ok toy_digest s" "smt_leaves s = pair_map"
    using from_leaf_map_ok [OF pair_map_ok] by blast
  have lookup: "map_of (smt_leaves s) key_b = Some (replicate 32 6)"
    using s(3) pair_map_lookup(1) by simp
  obtain q where q: "length q = TREE_DEPTH" "all32 q"
      "climb_path toy_digest key_b (smt_leaf_hash toy_digest key_b (replicate 32 6)) q 0 = smt_root s"
    using prove_committed [OF s(2) lookup] toy_digest32 by metis
  then have "verify_inclusion toy_digest (smt_root s) key_b (replicate 32 6) q"
    by (simp add: verify_inclusion_def verify_climb)
  moreover have "length key_b = 32"
    by (simp add: key_b_def)
  ultimately show ?thesis
    using smt_proofs_sound [OF toy_digest32 s(2) _ q(2), of key_b "replicate 32 6"] s(1) by blast
qed

section \<open>The memo is transparent\<close>

definition memo_right :: "digest \<Rightarrow> hash32 list \<Rightarrow> singleton_memo \<Rightarrow> bool" where
  "memo_right sha3 emp m \<longleftrightarrow> (\<forall>k v d h. map_of (hot m) (k, v, d) = Some h \<or> map_of (cold m) (k, v, d) = Some h \<longrightarrow>
     h = singleton_fold sha3 emp k v d)"

text \<open>A call returns the fold whatever the memo holds, so the trie above is the one the code builds.\<close>

lemma singleton_memo_transparent:
  assumes "memo_right sha3 emp m"
  shows "fst (singleton_subtree_root sha3 emp k v d m) = singleton_fold sha3 emp k v d \<and>
    memo_right sha3 emp (snd (singleton_subtree_root sha3 emp k v d m))"
  using assms
  by (auto simp: singleton_subtree_root_def memo_get_def memo_put_def memo_right_def Let_def update_conv' split: option.splits if_splits)

text \<open>Promotion copies entries into the new generation without rotating it: with \<open>c\<close> entries in the old generation and
  a new one that is all but full, reading every old entry and computing one more makes a generation of \<open>c\<close> entries more
  than \<open>SINGLETON_MEMO_GENERATION\<close>, so the memory is not bounded by two generations.\<close>

lemma memo_get_cold:
  assumes "map_of (hot m) key = None" "map_of (cold m) key = Some h"
  shows "snd (memo_get m key) = m\<lparr> hot := AList.update key h (hot m) \<rparr>"
  using assms by (simp add: memo_get_def)

lemma update_fresh_length: "k \<notin> fst ` set al \<Longrightarrow> length (AList.update k v al) = Suc (length al)"
  by (induction al) auto

lemma promotion_grows:
  assumes "distinct (map fst cs)" "fst ` set cs \<inter> fst ` set (hot m) = {}" "\<forall>e \<in> set cs. map_of (cold m) (fst e) = Some (snd e)"
  shows "\<exists>m'. fold (\<lambda>e m. snd (memo_get m (fst e))) cs m = m' \<and> length (hot m') = length (hot m) + length cs \<and>
    fst ` set (hot m') = fst ` set (hot m) \<union> fst ` set cs \<and> cold m' = cold m"
  using assms
proof (induction cs arbitrary: m)
  case (Cons e cs)
  let ?m = "m\<lparr> hot := AList.update (fst e) (snd e) (hot m) \<rparr>"
  have fresh: "fst e \<notin> fst ` set (hot m)"
    using Cons.prems(2) by auto
  then have "snd (memo_get m (fst e)) = ?m"
    using Cons.prems(3) by (intro memo_get_cold) (simp_all add: map_of_eq_None_iff)
  moreover have "fst ` set (hot ?m) = insert (fst e) (fst ` set (hot m))" "length (hot ?m) = Suc (length (hot m))"
    using fresh by (simp_all add: dom_update update_fresh_length)
  ultimately show ?case
    using Cons.IH [of ?m] Cons.prems by auto
qed simp

lemma memo_outgrows_generations:
  assumes "distinct (map fst (cold m))" "fst ` set (cold m) \<inter> fst ` set (hot m) = {}"
    and "length (hot m) = SINGLETON_MEMO_GENERATION - 1" "key \<notin> fst ` set (cold m) \<union> fst ` set (hot m)"
  shows "length (cold (memo_put (fold (\<lambda>e m. snd (memo_get m (fst e))) (cold m) m) key h))
    = SINGLETON_MEMO_GENERATION + length (cold m)"
proof -
  let ?m = "fold (\<lambda>e m. snd (memo_get m (fst e))) (cold m) m"
  have "length (hot ?m) = length (hot m) + length (cold m)" "fst ` set (hot ?m) = fst ` set (hot m) \<union> fst ` set (cold m)"
    using promotion_grows [OF assms(1,2)] assms(1) by auto
  then show ?thesis
    using assms(3,4) update_fresh_length [of key "hot ?m" h]
    by (simp add: memo_put_def Let_def SINGLETON_MEMO_GENERATION_def Un_commute)
qed

end
