(* ===== verification/Ffg.thy ===== *)
theory Ffg
  imports Params Quorum
begin

text \<open>
  The static finality committee (\<^verbatim>\<open>bloch-ffg/src/lib.rs\<close>): 21 seats, a quorum of 14, vacancies and
  their replacement.  SHA-256 is the parameter \<open>sha256\<close> and the host's signature check
  (\<^verbatim>\<open>SigVerifier\<close>) the parameter \<open>v\<close>, of message, key and signature.  A replacement
  counter that overflows panics: the result is then \<^term>\<open>None\<close>.
\<close>

section \<open>The committee\<close>

definition FFG_COMMITTEE_SIZE :: usize where
  "FFG_COMMITTEE_SIZE = 21"

definition FFG_QUORUM :: usize where
  "FFG_QUORUM = 14"

definition MAX_VACANCY :: usize where
  "MAX_VACANCY = 3"

lemmas ffg_consts = FFG_COMMITTEE_SIZE_def FFG_QUORUM_def MAX_VACANCY_def

record ffg_seat =
  seat_key :: bytes
  seat_active :: bool
  replacements :: u64

record ffg_committee =
  seats :: "ffg_seat list"

datatype ffg_error = WrongSize usize | NoQuorum usize usize | FinalityPaused | SeatOutOfRange nat
  | SeatNotVacant nat | DuplicatePubkey usize | EmptyPubkey usize | StaleNonce u64 u64

definition committee_new :: "bytes list \<Rightarrow> ffg_error + ffg_committee" where
  "committee_new pubkeys =
     (if length pubkeys \<noteq> FFG_COMMITTEE_SIZE then Inl (WrongSize (length pubkeys))
      else case find (\<lambda>i. pubkeys ! i = [] \<or> pubkeys ! i \<in> set (take i pubkeys)) [0..<length pubkeys] of
        Some i \<Rightarrow> Inl (if pubkeys ! i = [] then EmptyPubkey i else DuplicatePubkey i)
      | None \<Rightarrow> Inr \<lparr> seats = map (\<lambda>pk. \<lparr> seat_key = pk, seat_active = True, replacements = 0 \<rparr>) pubkeys \<rparr>)"

definition active_count :: "ffg_committee \<Rightarrow> usize" where
  "active_count c = length (filter seat_active (seats c))"

definition finality_available :: "ffg_committee \<Rightarrow> bool" where
  "finality_available c = (active_count c \<ge> FFG_COMMITTEE_SIZE - MAX_VACANCY)"

type_synonym sig_check = "bytes \<Rightarrow> bytes \<Rightarrow> bytes \<Rightarrow> bool"

record seat_sig =
  sig_seat :: nat
  seat_sig_bytes :: bytes

record msg_context =
  ctx_chain_id :: u32
  ctx_epoch :: u64
  ctx_nonce :: u64

text \<open>What the hasher has absorbed.\<close>

definition domain_hasher :: "bytes \<Rightarrow> msg_context \<Rightarrow> bytes" where
  "domain_hasher tag ctx = tag @ le_bytes 4 (ctx_chain_id ctx) @ le_bytes 8 (ctx_epoch ctx) @ le_bytes 8 (ctx_nonce ctx)"

definition count_signers :: "sig_check \<Rightarrow> ffg_committee \<Rightarrow> bytes \<Rightarrow> seat_sig list \<Rightarrow> usize" where
  "count_signers v c msg sigs = snd (foldl (\<lambda>(seen, n) s.
     let i = sig_seat s in
     if i \<ge> FFG_COMMITTEE_SIZE \<or> i \<ge> length (seats c) \<or> seen ! i then (seen, n)
     else if seat_active (seats c ! i) \<and> v msg (seat_key (seats c ! i)) (seat_sig_bytes s) then (seen[i := True], n + 1)
     else (seen, n)) (replicate FFG_COMMITTEE_SIZE False, 0) sigs)"

definition has_quorum :: "sig_check \<Rightarrow> ffg_committee \<Rightarrow> bytes \<Rightarrow> seat_sig list \<Rightarrow> bool" where
  "has_quorum v c msg sigs = (finality_available c \<and> count_signers v c msg sigs \<ge> FFG_QUORUM)"

section \<open>What the committee signs\<close>

record feature_activation =
  feature :: bytes
  activation_height :: u64

definition activation_message :: "digest \<Rightarrow> feature_activation \<Rightarrow> msg_context \<Rightarrow> bytes" where
  "activation_message sha256 a ctx = sha256 (domain_hasher (ascii ''BLOCH-FFG-ACTIVATE-v2'') ctx
     @ le_bytes 4 (length (feature a) mod 2 ^ 32) @ feature a @ le_bytes 8 (activation_height a))"

definition is_feature_active :: "digest \<Rightarrow> sig_check \<Rightarrow> ffg_committee \<Rightarrow> feature_activation \<Rightarrow> msg_context \<Rightarrow> seat_sig list
    \<Rightarrow> u64 \<Rightarrow> bool" where
  "is_feature_active sha256 v c a ctx sigs current_height =
     (current_height \<ge> activation_height a \<and> has_quorum v c (activation_message sha256 a ctx) sigs)"

record ffg_checkpoint =
  cp_height :: u64
  cp_block_hash :: hash32

definition checkpoint_message :: "digest \<Rightarrow> ffg_checkpoint \<Rightarrow> msg_context \<Rightarrow> bytes" where
  "checkpoint_message sha256 cp ctx = sha256 (domain_hasher (ascii ''BLOCH-FFG-FINAL-v2'') ctx
     @ le_bytes 8 (cp_height cp) @ cp_block_hash cp)"

definition is_finalized :: "digest \<Rightarrow> sig_check \<Rightarrow> ffg_committee \<Rightarrow> ffg_checkpoint \<Rightarrow> msg_context \<Rightarrow> seat_sig list \<Rightarrow> bool" where
  "is_finalized sha256 v c cp ctx sigs = has_quorum v c (checkpoint_message sha256 cp ctx) sigs"

section \<open>Vacancies\<close>

datatype exit_reason = Resigned | ProlongedDowntime | RemovedForFault

definition open_vacancy :: "ffg_committee \<Rightarrow> nat \<Rightarrow> exit_reason \<Rightarrow> ffg_error + ffg_committee" where
  "open_vacancy c i reason =
     (if i < length (seats c) then Inr (c\<lparr> seats := (seats c)[i := (seats c ! i)\<lparr> seat_active := False \<rparr>] \<rparr>)
      else Inl (SeatOutOfRange i))"

definition replacement_message :: "digest \<Rightarrow> nat \<Rightarrow> bytes \<Rightarrow> msg_context \<Rightarrow> bytes" where
  "replacement_message sha256 i candidate ctx = sha256 (domain_hasher (ascii ''BLOCH-FFG-REPLACE-v2'') ctx
     @ [of_nat i] @ le_bytes 4 (length candidate mod 2 ^ 32) @ candidate)"

definition fill_vacancy :: "digest \<Rightarrow> sig_check \<Rightarrow> ffg_committee \<Rightarrow> nat \<Rightarrow> bytes \<Rightarrow> msg_context \<Rightarrow> seat_sig list
    \<Rightarrow> (ffg_error + ffg_committee) option" where
  "fill_vacancy sha256 v c i candidate ctx approvals =
     (if i \<ge> length (seats c) then Some (Inl (SeatOutOfRange i))
      else if seat_active (seats c ! i) then Some (Inl (SeatNotVacant i))
      else let expected = replacements (seats c ! i) in
      if candidate = [] then Some (Inl (EmptyPubkey i))
      else case find (\<lambda>j. j \<noteq> i \<and> seat_key (seats c ! j) = candidate) [0..<length (seats c)] of
        Some j \<Rightarrow> Some (Inl (DuplicatePubkey j))
      | None \<Rightarrow>
        if ctx_nonce ctx \<noteq> expected then Some (Inl (StaleNonce (ctx_nonce ctx) expected))
        else let signers = count_signers v c (replacement_message sha256 i candidate ctx) approvals in
        if signers < FFG_QUORUM then Some (Inl (NoQuorum signers FFG_QUORUM))
        else do {
          r \<leftarrow> checked_add u64_max expected 1;
          Some (Inr (c\<lparr> seats := (seats c)[i := \<lparr> seat_key = candidate, seat_active = True, replacements = r \<rparr>] \<rparr>))
        })"

section \<open>Who signed\<close>

definition signers :: "sig_check \<Rightarrow> ffg_committee \<Rightarrow> bytes \<Rightarrow> seat_sig list \<Rightarrow> nat set" where
  "signers v c msg sigs = {i. i < FFG_COMMITTEE_SIZE \<and> i < length (seats c) \<and> seat_active (seats c ! i) \<and>
     (\<exists>s \<in> set sigs. sig_seat s = i \<and> v msg (seat_key (seats c ! i)) (seat_sig_bytes s))}"

definition valid_sig :: "sig_check \<Rightarrow> ffg_committee \<Rightarrow> bytes \<Rightarrow> seat_sig \<Rightarrow> bool" where
  "valid_sig v c msg s \<longleftrightarrow> (let i = sig_seat s in i < FFG_COMMITTEE_SIZE \<and> i < length (seats c) \<and> seat_active (seats c ! i) \<and>
     v msg (seat_key (seats c ! i)) (seat_sig_bytes s))"

lemma signers_snoc: "signers v c msg (sigs @ [s]) = (if valid_sig v c msg s then insert (sig_seat s) (signers v c msg sigs)
    else signers v c msg sigs)"
  by (auto simp: signers_def valid_sig_def Let_def)

lemma signers_bound: "i \<in> signers v c msg sigs \<Longrightarrow> i < FFG_COMMITTEE_SIZE \<and> i < length (seats c)"
  by (simp add: signers_def)

lemma finite_signers: "finite (signers v c msg sigs)"
  by (rule finite_subset [of _ "{..<FFG_COMMITTEE_SIZE}"]) (auto simp: signers_def)

text \<open>The counter with its bitmap counts the distinct active seats with a valid signature.\<close>

lemma count_signers_card: "count_signers v c msg sigs = card (signers v c msg sigs)"
proof -
  let ?step = "\<lambda>(seen, n) s. let i = sig_seat s in
     if i \<ge> FFG_COMMITTEE_SIZE \<or> i \<ge> length (seats c) \<or> seen ! i then (seen, n)
     else if seat_active (seats c ! i) \<and> v msg (seat_key (seats c ! i)) (seat_sig_bytes s) then (seen[i := True], n + 1)
     else (seen, n)"
  have "\<exists>seen. foldl ?step (replicate FFG_COMMITTEE_SIZE False, 0) sigs = (seen, card (signers v c msg sigs)) \<and>
      length seen = FFG_COMMITTEE_SIZE \<and> (\<forall>i < FFG_COMMITTEE_SIZE. seen ! i \<longleftrightarrow> i \<in> signers v c msg sigs)"
  proof (induction sigs rule: rev_induct)
    case Nil
    then show ?case
      by (simp add: signers_def)
  next
    case (snoc s sigs)
    then obtain seen where seen: "foldl ?step (replicate FFG_COMMITTEE_SIZE False, 0) sigs = (seen, card (signers v c msg sigs))"
        "length seen = FFG_COMMITTEE_SIZE" "\<forall>i < FFG_COMMITTEE_SIZE. seen ! i \<longleftrightarrow> i \<in> signers v c msg sigs"
      by blast
    have step: "?step (seen, n) s = (if valid_sig v c msg s \<and> sig_seat s \<notin> signers v c msg sigs
        then (seen[sig_seat s := True], n + 1) else (seen, n))" for n
      using seen(3) by (auto simp: valid_sig_def Let_def)
    show ?case
    proof (cases "valid_sig v c msg s \<and> sig_seat s \<notin> signers v c msg sigs")
      case True
      then have "foldl ?step (replicate FFG_COMMITTEE_SIZE False, 0) (sigs @ [s])
          = (seen[sig_seat s := True], card (signers v c msg (sigs @ [s])))"
        unfolding foldl_append foldl.simps seen(1) step using finite_signers by (simp add: signers_snoc)
      moreover have "sig_seat s < length seen"
        using True seen(2) by (simp add: valid_sig_def Let_def)
      then have "\<forall>i < FFG_COMMITTEE_SIZE. seen[sig_seat s := True] ! i \<longleftrightarrow> i \<in> signers v c msg (sigs @ [s])"
        using True seen(3) by (auto simp: signers_snoc nth_list_update)
      ultimately show ?thesis
        using seen(2) by simp
    next
      case False
      then have "signers v c msg (sigs @ [s]) = signers v c msg sigs"
        by (auto simp: signers_snoc)
      moreover have "foldl ?step (replicate FFG_COMMITTEE_SIZE False, 0) (sigs @ [s]) = (seen, card (signers v c msg sigs))"
        unfolding foldl_append foldl.simps seen(1) step using False by simp
      ultimately show ?thesis
        using seen(2,3) by simp
    qed
  qed
  then show ?thesis
    by (auto simp: count_signers_def)
qed

text \<open>Fourteen of twenty-one is a two-thirds rule.\<close>

interpretation committee21: two_thirds_quorum "{..<FFG_COMMITTEE_SIZE}" "\<lambda>_. 1" "\<lambda>w. FFG_QUORUM \<le> w"
  by unfold_locales (simp_all add: ffg_consts)

section \<open>The life of a committee\<close>

definition committee_ok :: "ffg_committee \<Rightarrow> bool" where
  "committee_ok c \<longleftrightarrow> length (seats c) = FFG_COMMITTEE_SIZE \<and> distinct (map seat_key (seats c)) \<and> [] \<notin> seat_key ` set (seats c)"

lemma distinct_if_fresh:
  assumes "\<And>i. i < length xs \<Longrightarrow> xs ! i \<notin> set (take i xs)"
  shows "distinct xs"
  using assms
proof (induction xs rule: rev_induct)
  case (snoc x xs)
  have "xs ! i \<notin> set (take i xs)" if "i < length xs" for i
    using snoc.prems [of i] that by (simp add: nth_append)
  moreover have "x \<notin> set xs"
    using snoc.prems [of "length xs"] by simp
  ultimately show ?case
    using snoc.IH by simp
qed simp

lemma committee_new_ok:
  assumes "committee_new pks = Inr c"
  shows "committee_ok c" "map seat_key (seats c) = pks" "\<forall>s \<in> set (seats c). seat_active s \<and> replacements s = 0"
proof -
  have len: "length pks = FFG_COMMITTEE_SIZE" and none: "find (\<lambda>i. pks ! i = [] \<or> pks ! i \<in> set (take i pks)) [0..<length pks] = None"
    and c: "c = \<lparr> seats = map (\<lambda>pk. \<lparr> seat_key = pk, seat_active = True, replacements = 0 \<rparr>) pks \<rparr>"
    using assms by (auto simp: committee_new_def split: if_splits option.splits)
  show keys: "map seat_key (seats c) = pks"
    by (simp add: c comp_def)
  have fresh: "pks ! i \<noteq> []" "pks ! i \<notin> set (take i pks)" if "i < length pks" for i
    using none that by (auto simp: find_None_iff)
  have "distinct pks"
    by (rule distinct_if_fresh) (simp add: fresh)
  moreover have "[] \<notin> set pks"
    using fresh(1) by (metis in_set_conv_nth)
  ultimately show "committee_ok c"
    using len by (simp add: c committee_ok_def comp_def image_image)
  show "\<forall>s \<in> set (seats c). seat_active s \<and> replacements s = 0"
    by (auto simp: c)
qed

text \<open>What an accepted replacement has shown.\<close>

lemma fill_vacancy_Inr:
  assumes "fill_vacancy sha256 v c i candidate ctx approvals = Some (Inr c')"
  shows "i < length (seats c)" "\<not> seat_active (seats c ! i)" "candidate \<noteq> []"
    "\<forall>j < length (seats c). j \<noteq> i \<longrightarrow> seat_key (seats c ! j) \<noteq> candidate"
    "ctx_nonce ctx = replacements (seats c ! i)" "FFG_QUORUM \<le> count_signers v c (replacement_message sha256 i candidate ctx) approvals"
    "c' = c\<lparr> seats := (seats c)[i := \<lparr> seat_key = candidate, seat_active = True, replacements = ctx_nonce ctx + 1 \<rparr>] \<rparr>"
  using assms
  by (auto simp: fill_vacancy_def Let_def find_None_iff checked_add_def split: if_splits option.splits bind_splits)

lemma open_vacancy_Inr:
  assumes "open_vacancy c i reason = Inr c'"
  shows "i < length (seats c)" "c' = c\<lparr> seats := (seats c)[i := (seats c ! i)\<lparr> seat_active := False \<rparr>] \<rparr>"
  using assms by (auto simp: open_vacancy_def split: if_splits)

inductive ffg_step :: "digest \<Rightarrow> sig_check \<Rightarrow> ffg_committee \<Rightarrow> ffg_committee \<Rightarrow> bool" for sha256 v where
  opened: "open_vacancy c i reason = Inr c' \<Longrightarrow> ffg_step sha256 v c c'"
| filled: "fill_vacancy sha256 v c i candidate ctx approvals = Some (Inr c') \<Longrightarrow> ffg_step sha256 v c c'"

inductive ffg_run :: "digest \<Rightarrow> sig_check \<Rightarrow> ffg_committee \<Rightarrow> ffg_committee \<Rightarrow> bool" for sha256 v where
  start: "ffg_run sha256 v c c"
| more: "ffg_run sha256 v c c' \<Longrightarrow> ffg_step sha256 v c' c'' \<Longrightarrow> ffg_run sha256 v c c''"

inductive_cases ffg_stepE: "ffg_step sha256 v c c'"

lemma update_keys_ok:
  assumes "committee_ok c" "i < length (seats c)" "seat_key s \<noteq> []"
    and "\<forall>j < length (seats c). j \<noteq> i \<longrightarrow> seat_key (seats c ! j) \<noteq> seat_key s"
  shows "committee_ok (c\<lparr> seats := (seats c)[i := s] \<rparr>)"
proof -
  have "distinct (map seat_key ((seats c)[i := s]))"
    using assms by (auto simp: committee_ok_def distinct_conv_nth nth_list_update)
  moreover have "[] \<notin> seat_key ` set ((seats c)[i := s])"
    using assms set_update_subset_insert [of "seats c" i s] by (auto simp: committee_ok_def)
  ultimately show ?thesis
    using assms(1) by (simp add: committee_ok_def)
qed

lemma ffg_step_ok:
  assumes "ffg_step sha256 v c c'" "committee_ok c"
  shows "committee_ok c'"
  using assms(1)
proof (rule ffg_stepE)
  fix i reason
  assume "open_vacancy c i reason = Inr c'"
  note o = open_vacancy_Inr [OF this]
  have "seat_key (seats c ! i) \<noteq> []"
    using o(1) assms(2) unfolding committee_ok_def by (metis image_eqI nth_mem)
  then show ?thesis
    unfolding o(2) using assms(2) o(1)
    by (intro update_keys_ok) (auto simp: committee_ok_def distinct_conv_nth)
next
  fix i candidate ctx approvals
  assume "fill_vacancy sha256 v c i candidate ctx approvals = Some (Inr c')"
  note f = fill_vacancy_Inr [OF this]
  show ?thesis
    unfolding f(7) using assms(2) f by (intro update_keys_ok) simp_all
qed

lemma ffg_step_nonce:
  assumes "ffg_step sha256 v c c'" "j < length (seats c)"
  shows "length (seats c') = length (seats c) \<and> replacements (seats c ! j) \<le> replacements (seats c' ! j)"
  using assms(1)
proof (rule ffg_stepE)
  fix i reason
  assume "open_vacancy c i reason = Inr c'"
  note o = open_vacancy_Inr [OF this]
  show ?thesis
    unfolding o(2) using assms(2) by (cases "i = j") simp_all
next
  fix i candidate ctx approvals
  assume "fill_vacancy sha256 v c i candidate ctx approvals = Some (Inr c')"
  note f = fill_vacancy_Inr [OF this]
  show ?thesis
    unfolding f(7) using assms(2) f(5) by (cases "i = j") simp_all
qed

lemma ffg_run_ok: "ffg_run sha256 v c c' \<Longrightarrow> committee_ok c \<Longrightarrow> committee_ok c'"
  by (induction rule: ffg_run.induct) (auto intro: ffg_step_ok)

lemma ffg_run_nonce:
  "ffg_run sha256 v c c' \<Longrightarrow> j < length (seats c) \<Longrightarrow>
   length (seats c') = length (seats c) \<and> replacements (seats c ! j) \<le> replacements (seats c' ! j)"
proof (induction rule: ffg_run.induct)
  case (more c c' c'')
  then show ?case
    using ffg_step_nonce [OF more.hyps(2), of j] by auto
qed simp

text \<open>A committee with fewer active seats than the quorum has lost its way back: no replacement is ever accepted again.\<close>

lemma count_signers_active: "count_signers v c msg sigs \<le> active_count c"
proof -
  have "signers v c msg sigs \<subseteq> {i. i < length (seats c) \<and> seat_active (seats c ! i)}"
    by (auto simp: signers_def)
  then have "card (signers v c msg sigs) \<le> card {i. i < length (seats c) \<and> seat_active (seats c ! i)}"
    by (intro card_mono) simp_all
  then show ?thesis
    by (simp add: count_signers_card active_count_def length_filter_conv_card)
qed

lemma ffg_no_recovery:
  assumes "ffg_run sha256 v c c'" "active_count c < FFG_QUORUM"
  shows "active_count c' < FFG_QUORUM \<and> \<not> has_quorum v c' msg sigs"
proof -
  have "active_count c' < FFG_QUORUM"
    using assms
  proof (induction rule: ffg_run.induct)
    case (more c c' c'')
    from more.hyps(2) show ?case
    proof (rule ffg_stepE)
      fix i reason
      assume "open_vacancy c' i reason = Inr c''"
      note o = open_vacancy_Inr [OF this]
      have "{j. j < length (seats c'') \<and> seat_active (seats c'' ! j)} \<subseteq> {j. j < length (seats c') \<and> seat_active (seats c' ! j)}"
        unfolding o(2) using o(1) by (auto simp: nth_list_update split: if_splits)
      then have "active_count c'' \<le> active_count c'"
        unfolding active_count_def length_filter_conv_card by (intro card_mono) simp_all
      then show ?thesis
        using more by linarith
    next
      fix i candidate ctx approvals
      assume "fill_vacancy sha256 v c' i candidate ctx approvals = Some (Inr c'')"
      then have "FFG_QUORUM \<le> active_count c'"
        using fill_vacancy_Inr(6) count_signers_active le_trans by blast
      then show ?thesis
        using more by linarith
    qed
  qed
  moreover have "\<not> has_quorum v c' msg sigs"
    using calculation by (simp add: has_quorum_def finality_available_def ffg_consts)
  ultimately show ?thesis
    by simp
qed

section \<open>Properties\<close>

text \<open>A concrete committee, a vacancy, and its replacement by fourteen approvals.\<close>

definition demo_committee :: "bool \<Rightarrow> byte \<Rightarrow> u64 \<Rightarrow> ffg_committee" where
  "demo_committee a k r = \<lparr> seats = \<lparr> seat_key = [k], seat_active = a, replacements = r \<rparr> #
     map (\<lambda>i. \<lparr> seat_key = [of_nat i], seat_active = True, replacements = 0 \<rparr>) [2..<22] \<rparr>"

definition demo_sigs :: "seat_sig list" where
  "demo_sigs = map (\<lambda>i. \<lparr> sig_seat = i, seat_sig_bytes = [] \<rparr>) [1..<21]"

definition demo_context :: "nat \<Rightarrow> msg_context" where
  "demo_context n = \<lparr> ctx_chain_id = 1, ctx_epoch = 1, ctx_nonce = n \<rparr>"

lemma demo_new: "committee_new ([1] # map (\<lambda>i. [of_nat i]) [2..<22]) = Inr (demo_committee True 1 0)"
  by code_simp

lemma demo_open: "open_vacancy (demo_committee True k r) 0 Resigned = Inr (demo_committee False k r)"
  by (simp add: open_vacancy_def demo_committee_def)

lemma demo_fill:
  "fill_vacancy (\<lambda>_. []) (\<lambda>_ _ _. True) (demo_committee False 1 0) 0 [99] (demo_context 0) demo_sigs = Some (Inr (demo_committee True 99 1))"
  by code_simp

lemma demo_finalized:
  "is_finalized (\<lambda>_. []) (\<lambda>_ _ _. True) (demo_committee True 1 0) \<lparr> cp_height = h, cp_block_hash = [] \<rparr> (demo_context 0) demo_sigs"
  unfolding is_finalized_def checkpoint_message_def by code_simp

text \<open>C23. A committee stays what its constructor checked and approvals are good once: in every state reached by accepted
  vacancies and replacements there are 21 seats with pairwise distinct, non-empty keys, and after an accepted replacement
  no replacement of that seat is ever accepted again with the same nonce.\<close>

theorem ffg_committee_run:
  assumes "committee_new pks = Inr c0" "ffg_run sha256 v c0 c"
  shows "length (seats c) = 21 \<and> distinct (map seat_key (seats c)) \<and> [] \<notin> seat_key ` set (seats c) \<and>
    (fill_vacancy sha256 v c i candidate ctx approvals = Some (Inr c1) \<and> ffg_run sha256 v c1 c2 \<and> ctx_nonce ctx' = ctx_nonce ctx \<longrightarrow>
      fill_vacancy sha256 v c2 i candidate' ctx' approvals' \<noteq> Some (Inr c3))"
proof -
  have "committee_ok c"
    using ffg_run_ok [OF assms(2)] committee_new_ok(1) [OF assms(1)] .
  moreover have "fill_vacancy sha256 v c2 i candidate' ctx' approvals' \<noteq> Some (Inr c3)"
    if "fill_vacancy sha256 v c i candidate ctx approvals = Some (Inr c1)" "ffg_run sha256 v c1 c2" "ctx_nonce ctx' = ctx_nonce ctx"
  proof
    assume again: "fill_vacancy sha256 v c2 i candidate' ctx' approvals' = Some (Inr c3)"
    note f = fill_vacancy_Inr [OF that(1)]
    have "i < length (seats c1)" "replacements (seats c1 ! i) = ctx_nonce ctx + 1"
      unfolding f(7) using f(1) by simp_all
    then have "ctx_nonce ctx + 1 \<le> replacements (seats c2 ! i)"
      using ffg_run_nonce [OF that(2), of i] by simp
    then show False
      using fill_vacancy_Inr(5) [OF again] that(3) by simp
  qed
  ultimately show ?thesis
    by (simp add: committee_ok_def ffg_consts)
qed

theorem ffg_committee_run_witness:
  "\<exists>c0 c c1 c2. committee_new ([1] # map (\<lambda>i. [of_nat i]) [2..<22]) = Inr c0 \<and> open_vacancy c0 0 Resigned = Inr c \<and>
    fill_vacancy (\<lambda>_. []) (\<lambda>_ _ _. True) c 0 [99] (demo_context 0) demo_sigs = Some (Inr c1) \<and>
    open_vacancy c1 0 Resigned = Inr c2 \<and> length (seats c) = 21 \<and>
    (\<forall>c3. fill_vacancy (\<lambda>_. []) (\<lambda>_ _ _. True) c2 0 [98] (demo_context 0) demo_sigs \<noteq> Some (Inr c3))"
proof -
  have run: "ffg_run (\<lambda>_. []) (\<lambda>_ _ _. True) (demo_committee True k r) (demo_committee False k r)" for k r
    by (rule ffg_run.more [OF ffg_run.start]) (rule ffg_step.opened [OF demo_open])
  show ?thesis
    using ffg_committee_run [OF demo_new run, of 0 "[99]" "demo_context 0" demo_sigs "demo_committee True 99 1"
        "demo_committee False 99 1" "demo_context 0" "[98]" demo_sigs]
      demo_new demo_open demo_fill run [of 99 1] by blast
qed

text \<open>C27. Two finalizations share a third of the committee: whenever two checkpoints are finalized by a well-formed
  committee, at least seven different keys have valid signatures of active seats over both messages.\<close>

theorem ffg_finalized_overlap:
  assumes "committee_ok c" "is_finalized sha256 v c cp ctx sigs" "is_finalized sha256 v c cp' ctx' sigs'"
  shows "7 \<le> card ((\<lambda>i. seat_key (seats c ! i)) `
    (signers v c (checkpoint_message sha256 cp ctx) sigs \<inter> signers v c (checkpoint_message sha256 cp' ctx') sigs'))"
proof -
  let ?A = "signers v c (checkpoint_message sha256 cp ctx) sigs" and ?B = "signers v c (checkpoint_message sha256 cp' ctx') sigs'"
  have sub: "?A \<subseteq> {..<FFG_COMMITTEE_SIZE}" "?B \<subseteq> {..<FFG_COMMITTEE_SIZE}"
    using signers_bound by blast+
  have "FFG_QUORUM \<le> card ?A" "FFG_QUORUM \<le> card ?B"
    using assms(2,3) by (simp_all add: is_finalized_def has_quorum_def count_signers_card)
  then have "7 \<le> card (?A \<inter> ?B)"
    using committee21.overlap_weight [OF sub] by (simp add: ffg_consts)
  moreover have "inj_on (\<lambda>i. seat_key (seats c ! i)) (?A \<inter> ?B)"
    using assms(1) by (auto simp: inj_on_def committee_ok_def distinct_conv_nth dest: signers_bound)
  ultimately show ?thesis
    by (simp add: card_image)
qed

theorem ffg_finalized_overlap_witness:
  "7 \<le> card ((\<lambda>i. seat_key (seats (demo_committee True 1 0) ! i)) `
    (signers (\<lambda>_ _ _. True) (demo_committee True 1 0) (checkpoint_message (\<lambda>_. []) \<lparr> cp_height = 1, cp_block_hash = [] \<rparr> (demo_context 0)) demo_sigs
     \<inter> signers (\<lambda>_ _ _. True) (demo_committee True 1 0) (checkpoint_message (\<lambda>_. []) \<lparr> cp_height = 2, cp_block_hash = [] \<rparr> (demo_context 0)) demo_sigs))"
  by (rule ffg_finalized_overlap [OF committee_new_ok(1) [OF demo_new] demo_finalized demo_finalized])

end
