(* ===== verification/Slash_Protection.thy ===== *)
theory Slash_Protection
  imports Header
begin

text \<open>
  The validator's slashing protection (\<^verbatim>\<open>bloch-pos-node/src/slashprot.rs\<close>): the watermarks of what
  a key has signed, their record on disk, and the guards that make the record durable before a
  signature is released.

  The digest of a record, SHAKE-256, is the parameter \<open>dig\<close>.  What the file system does with
  a write is the parameter \<open>write_outcome\<close> of the operation: \<open>atomic_private_write\<close> leaves the old
  or the new content, and it has left the new one when it reports success.  Paths, the locks and the
  failure of a read are not part of the model, and an error of the operating system carries no text.
  The code reads at most one byte more than the longest record; a longer file does not decode either way.
\<close>

section \<open>Data\<close>

record watermarks =
  proposal_slot :: "u64 option"
  attestation_slot :: "u64 option"
  wm_source :: "u64 option"
  wm_target :: "u64 option"

abbreviation no_watermarks :: watermarks where
  "no_watermarks \<equiv> \<lparr> proposal_slot = None, attestation_slot = None, wm_source = None, wm_target = None \<rparr>"

record recommit_intent =
  ri_epoch :: u64
  ri_generation :: u32
  ri_commitment :: hash32
  ri_signing_root :: hash32

record recommit_protection =
  epoch_floor :: "u64 option"
  intent :: "recommit_intent option"

datatype refusal = RefusedProposal u64 u64 | RefusedSlot u64 u64 | RefusedDoubleVote u64 u64 | RefusedSurround u64 u64
  | RefusedRecommit u64 u32 | RefusedIo

record sp_binding =
  validator_pubkey_sha3 :: hash32
  genesis_digest :: hash32

text \<open>The anchor is attached or it is not; the two copies of the record are on the disk.\<close>

record protection =
  sp_wm :: watermarks
  sp_bound :: "sp_binding option"
  sp_recommit :: "recommit_protection option"
  sp_mirror :: bool

record disk =
  data_file :: "bytes option"
  anchor_file :: "bytes option"

datatype write_outcome = Written | FailedOld | FailedNew

section \<open>The record on disk\<close>

definition record_header :: "nat \<Rightarrow> bytes" where
  "record_header n = ascii ''BPOSSLP'' @ [of_nat (48 + n)] @ le_bytes 4 n"

definition record_len :: "nat \<Rightarrow> usize" where
  "record_len n = (if n = 1 then 76 else if n = 2 then 140 else 224)"

definition NONE_MARK :: u64 where
  "NONE_MARK = u64_max"

definition mark_bytes :: "u64 option \<Rightarrow> bytes" where
  "mark_bytes m = le_bytes 8 (case m of None \<Rightarrow> NONE_MARK | Some v \<Rightarrow> v)"

definition encode_record :: "digest \<Rightarrow> watermarks \<Rightarrow> sp_binding option \<Rightarrow> bytes" where
  "encode_record dig wm b = (
     let out = record_header (case b of None \<Rightarrow> 1 | Some _ \<Rightarrow> 2)
           @ mark_bytes (proposal_slot wm) @ mark_bytes (attestation_slot wm) @ mark_bytes (wm_source wm) @ mark_bytes (wm_target wm)
           @ (case b of None \<Rightarrow> [] | Some b \<Rightarrow> validator_pubkey_sha3 b @ genesis_digest b)
     in out @ dig out)"

definition encode_v3 :: "digest \<Rightarrow> watermarks \<Rightarrow> sp_binding \<Rightarrow> recommit_protection \<Rightarrow> bytes" where
  "encode_v3 dig wm b p = (
     let body = take 108 (encode_record dig wm (Some b));
         i = (case intent p of None \<Rightarrow> \<lparr> ri_epoch = NONE_MARK, ri_generation = 0, ri_commitment = replicate 32 0, ri_signing_root = replicate 32 0 \<rparr>
              | Some i \<Rightarrow> i);
         out = record_header 3 @ drop 12 body @ mark_bytes (epoch_floor p)
           @ le_bytes 8 (ri_epoch i) @ le_bytes 4 (ri_generation i) @ ri_commitment i @ ri_signing_root i
     in out @ dig out)"

definition read_mark :: "bytes \<Rightarrow> u64 option" where
  "read_mark w = (let v = le_value w in if v \<noteq> NONE_MARK then Some v else None)"

definition read_recommit :: "bytes \<Rightarrow> recommit_protection option option" where
  "read_recommit bs =
     (if length bs = record_len 3 then
        let e = le_value (byte_slice 116 124 bs); g = le_value (byte_slice 124 128 bs);
            c = byte_slice 128 160 bs; r = byte_slice 160 192 bs;
            p = \<lambda>i. Some (Some \<lparr> epoch_floor = read_mark (byte_slice 108 116 bs), intent = i \<rparr>)
        in if e = NONE_MARK then (if g \<noteq> 0 \<or> c \<noteq> replicate 32 0 \<or> r \<noteq> replicate 32 0 then None else p None)
           else if g = 0 then None
           else p (Some \<lparr> ri_epoch = e, ri_generation = g, ri_commitment = c, ri_signing_root = r \<rparr>)
      else Some None)"

definition decode_record :: "digest \<Rightarrow> bytes \<Rightarrow> (watermarks \<times> sp_binding option \<times> recommit_protection option) option" where
  "decode_record dig bs = do {
     (body_len, bound) \<leftarrow>
       (if length bs = record_len 1 \<and> take 12 bs = record_header 1 then Some (record_len 1 - 32, False)
        else if length bs = record_len 2 \<and> take 12 bs = record_header 2 then Some (record_len 2 - 32, True)
        else if length bs = record_len 3 \<and> take 12 bs = record_header 3 then Some (record_len 3 - 32, True)
        else None);
     if drop body_len bs \<noteq> dig (take body_len bs) then None
     else do {
       let field = (\<lambda>i. read_mark (byte_slice (12 + 8 * i) (20 + 8 * i) bs));
       let wm = \<lparr> proposal_slot = field 0, attestation_slot = field 1, wm_source = field 2, wm_target = field 3 \<rparr>;
       let b = (if bound then Some \<lparr> validator_pubkey_sha3 = byte_slice 44 76 bs, genesis_digest = byte_slice 76 108 bs \<rparr> else None);
       recommit \<leftarrow> read_recommit bs;
       Some (wm, b, recommit)
     }
   }"

section \<open>Merging\<close>

text \<open>\<open>Option::max\<close>: nothing is below every value.\<close>

fun max_mark :: "u64 option \<Rightarrow> u64 option \<Rightarrow> u64 option" where
  "max_mark None b = b"
| "max_mark a None = a"
| "max_mark (Some a) (Some b) = Some (max a b)"

definition max_marks :: "watermarks \<Rightarrow> watermarks \<Rightarrow> watermarks" where
  "max_marks a b = \<lparr> proposal_slot = max_mark (proposal_slot a) (proposal_slot b),
     attestation_slot = max_mark (attestation_slot a) (attestation_slot b),
     wm_source = max_mark (wm_source a) (wm_source b), wm_target = max_mark (wm_target a) (wm_target b) \<rparr>"

definition merge_recommit :: "recommit_protection option \<Rightarrow> recommit_protection option
    \<Rightarrow> recommit_protection option option" where
  "merge_recommit left right = (case (left, right) of
     (Some l, Some r) \<Rightarrow>
       map_option (\<lambda>i. Some \<lparr> epoch_floor = max_mark (epoch_floor l) (epoch_floor r), intent = i \<rparr>)
       (case (intent l, intent r) of
          (Some a, Some b) \<Rightarrow>
            if (ri_epoch a = ri_epoch b \<and> a \<noteq> b) \<or>
               (ri_generation a = ri_generation b \<and> ri_commitment a \<noteq> ri_commitment b) \<or>
               (ri_epoch a < ri_epoch b \<and> ri_generation a > ri_generation b) \<or>
               (ri_epoch b < ri_epoch a \<and> ri_generation b > ri_generation a) then None
            else Some (Some (if ri_epoch a \<ge> ri_epoch b then a else b))
        | (None, b) \<Rightarrow> Some b
        | (a, None) \<Rightarrow> Some a)
   | (None, r) \<Rightarrow> Some r
   | (l, None) \<Rightarrow> Some l)"

section \<open>Opening, writing, signing\<close>

definition open_with :: "digest \<Rightarrow> disk \<Rightarrow> sp_binding option \<Rightarrow> protection option" where
  "open_with dig d want = do {
     (wm, on_disk, recommit) \<leftarrow> (case data_file d of None \<Rightarrow> Some (no_watermarks, None, None) | Some bs \<Rightarrow> decode_record dig bs);
     bound \<leftarrow> (case (on_disk, want) of
        (Some file, Some mine) \<Rightarrow> if file \<noteq> mine then None else Some (Some file)
      | (Some file, None) \<Rightarrow> Some (Some file)
      | (None, w) \<Rightarrow> Some w);
     Some \<lparr> sp_wm = wm, sp_bound = bound, sp_recommit = recommit, sp_mirror = False \<rparr>
   }"

fun atomic_write :: "write_outcome \<Rightarrow> bytes \<Rightarrow> bytes option \<Rightarrow> bool \<times> bytes option" where
  "atomic_write Written bs old = (True, Some bs)"
| "atomic_write FailedOld bs old = (False, old)"
| "atomic_write FailedNew bs old = (False, Some bs)"

text \<open>Whether the write succeeded, and the disk after it.\<close>

definition encoded :: "digest \<Rightarrow> watermarks \<Rightarrow> sp_binding option \<Rightarrow> recommit_protection option \<Rightarrow> bytes option" where
  "encoded dig wm b recommit = (case recommit of
     Some p \<Rightarrow> map_option (\<lambda>b. encode_v3 dig wm b p) b
   | None \<Rightarrow> Some (encode_record dig wm b))"

definition write_record :: "digest \<Rightarrow> write_outcome \<times> write_outcome \<Rightarrow> protection \<Rightarrow> watermarks \<Rightarrow> recommit_protection option
    \<Rightarrow> disk \<Rightarrow> bool \<times> disk" where
  "write_record dig io sp next recommit d = (case encoded dig next (sp_bound sp) recommit of
     None \<Rightarrow> (False, d)
   | Some bs \<Rightarrow> (case atomic_write (fst io) bs (data_file d) of
       (False, f) \<Rightarrow> (False, d\<lparr> data_file := f \<rparr>)
     | (True, f) \<Rightarrow>
         if sp_mirror sp then (case atomic_write (snd io) bs (anchor_file d) of (ok, g) \<Rightarrow> (ok, d\<lparr> data_file := f, anchor_file := g \<rparr>))
         else (True, d\<lparr> data_file := f \<rparr>)))"

definition commit_marks :: "digest \<Rightarrow> write_outcome \<times> write_outcome \<Rightarrow> protection \<Rightarrow> watermarks \<Rightarrow> disk
    \<Rightarrow> refusal option \<times> protection \<times> disk" where
  "commit_marks dig io sp next d = (case write_record dig io sp next (sp_recommit sp) d of
     (False, d') \<Rightarrow> (Some RefusedIo, sp, d')
   | (True, d') \<Rightarrow> (None, sp\<lparr> sp_wm := next \<rparr>, d'))"

text \<open>A guard returns the refusal, or nothing, and then the closure signs.\<close>

text \<open>\<open>if let Some(w) = mark { if p(w) .. }\<close>\<close>

definition mark_hit :: "(u64 \<Rightarrow> bool) \<Rightarrow> u64 option \<Rightarrow> u64 option" where
  "mark_hit p m = (case m of None \<Rightarrow> None | Some w \<Rightarrow> if p w then Some w else None)"

definition guard_proposal :: "digest \<Rightarrow> write_outcome \<times> write_outcome \<Rightarrow> protection \<Rightarrow> u64 \<Rightarrow> disk
    \<Rightarrow> refusal option \<times> protection \<times> disk" where
  "guard_proposal dig io sp sl d = (case mark_hit (\<lambda>w. sl \<le> w) (proposal_slot (sp_wm sp)) of
     Some w \<Rightarrow> (Some (RefusedProposal sl w), sp, d)
   | None \<Rightarrow> commit_marks dig io sp ((sp_wm sp)\<lparr> proposal_slot := Some sl \<rparr>) d)"

definition guard_attestation :: "digest \<Rightarrow> write_outcome \<times> write_outcome \<Rightarrow> protection \<Rightarrow> u64 \<Rightarrow> u64 \<Rightarrow> u64 \<Rightarrow> disk
    \<Rightarrow> refusal option \<times> protection \<times> disk" where
  "guard_attestation dig io sp sl se te d = (case mark_hit (\<lambda>w. sl \<le> w) (attestation_slot (sp_wm sp)) of
     Some w \<Rightarrow> (Some (RefusedSlot sl w), sp, d)
   | None \<Rightarrow> (case mark_hit (\<lambda>w. te \<le> w) (wm_target (sp_wm sp)) of
       Some w \<Rightarrow> (Some (RefusedDoubleVote te w), sp, d)
     | None \<Rightarrow> (case mark_hit (\<lambda>w. se < w) (wm_source (sp_wm sp)) of
         Some w \<Rightarrow> (Some (RefusedSurround se w), sp, d)
       | None \<Rightarrow> commit_marks dig io sp
           ((sp_wm sp)\<lparr> attestation_slot := Some sl, wm_source := Some se, wm_target := Some te \<rparr>) d)))"

definition guard_recommit :: "digest \<Rightarrow> write_outcome \<times> write_outcome \<Rightarrow> protection \<Rightarrow> recommit_intent \<Rightarrow> disk
    \<Rightarrow> refusal option \<times> protection \<times> disk" where
  "guard_recommit dig io sp i d = (
     let refused = (Some (RefusedRecommit (ri_epoch i) (ri_generation i)), sp, d);
         next = (case sp_recommit sp of None \<Rightarrow> \<lparr> epoch_floor = None, intent = None \<rparr> | Some p \<Rightarrow> p)
     in if sp_bound sp = None then refused
        else if ri_epoch i = u64_max \<or> ri_generation i = 0 then refused
        else if (case epoch_floor next of None \<Rightarrow> False | Some f \<Rightarrow> ri_epoch i \<le> f) then refused
        else if (case intent next of None \<Rightarrow> False | Some p \<Rightarrow>
            ri_epoch i < ri_epoch p \<or> ri_generation i < ri_generation p \<or>
            ri_epoch i = ri_epoch p \<and> ri_signing_root i \<noteq> ri_signing_root p \<or>
            ri_generation i = ri_generation p \<and> ri_commitment i \<noteq> ri_commitment p \<or>
            ri_epoch i = ri_epoch p \<and> ri_generation i \<noteq> ri_generation p) then refused
        else case write_record dig io sp (sp_wm sp) (Some (next\<lparr> intent := Some i \<rparr>)) d of
          (False, d') \<Rightarrow> (Some RefusedIo, sp, d')
        | (True, d') \<Rightarrow> (None, sp\<lparr> sp_recommit := Some (next\<lparr> intent := Some i \<rparr>) \<rparr>, d'))"

section \<open>Signatures seen on the network and the host anchor\<close>

datatype published = PublishedProposal u64 | PublishedAttestation u64 u64 u64

fun is_uncovered :: "protection \<Rightarrow> published \<Rightarrow> bool" where
  "is_uncovered sp (PublishedProposal sl) = (mark_hit (\<lambda>w. sl \<le> w) (proposal_slot (sp_wm sp)) = None)"
| "is_uncovered sp (PublishedAttestation sl se te) =
     (mark_hit (\<lambda>w. sl \<le> w) (attestation_slot (sp_wm sp)) = None \<or> mark_hit (\<lambda>w. te \<le> w) (wm_target (sp_wm sp)) = None)"

definition raise_to_published :: "digest \<Rightarrow> write_outcome \<times> write_outcome \<Rightarrow> protection \<Rightarrow> published \<Rightarrow> disk
    \<Rightarrow> bool \<times> protection \<times> disk" where
  "raise_to_published dig io sp seen d = (
     let incoming = (case seen of
           PublishedProposal sl \<Rightarrow> no_watermarks\<lparr> proposal_slot := Some sl \<rparr>
         | PublishedAttestation sl se te \<Rightarrow>
             no_watermarks\<lparr> attestation_slot := Some sl, wm_source := Some se, wm_target := Some te \<rparr>);
         next = max_marks (sp_wm sp) incoming
     in if next \<noteq> sp_wm sp then (case write_record dig io sp next (sp_recommit sp) d of
          (False, d') \<Rightarrow> (False, sp, d')
        | (True, d') \<Rightarrow> (True, sp\<lparr> sp_wm := next \<rparr>, d'))
        else (True, sp, d))"

datatype anchor_check = Adopted | InSync | AnchorRaised | DataDirRolledForward

text \<open>The two writes of an attachment are the data directory's record, raised when it is behind, and the copy of
  the record to both places; a result \<^term>\<open>None\<close> is a refusal to boot.\<close>

definition attach_anchor_path :: "digest \<Rightarrow> (write_outcome \<times> write_outcome) \<times> (write_outcome \<times> write_outcome) \<Rightarrow> protection
    \<Rightarrow> bool \<Rightarrow> disk \<Rightarrow> (anchor_check \<times> protection) option \<times> disk" where
  "attach_anchor_path dig io sp accept_rollback d = (case sp_bound sp of
     None \<Rightarrow> (None, d)
   | Some b \<Rightarrow> (case anchor_file d of
       None \<Rightarrow> (case encoded dig (sp_wm sp) (sp_bound sp) (sp_recommit sp) of
         None \<Rightarrow> (None, d)
       | Some bs \<Rightarrow> (case atomic_write (fst (fst io)) bs None of
           (False, g) \<Rightarrow> (None, d\<lparr> anchor_file := g \<rparr>)
         | (True, g) \<Rightarrow> (Some (Adopted, sp\<lparr> sp_mirror := True \<rparr>), d\<lparr> anchor_file := g \<rparr>)))
     | Some bs \<Rightarrow> (case decode_record dig bs of
         None \<Rightarrow> (None, d)
       | Some (wm, ab, rc) \<Rightarrow>
           if ab \<noteq> Some b then (None, d)
           else case merge_recommit (sp_recommit sp) rc of
             None \<Rightarrow> (None, d)
           | Some recommit \<Rightarrow>
               let merged = max_marks (sp_wm sp) wm;
                   data_behind = (merged \<noteq> sp_wm sp \<or> recommit \<noteq> sp_recommit sp);
                   anchor_behind = (merged \<noteq> wm \<or> recommit \<noteq> rc)
               in if data_behind \<and> \<not> accept_rollback then (None, d)
                  else (case (if data_behind then write_record dig (fst io) sp merged recommit d else (True, d)) of
                    (False, d') \<Rightarrow> (None, d')
                  | (True, d') \<Rightarrow>
                      let sp' = sp\<lparr> sp_wm := merged, sp_recommit := recommit, sp_mirror := True \<rparr>
                      in (case (if anchor_behind then write_record dig (snd io) sp' merged recommit d' else (True, d')) of
                        (False, d'') \<Rightarrow> (None, d'')
                      | (True, d'') \<Rightarrow> (Some (if data_behind then DataDirRolledForward
                          else if anchor_behind then AnchorRaised else InSync, sp'), d''))))))"

section \<open>Recovery while the validator is stopped\<close>

text \<open>The record opened for a merge has no anchor, so only the data directory is written.\<close>

definition merge_bound :: "digest \<Rightarrow> write_outcome \<Rightarrow> sp_binding \<Rightarrow> watermarks \<Rightarrow> recommit_protection option \<Rightarrow> disk
    \<Rightarrow> watermarks option \<times> disk" where
  "merge_bound dig io b incoming rc d = (case open_with dig d (Some b) of
     None \<Rightarrow> (None, d)
   | Some sp \<Rightarrow>
       let merged = max_marks (sp_wm sp) incoming
       in (case merge_recommit (sp_recommit sp) rc of
         None \<Rightarrow> (None, d)
       | Some recommit \<Rightarrow> (case write_record dig (io, Written) sp merged recommit d of
           (False, d') \<Rightarrow> (None, d')
         | (True, d') \<Rightarrow> (Some merged, d'))))"

definition import_bound :: "digest \<Rightarrow> write_outcome \<Rightarrow> sp_binding \<Rightarrow> bytes \<Rightarrow> disk \<Rightarrow> watermarks option \<times> disk" where
  "import_bound dig io b bs d = (case decode_record dig bs of
     None \<Rightarrow> (None, d)
   | Some (incoming, actual, rc) \<Rightarrow> if actual \<noteq> Some b then (None, d) else merge_bound dig io b incoming rc d)"

definition initialize_floor :: "digest \<Rightarrow> write_outcome \<Rightarrow> sp_binding \<Rightarrow> u64 \<Rightarrow> disk \<Rightarrow> watermarks option \<times> disk" where
  "initialize_floor dig io b min_slot d =
     (if min_slot = 0 \<or> min_slot = u64_max then (None, d)
      else
        let sl = min_slot - 1; e = sl div SLOTS_PER_EPOCH
        in merge_bound dig io b
             \<lparr> proposal_slot = Some sl, attestation_slot = Some sl, wm_source = Some e, wm_target = Some e \<rparr>
             (Some \<lparr> epoch_floor = Some e, intent = None \<rparr>) d)"

definition export_bound :: "digest \<Rightarrow> sp_binding \<Rightarrow> disk \<Rightarrow> bytes option" where
  "export_bound dig b d = do {
     bs \<leftarrow> data_file d;
     (_, actual, _) \<leftarrow> decode_record dig bs;
     if actual \<noteq> Some b then None else Some bs
   }"

definition merge_records :: "digest \<Rightarrow> sp_binding \<Rightarrow> bytes \<Rightarrow> bytes \<Rightarrow> bytes option" where
  "merge_records dig b left right = do {
     (lw, lb, lr) \<leftarrow> decode_record dig left;
     (rw, rb, rr) \<leftarrow> decode_record dig right;
     if lb \<noteq> Some b \<or> rb \<noteq> Some b then None
     else do {
       rc \<leftarrow> merge_recommit lr rr;
       Some (case rc of Some p \<Rightarrow> encode_v3 dig (max_marks lw rw) b p | None \<Rightarrow> encode_record dig (max_marks lw rw) (Some b))
     }
   }"

section \<open>The record is read back\<close>

fun mark_ok :: "u64 option \<Rightarrow> bool" where
  "mark_ok None = True"
| "mark_ok (Some v) = (v < u64_max)"

definition marks_ok :: "watermarks \<Rightarrow> bool" where
  "marks_ok wm \<longleftrightarrow> mark_ok (proposal_slot wm) \<and> mark_ok (attestation_slot wm) \<and> mark_ok (wm_source wm) \<and> mark_ok (wm_target wm)"

definition binding_ok :: "sp_binding \<Rightarrow> bool" where
  "binding_ok b \<longleftrightarrow> length (validator_pubkey_sha3 b) = 32 \<and> length (genesis_digest b) = 32"

definition intent_ok :: "recommit_intent \<Rightarrow> bool" where
  "intent_ok i \<longleftrightarrow> ri_epoch i < u64_max \<and> 0 < ri_generation i \<and> ri_generation i \<le> u32_max \<and>
     length (ri_commitment i) = 32 \<and> length (ri_signing_root i) = 32"

definition recommit_ok :: "recommit_protection \<Rightarrow> bool" where
  "recommit_ok p \<longleftrightarrow> mark_ok (epoch_floor p) \<and> pred_option intent_ok (intent p)"

lemma length_mark_bytes [simp]: "length (mark_bytes m) = 8"
  by (simp add: mark_bytes_def)

lemma length_record_header [simp]: "length (record_header n) = 12"
  by (simp add: record_header_def ascii_def)

lemma read_mark_bytes: "mark_ok m \<Longrightarrow> read_mark (mark_bytes m) = m"
  by (cases m) (simp_all add: read_mark_def mark_bytes_def NONE_MARK_def le_bytes_roundtrip u64_max_def Let_def)

lemma decode_encode:
  assumes "digest32 dig" "marks_ok wm" "pred_option binding_ok b"
  shows "decode_record dig (encode_record dig wm b) = Some (wm, b, None)"
proof (cases b)
  case None
  then show ?thesis
    using assms by (simp add: decode_record_def encode_record_def Let_def record_len_def digest32_def marks_ok_def
        read_mark_bytes read_recommit_def byte_slice_def)
next
  case (Some c)
  then show ?thesis
    using assms by (simp add: decode_record_def encode_record_def Let_def record_len_def digest32_def marks_ok_def
        read_mark_bytes read_recommit_def byte_slice_def binding_ok_def)
qed

lemma decode_encode_v3:
  assumes "digest32 dig" "marks_ok wm" "binding_ok b" "recommit_ok p"
  shows "decode_record dig (encode_v3 dig wm b p) = Some (wm, Some b, Some p)"
proof (cases "intent p")
  case None
  then show ?thesis
    using assms by (simp add: decode_record_def encode_v3_def encode_record_def Let_def record_len_def digest32_def marks_ok_def
        read_mark_bytes read_recommit_def byte_slice_def binding_ok_def recommit_ok_def le_bytes_roundtrip NONE_MARK_def u64_max_def)
next
  case (Some i)
  then show ?thesis
    using assms by (simp add: decode_record_def encode_v3_def encode_record_def Let_def record_len_def digest32_def marks_ok_def
        read_mark_bytes read_recommit_def byte_slice_def binding_ok_def recommit_ok_def intent_ok_def le_bytes_roundtrip NONE_MARK_def u64_max_def u32_max_def)
qed

definition sp_ok :: "protection \<Rightarrow> bool" where
  "sp_ok sp \<longleftrightarrow> marks_ok (sp_wm sp) \<and> pred_option binding_ok (sp_bound sp) \<and> pred_option recommit_ok (sp_recommit sp)"

lemma read_mark_ok: "length w = 8 \<Longrightarrow> mark_ok (read_mark w)"
  using le_value_bound [of w] by (auto simp: read_mark_def NONE_MARK_def u64_max_def Let_def)

lemma read_recommit_ok:
  assumes "read_recommit bs = Some r"
  shows "pred_option recommit_ok r"
proof (cases "length bs = record_len 3")
  case True
  have "length (byte_slice i (i + n) bs) = n" if "i + n \<le> 224" for i n
    using that True by (simp add: byte_slice_def record_len_def)
  from this [of 108 8] this [of 116 8] this [of 124 4] this [of 128 32] this [of 160 32]
  have len: "length (byte_slice 108 116 bs) = 8" "length (byte_slice 116 124 bs) = 8" "length (byte_slice 124 128 bs) = 4"
    "length (byte_slice 128 160 bs) = 32" "length (byte_slice 160 192 bs) = 32"
    by simp_all
  show ?thesis
    using assms True len read_mark_ok [OF len(1)] le_value_bound [of "byte_slice 116 124 bs"] le_value_bound [of "byte_slice 124 128 bs"]
    by (auto simp: read_recommit_def recommit_ok_def intent_ok_def Let_def NONE_MARK_def u64_max_def u32_max_def split: if_splits)
qed (use assms in \<open>simp add: read_recommit_def\<close>)

lemma decode_ok:
  assumes "decode_record dig bs = Some (wm, b, r)"
  shows "marks_ok wm" "pred_option binding_ok b" "pred_option recommit_ok r"
proof -
  obtain body bound where shape: "length bs = 76 \<and> \<not> bound \<or> 140 \<le> length bs"
    and wm: "wm = \<lparr> proposal_slot = read_mark (byte_slice 12 20 bs), attestation_slot = read_mark (byte_slice 20 28 bs),
      wm_source = read_mark (byte_slice 28 36 bs), wm_target = read_mark (byte_slice 36 44 bs) \<rparr>"
    and b: "b = (if bound then Some \<lparr> validator_pubkey_sha3 = byte_slice 44 76 bs, genesis_digest = byte_slice 76 108 bs \<rparr> else None)"
    and r: "read_recommit bs = Some r"
    using assms by (auto simp: decode_record_def Let_def record_len_def split: if_splits bind_splits)
  have len: "length (byte_slice i (i + 8) bs) = 8" if "i \<le> 36" for i
    using that shape by (auto simp: byte_slice_def)
  show "marks_ok wm"
    using len [of 12] len [of 20] len [of 28] len [of 36] by (simp add: wm marks_ok_def read_mark_ok)
  show "pred_option binding_ok b"
    using shape by (auto simp: b binding_ok_def byte_slice_def)
  show "pred_option recommit_ok r"
    using r by (rule read_recommit_ok)
qed

definition is_record :: "digest \<Rightarrow> bytes option \<Rightarrow> watermarks \<Rightarrow> bool" where
  "is_record dig f wm \<longleftrightarrow> (\<exists>bs b r. f = Some bs \<and> decode_record dig bs = Some (wm, b, r))"

lemma encoded_is_record:
  assumes "digest32 dig" "marks_ok wm" "pred_option binding_ok b" "pred_option recommit_ok r" "encoded dig wm b r = Some bs"
  shows "is_record dig (Some bs) wm"
proof (cases r)
  case None
  then show ?thesis
    using decode_encode [OF assms(1-3)] assms(5) by (auto simp: encoded_def is_record_def)
next
  case (Some p)
  then show ?thesis
    using decode_encode_v3 [OF assms(1,2)] assms(3-5) by (auto simp: encoded_def is_record_def)
qed

text \<open>A write leaves the old or the new record, and the new one, in both places, when it succeeds.\<close>

lemma write_record_effect:
  assumes "digest32 dig" "sp_ok sp" "marks_ok next" "pred_option recommit_ok r" "write_record dig io sp next r d = (ok, d')"
  shows "ok \<longrightarrow> is_record dig (data_file d') next \<and> (sp_mirror sp \<longrightarrow> is_record dig (anchor_file d') next)"
    and "data_file d' = data_file d \<or> is_record dig (data_file d') next"
    and "anchor_file d' = anchor_file d \<or> sp_mirror sp \<and> is_record dig (anchor_file d') next"
proof -
  have new: "is_record dig (Some bs) next" if "encoded dig next (sp_bound sp) r = Some bs" for bs
    using assms(2) by (intro encoded_is_record [OF assms(1,3) _ assms(4) that]) (simp add: sp_ok_def)
  obtain o1 o2 where io: "io = (o1, o2)"
    by (cases io)
  show "ok \<longrightarrow> is_record dig (data_file d') next \<and> (sp_mirror sp \<longrightarrow> is_record dig (anchor_file d') next)"
    "data_file d' = data_file d \<or> is_record dig (data_file d') next"
    "anchor_file d' = anchor_file d \<or> sp_mirror sp \<and> is_record dig (anchor_file d') next"
    using assms(5) new unfolding write_record_def io
    by (cases o1; cases o2; auto split: option.splits if_splits)+
qed

section \<open>The life of a signer\<close>

text \<open>A signer is its disk, the record in memory while the process runs, and the votes and blocks it has released,
  oldest first.\<close>

record signer =
  sg_disk :: disk
  sg_mem :: "protection option"
  sg_votes :: "attestation_data list"
  sg_blocks :: "block_header list"

text \<open>Boots, duties, I/O failures, crashes and recoveries in any order.  With \<open>anch\<close> the node signs only with the host anchor
  attached, and then the data directory may be replaced by anything between two boots.\<close>

inductive guarded_run :: "digest \<Rightarrow> sp_binding \<Rightarrow> bool \<Rightarrow> signer \<Rightarrow> bool" for dig b anch where
  fresh: "guarded_run dig b anch \<lparr> sg_disk = \<lparr> data_file = None, anchor_file = None \<rparr>, sg_mem = None, sg_votes = [], sg_blocks = [] \<rparr>"
| boot: "guarded_run dig b anch S \<Longrightarrow> open_with dig (sg_disk S) (Some b) = Some sp \<Longrightarrow> guarded_run dig b anch (S\<lparr> sg_mem := Some sp \<rparr>)"
| attach: "guarded_run dig b anch S \<Longrightarrow> sg_mem S = Some sp \<Longrightarrow> attach_anchor_path dig ios sp accept (sg_disk S) = (r, d) \<Longrightarrow>
    guarded_run dig b anch (S\<lparr> sg_disk := d, sg_mem := map_option snd r \<rparr>)"
| vote: "guarded_run dig b anch S \<Longrightarrow> sg_mem S = Some sp \<Longrightarrow> (anch \<longrightarrow> sp_mirror sp) \<Longrightarrow>
    slot v < u64_max \<Longrightarrow> source_epoch v < u64_max \<Longrightarrow> target_epoch v < u64_max \<Longrightarrow>
    guard_attestation dig io sp (slot v) (source_epoch v) (target_epoch v) (sg_disk S) = (r, sp', d) \<Longrightarrow>
    guarded_run dig b anch (S\<lparr> sg_disk := d, sg_mem := Some sp', sg_votes := sg_votes S @ (if r = None then [v] else []) \<rparr>)"
| propose: "guarded_run dig b anch S \<Longrightarrow> sg_mem S = Some sp \<Longrightarrow> (anch \<longrightarrow> sp_mirror sp) \<Longrightarrow> block_slot h < u64_max \<Longrightarrow>
    guard_proposal dig io sp (block_slot h) (sg_disk S) = (r, sp', d) \<Longrightarrow>
    guarded_run dig b anch (S\<lparr> sg_disk := d, sg_mem := Some sp', sg_blocks := sg_blocks S @ (if r = None then [h] else []) \<rparr>)"
| recommit: "guarded_run dig b anch S \<Longrightarrow> sg_mem S = Some sp \<Longrightarrow> intent_ok i \<Longrightarrow>
    guard_recommit dig io sp i (sg_disk S) = (r, sp', d) \<Longrightarrow> guarded_run dig b anch (S\<lparr> sg_disk := d, sg_mem := Some sp' \<rparr>)"
| published: "guarded_run dig b anch S \<Longrightarrow> sg_mem S = Some sp \<Longrightarrow>
    (case seen of PublishedProposal sl \<Rightarrow> sl < u64_max
       | PublishedAttestation sl se te \<Rightarrow> sl < u64_max \<and> se < u64_max \<and> te < u64_max) \<Longrightarrow>
    raise_to_published dig io sp seen (sg_disk S) = (ok, sp', d) \<Longrightarrow> guarded_run dig b anch (S\<lparr> sg_disk := d, sg_mem := Some sp' \<rparr>)"
| crash: "guarded_run dig b anch S \<Longrightarrow> guarded_run dig b anch (S\<lparr> sg_mem := None \<rparr>)"
| backup: "guarded_run dig b anch S \<Longrightarrow> sg_mem S = None \<Longrightarrow> import_bound dig ow b bs (sg_disk S) = (r, d) \<Longrightarrow>
    guarded_run dig b anch (S\<lparr> sg_disk := d \<rparr>)"
| floor_set: "guarded_run dig b anch S \<Longrightarrow> sg_mem S = None \<Longrightarrow> min_slot \<le> u64_max \<Longrightarrow>
    initialize_floor dig ow b min_slot (sg_disk S) = (r, d) \<Longrightarrow> guarded_run dig b anch (S\<lparr> sg_disk := d \<rparr>)"
| restore: "guarded_run dig b anch S \<Longrightarrow> anch \<Longrightarrow> sg_mem S = None \<Longrightarrow>
    guarded_run dig b anch (S\<lparr> sg_disk := (sg_disk S)\<lparr> data_file := f \<rparr> \<rparr>)"

definition mark_ge :: "u64 option \<Rightarrow> u64 \<Rightarrow> bool" where
  "mark_ge m x \<longleftrightarrow> (\<exists>w. m = Some w \<and> x \<le> w)"

definition covers_all :: "watermarks \<Rightarrow> attestation_data list \<Rightarrow> block_header list \<Rightarrow> bool" where
  "covers_all wm vs hs \<longleftrightarrow>
     (\<forall>v \<in> set vs. mark_ge (attestation_slot wm) (slot v) \<and> mark_ge (wm_source wm) (source_epoch v) \<and> mark_ge (wm_target wm) (target_epoch v)) \<and>
     (\<forall>h \<in> set hs. mark_ge (proposal_slot wm) (block_slot h))"

definition file_covers :: "digest \<Rightarrow> bytes option \<Rightarrow> attestation_data list \<Rightarrow> block_header list \<Rightarrow> bool" where
  "file_covers dig f vs hs \<longleftrightarrow> (f = None \<and> vs = [] \<and> hs = []) \<or> (\<exists>wm. is_record dig f wm \<and> covers_all wm vs hs)"

definition votes_ordered :: "attestation_data list \<Rightarrow> bool" where
  "votes_ordered vs \<longleftrightarrow> sorted_wrt (\<lambda>a c. slot a < slot c \<and> source_epoch a \<le> source_epoch c \<and> target_epoch a < target_epoch c) vs"

definition blocks_ordered :: "block_header list \<Rightarrow> bool" where
  "blocks_ordered hs \<longleftrightarrow> sorted_wrt (\<lambda>a c. block_slot a < block_slot c) hs"

text \<open>The copy that outlives everything is the anchor's when it is required, and the data directory's otherwise.\<close>

definition kept_file :: "bool \<Rightarrow> disk \<Rightarrow> bytes option" where
  "kept_file anch d = (if anch then anchor_file d else data_file d)"

definition signer_inv :: "digest \<Rightarrow> bool \<Rightarrow> signer \<Rightarrow> bool" where
  "signer_inv dig anch S \<longleftrightarrow> votes_ordered (sg_votes S) \<and> blocks_ordered (sg_blocks S) \<and>
     file_covers dig (kept_file anch (sg_disk S)) (sg_votes S) (sg_blocks S) \<and>
     (\<forall>sp. sg_mem S = Some sp \<longrightarrow> sp_ok sp \<and> ((anch \<longrightarrow> sp_mirror sp) \<longrightarrow> covers_all (sp_wm sp) (sg_votes S) (sg_blocks S)))"

lemma covers_nothing [simp]: "covers_all wm [] []"
  by (simp add: covers_all_def)

lemma mark_ge_max: "mark_ge a x \<or> mark_ge b x \<Longrightarrow> mark_ge (max_mark a b) x"
  by (cases "(a, b)" rule: max_mark.cases) (auto simp: mark_ge_def)

lemma covers_max: "covers_all a vs hs \<or> covers_all c vs hs \<Longrightarrow> covers_all (max_marks a c) vs hs"
  using mark_ge_max unfolding covers_all_def max_marks_def by auto

lemma mark_ok_max: "mark_ok a \<Longrightarrow> mark_ok c \<Longrightarrow> mark_ok (max_mark a c)"
  by (cases "(a, c)" rule: max_mark.cases) auto

lemma marks_ok_max: "marks_ok a \<Longrightarrow> marks_ok c \<Longrightarrow> marks_ok (max_marks a c)"
  by (simp add: marks_ok_def max_marks_def mark_ok_max)

lemma file_covers_record: "is_record dig f wm \<Longrightarrow> covers_all wm vs hs \<Longrightarrow> file_covers dig f vs hs"
  by (auto simp: file_covers_def)

lemma open_with_ok:
  assumes "open_with dig d (Some b) = Some sp" "binding_ok b"
  shows "sp_ok sp" "\<not> sp_mirror sp" "is_record dig (data_file d) (sp_wm sp) \<or> data_file d = None"
proof -
  obtain wm on_disk r where rec: "(case data_file d of None \<Rightarrow> Some (no_watermarks, None, None) | Some bs \<Rightarrow> decode_record dig bs) = Some (wm, on_disk, r)"
    and sp: "sp_wm sp = wm" "sp_recommit sp = r" "\<not> sp_mirror sp" "sp_bound sp = on_disk \<or> sp_bound sp = Some b"
    using assms(1) by (auto simp: open_with_def split: bind_splits option.splits if_splits)
  show "\<not> sp_mirror sp"
    by (rule sp(3))
  show "is_record dig (data_file d) (sp_wm sp) \<or> data_file d = None"
    using rec sp(1) by (auto simp: is_record_def split: option.splits)
  have "marks_ok wm \<and> pred_option binding_ok on_disk \<and> pred_option recommit_ok r"
    using rec decode_ok by (cases "data_file d") (auto simp: marks_ok_def)
  then show "sp_ok sp"
    using sp assms(2) by (auto simp: sp_ok_def)
qed

lemma covers_subset: "covers_all wm vs hs \<Longrightarrow> set vs' \<subseteq> set vs \<Longrightarrow> set hs' \<subseteq> set hs \<Longrightarrow> covers_all wm vs' hs'"
  unfolding covers_all_def by blast

lemma kept_after_write:
  assumes "digest32 dig" "sp_ok sp" "marks_ok next" "pred_option recommit_ok r" "write_record dig io sp next r d = (ok, d')"
    and "file_covers dig (kept_file anch d) vs hs" "(anch \<longrightarrow> sp_mirror sp) \<longrightarrow> covers_all next vs hs"
  shows "file_covers dig (kept_file anch d') vs hs" "ok \<Longrightarrow> (anch \<longrightarrow> sp_mirror sp) \<Longrightarrow> is_record dig (kept_file anch d') next"
proof -
  note e = write_record_effect [OF assms(1-5)]
  show "file_covers dig (kept_file anch d') vs hs"
    using assms(6,7) e(2,3) file_covers_record unfolding kept_file_def by (cases anch) auto
  show "is_record dig (kept_file anch d') next" if "ok" "anch \<longrightarrow> sp_mirror sp"
    using e(1) that unfolding kept_file_def by auto
qed

lemma commit_keeps:
  assumes "digest32 dig" "sp_ok sp" "marks_ok next" "commit_marks dig io sp next d = (r, sp', d')"
    and "file_covers dig (kept_file anch d) vs hs" "anch \<longrightarrow> sp_mirror sp" "covers_all (sp_wm sp) vs hs"
    and "covers_all next vs' hs'" "set vs \<subseteq> set vs'" "set hs \<subseteq> set hs'"
  shows "sp_ok sp' \<and> (if r = None
    then file_covers dig (kept_file anch d') vs' hs' \<and> covers_all (sp_wm sp') vs' hs'
    else file_covers dig (kept_file anch d') vs hs \<and> covers_all (sp_wm sp') vs hs)"
proof -
  obtain ok where w: "write_record dig io sp next (sp_recommit sp) d = (ok, d')"
      "r = (if ok then None else Some RefusedIo)" "sp' = (if ok then sp\<lparr> sp_wm := next \<rparr> else sp)"
    using assms(4) by (auto simp: commit_marks_def split: prod.splits bool.splits)
  have rc: "pred_option recommit_ok (sp_recommit sp)"
    using assms(2) by (simp add: sp_ok_def)
  have "covers_all next vs hs"
    using covers_subset assms(8-10) by blast
  then have "file_covers dig (kept_file anch d') vs hs" "ok \<Longrightarrow> is_record dig (kept_file anch d') next"
    using kept_after_write [OF assms(1-3) rc w(1) assms(5)] assms(6) by auto
  then show ?thesis
    using w(2,3) assms(2,3,7,8) file_covers_record by (auto simp: sp_ok_def)
qed

lemma mark_hit_None: "mark_hit p m = None \<longleftrightarrow> (\<forall>w. m = Some w \<longrightarrow> \<not> p w)"
  by (auto simp: mark_hit_def split: option.splits)

text \<open>What a guard lets pass lies beyond everything released before.\<close>

lemma vote_beyond:
  assumes "covers_all wm vs hs" "mark_hit (\<lambda>w. slot v \<le> w) (attestation_slot wm) = None"
    "mark_hit (\<lambda>w. target_epoch v \<le> w) (wm_target wm) = None" "mark_hit (\<lambda>w. source_epoch v < w) (wm_source wm) = None"
  shows "\<forall>u \<in> set vs. slot u < slot v \<and> source_epoch u \<le> source_epoch v \<and> target_epoch u < target_epoch v"
  using assms unfolding covers_all_def mark_ge_def mark_hit_None by (meson le_less_trans not_le order_trans)

lemma vote_step:
  assumes "digest32 dig" "signer_inv dig anch S" "sg_mem S = Some sp" "anch \<longrightarrow> sp_mirror sp"
    and "slot v < u64_max" "source_epoch v < u64_max" "target_epoch v < u64_max"
    and "guard_attestation dig io sp (slot v) (source_epoch v) (target_epoch v) (sg_disk S) = (r, sp', d)"
  shows "signer_inv dig anch (S\<lparr> sg_disk := d, sg_mem := Some sp', sg_votes := sg_votes S @ (if r = None then [v] else []) \<rparr>)"
proof -
  let ?vs = "sg_votes S" and ?hs = "sg_blocks S" and ?wm = "sp_wm sp"
  let ?next = "?wm\<lparr> attestation_slot := Some (slot v), wm_source := Some (source_epoch v), wm_target := Some (target_epoch v) \<rparr>"
  have inv: "votes_ordered ?vs" "blocks_ordered ?hs" "file_covers dig (kept_file anch (sg_disk S)) ?vs ?hs" "sp_ok sp" "covers_all ?wm ?vs ?hs"
    using assms(2-4) by (simp_all add: signer_inv_def)
  consider "r \<noteq> None" "sp' = sp" "d = sg_disk S"
    | "mark_hit (\<lambda>w. slot v \<le> w) (attestation_slot ?wm) = None" "mark_hit (\<lambda>w. target_epoch v \<le> w) (wm_target ?wm) = None"
      "mark_hit (\<lambda>w. source_epoch v < w) (wm_source ?wm) = None" "commit_marks dig io sp ?next (sg_disk S) = (r, sp', d)"
    using assms(8) by (auto simp: guard_attestation_def split: option.splits)
  then show ?thesis
  proof cases
    case 1
    then show ?thesis
      using inv by (auto simp: signer_inv_def)
  next
    case 2
    note beyond = vote_beyond [OF inv(5) 2(1-3)]
    have cov: "covers_all ?next (?vs @ [v]) ?hs"
      using beyond inv(5) by (auto simp: covers_all_def mark_ge_def less_imp_le)
    have marks: "marks_ok ?next"
      using inv(4) assms(5-7) by (simp add: sp_ok_def marks_ok_def)
    have "sp_ok sp' \<and> (if r = None then file_covers dig (kept_file anch d) (?vs @ [v]) ?hs \<and> covers_all (sp_wm sp') (?vs @ [v]) ?hs
        else file_covers dig (kept_file anch d) ?vs ?hs \<and> covers_all (sp_wm sp') ?vs ?hs)"
      by (rule commit_keeps [OF assms(1) inv(4) marks 2(4) inv(3) assms(4) inv(5) cov]) auto
    moreover have "votes_ordered (?vs @ [v])"
      using inv(1) beyond by (auto simp: votes_ordered_def sorted_wrt_append)
    ultimately show ?thesis
      using inv(1,2) by (auto simp: signer_inv_def split: if_splits)
  qed
qed

lemma block_step:
  assumes "digest32 dig" "signer_inv dig anch S" "sg_mem S = Some sp" "anch \<longrightarrow> sp_mirror sp" "block_slot h < u64_max"
    and "guard_proposal dig io sp (block_slot h) (sg_disk S) = (r, sp', d)"
  shows "signer_inv dig anch (S\<lparr> sg_disk := d, sg_mem := Some sp', sg_blocks := sg_blocks S @ (if r = None then [h] else []) \<rparr>)"
proof -
  let ?vs = "sg_votes S" and ?hs = "sg_blocks S" and ?wm = "sp_wm sp"
  let ?next = "?wm\<lparr> proposal_slot := Some (block_slot h) \<rparr>"
  have inv: "votes_ordered ?vs" "blocks_ordered ?hs" "file_covers dig (kept_file anch (sg_disk S)) ?vs ?hs" "sp_ok sp" "covers_all ?wm ?vs ?hs"
    using assms(2-4) by (simp_all add: signer_inv_def)
  consider "r \<noteq> None" "sp' = sp" "d = sg_disk S"
    | "mark_hit (\<lambda>w. block_slot h \<le> w) (proposal_slot ?wm) = None" "commit_marks dig io sp ?next (sg_disk S) = (r, sp', d)"
    using assms(6) by (auto simp: guard_proposal_def split: option.splits)
  then show ?thesis
  proof cases
    case 1
    then show ?thesis
      using inv by (auto simp: signer_inv_def)
  next
    case 2
    have beyond: "\<forall>u \<in> set ?hs. block_slot u < block_slot h"
      using inv(5) 2(1) unfolding covers_all_def mark_ge_def mark_hit_None by (meson le_less_trans not_le)
    then have cov: "covers_all ?next ?vs (?hs @ [h])"
      using inv(5) by (auto simp: covers_all_def mark_ge_def less_imp_le)
    have marks: "marks_ok ?next"
      using inv(4) assms(5) by (simp add: sp_ok_def marks_ok_def)
    have "sp_ok sp' \<and> (if r = None then file_covers dig (kept_file anch d) ?vs (?hs @ [h]) \<and> covers_all (sp_wm sp') ?vs (?hs @ [h])
        else file_covers dig (kept_file anch d) ?vs ?hs \<and> covers_all (sp_wm sp') ?vs ?hs)"
      by (rule commit_keeps [OF assms(1) inv(4) marks 2(2) inv(3) assms(4) inv(5) cov]) auto
    moreover have "blocks_ordered (?hs @ [h])"
      using inv(2) beyond by (auto simp: blocks_ordered_def sorted_wrt_append)
    ultimately show ?thesis
      using inv(1,2) by (auto simp: signer_inv_def split: if_splits)
  qed
qed

lemma recommit_step:
  assumes "digest32 dig" "signer_inv dig anch S" "sg_mem S = Some sp" "intent_ok i"
    and "guard_recommit dig io sp i (sg_disk S) = (r, sp', d)"
  shows "signer_inv dig anch (S\<lparr> sg_disk := d, sg_mem := Some sp' \<rparr>)"
proof -
  let ?vs = "sg_votes S" and ?hs = "sg_blocks S" and ?old = "case sp_recommit sp of None \<Rightarrow> \<lparr> epoch_floor = None, intent = None \<rparr> | Some p \<Rightarrow> p"
  let ?new = "?old\<lparr> intent := Some i \<rparr>"
  have inv: "file_covers dig (kept_file anch (sg_disk S)) ?vs ?hs" "sp_ok sp" "(anch \<longrightarrow> sp_mirror sp) \<longrightarrow> covers_all (sp_wm sp) ?vs ?hs"
    using assms(2,3) by (simp_all add: signer_inv_def)
  have new: "recommit_ok ?new" "marks_ok (sp_wm sp)"
    using inv(2) assms(4) by (auto simp: sp_ok_def recommit_ok_def split: option.splits)
  consider "sp' = sp" "d = sg_disk S"
    | ok where "write_record dig io sp (sp_wm sp) (Some ?new) (sg_disk S) = (ok, d)" "sp' = sp \<or> sp' = sp\<lparr> sp_recommit := Some ?new \<rparr>"
    using assms(5) unfolding guard_recommit_def Let_def by (auto split: if_splits prod.splits bool.splits)
  then show ?thesis
  proof cases
    case 1
    then show ?thesis
      using assms(2,3) by (simp add: signer_inv_def)
  next
    case 2
    have "file_covers dig (kept_file anch d) ?vs ?hs"
      by (rule kept_after_write(1) [OF assms(1) inv(2) new(2) _ 2(1) inv(1,3)]) (simp add: new(1))
    then show ?thesis
      using assms(2,3) inv(2) new(1) 2(2) by (auto simp: signer_inv_def sp_ok_def)
  qed
qed

lemma published_step:
  assumes "digest32 dig" "signer_inv dig anch S" "sg_mem S = Some sp"
    and "case seen of PublishedProposal sl \<Rightarrow> sl < u64_max | PublishedAttestation sl se te \<Rightarrow> sl < u64_max \<and> se < u64_max \<and> te < u64_max"
    and "raise_to_published dig io sp seen (sg_disk S) = (ok, sp', d)"
  shows "signer_inv dig anch (S\<lparr> sg_disk := d, sg_mem := Some sp' \<rparr>)"
proof -
  let ?vs = "sg_votes S" and ?hs = "sg_blocks S"
  define inc where "inc = (case seen of PublishedProposal sl \<Rightarrow> no_watermarks\<lparr> proposal_slot := Some sl \<rparr>
    | PublishedAttestation sl se te \<Rightarrow> no_watermarks\<lparr> attestation_slot := Some sl, wm_source := Some se, wm_target := Some te \<rparr>)"
  let ?next = "max_marks (sp_wm sp) inc"
  have inv: "file_covers dig (kept_file anch (sg_disk S)) ?vs ?hs" "sp_ok sp" "(anch \<longrightarrow> sp_mirror sp) \<longrightarrow> covers_all (sp_wm sp) ?vs ?hs"
    using assms(2,3) by (simp_all add: signer_inv_def)
  have "marks_ok inc"
    using assms(4) by (simp add: inc_def marks_ok_def split: published.splits)
  then have nx: "marks_ok ?next"
    using inv(2) by (intro marks_ok_max) (simp_all add: sp_ok_def)
  have cov: "(anch \<longrightarrow> sp_mirror sp) \<longrightarrow> covers_all ?next ?vs ?hs"
    using inv(3) covers_max by blast
  have rc: "pred_option recommit_ok (sp_recommit sp)"
    using inv(2) by (simp add: sp_ok_def)
  consider "sp' = sp" "d = sg_disk S"
    | ok where "write_record dig io sp ?next (sp_recommit sp) (sg_disk S) = (ok, d)" "sp' = sp \<or> sp' = sp\<lparr> sp_wm := ?next \<rparr>"
  proof -
    obtain k e where w: "write_record dig io sp ?next (sp_recommit sp) (sg_disk S) = (k, e)"
      by fastforce
    have "raise_to_published dig io sp seen (sg_disk S) = (if ?next \<noteq> sp_wm sp
        then (if k then (True, sp\<lparr> sp_wm := ?next \<rparr>, e) else (False, sp, e)) else (True, sp, sg_disk S))"
      unfolding raise_to_published_def Let_def inc_def [symmetric] w by simp
    then show thesis
      using assms(5) w that by (cases "?next = sp_wm sp"; cases k) simp_all
  qed
  then show ?thesis
  proof cases
    case 1
    then show ?thesis
      using assms(2,3) by (simp add: signer_inv_def)
  next
    case 2
    have "file_covers dig (kept_file anch d) ?vs ?hs"
      by (rule kept_after_write(1) [OF assms(1) inv(2) nx rc 2(1) inv(1) cov])
    then show ?thesis
      using assms(2,3) inv(2) nx cov 2(2) by (auto simp: signer_inv_def sp_ok_def)
  qed
qed

lemma merge_recommit_ok:
  assumes "merge_recommit l r = Some m" "pred_option recommit_ok l" "pred_option recommit_ok r"
  shows "pred_option recommit_ok m"
  using assms by (auto simp: merge_recommit_def recommit_ok_def mark_ok_max split: option.splits if_splits)

text \<open>Attaching the anchor makes the record in memory cover everything, wherever the data directory came from.\<close>

lemma anchor_covers:
  assumes "file_covers dig (kept_file anch d) vs hs" "(anch \<longrightarrow> sp_mirror sp) \<longrightarrow> covers_all (sp_wm sp) vs hs"
    and "anchor_file d = Some bs" "decode_record dig bs = Some (wm, ab, rc)"
  shows "covers_all (max_marks (sp_wm sp) wm) vs hs"
proof (cases anch)
  case True
  then have "covers_all wm vs hs"
    using assms(1,3,4) by (auto simp: file_covers_def kept_file_def is_record_def)
  then show ?thesis
    using covers_max by blast
next
  case False
  then show ?thesis
    using assms(2) covers_max by blast
qed

lemma attach_adopts:
  assumes "digest32 dig" "signer_inv dig anch S" "sg_mem S = Some sp" "anchor_file (sg_disk S) = None"
    and "encoded dig (sp_wm sp) (sp_bound sp) (sp_recommit sp) = Some bs" "atomic_write io bs None = (ok, g)"
  shows "signer_inv dig anch (S\<lparr> sg_disk := (sg_disk S)\<lparr> anchor_file := g \<rparr>, sg_mem := if ok then Some (sp\<lparr> sp_mirror := True \<rparr>) else None \<rparr>)"
proof -
  let ?vs = "sg_votes S" and ?hs = "sg_blocks S"
  have inv: "file_covers dig (kept_file anch (sg_disk S)) ?vs ?hs" "sp_ok sp" "(anch \<longrightarrow> sp_mirror sp) \<longrightarrow> covers_all (sp_wm sp) ?vs ?hs"
    using assms(2,3) by (simp_all add: signer_inv_def)
  have "anch \<longrightarrow> ?vs = [] \<and> ?hs = []"
    using inv(1) assms(4) by (auto simp: file_covers_def kept_file_def is_record_def)
  then have cov: "covers_all (sp_wm sp) ?vs ?hs"
    using inv(3) by (cases anch) simp_all
  have "is_record dig (Some bs) (sp_wm sp)"
    using encoded_is_record [OF assms(1) _ _ _ assms(5)] inv(2) by (simp add: sp_ok_def)
  then have "g = None \<or> is_record dig g (sp_wm sp)"
    using assms(6) by (cases io) auto
  then have "file_covers dig (kept_file anch ((sg_disk S)\<lparr> anchor_file := g \<rparr>)) ?vs ?hs"
    using inv(1) assms(4) cov file_covers_record by (cases anch) (auto simp: kept_file_def)
  then show ?thesis
    using assms(2) inv(2) cov by (simp add: signer_inv_def sp_ok_def)
qed

lemma kept_after_optional_write:
  assumes "digest32 dig" "sp_ok sp" "marks_ok next" "pred_option recommit_ok r"
    and "(if c then write_record dig io sp next r d else (True, d)) = (ok, d')"
    and "file_covers dig (kept_file anch d) vs hs" "covers_all next vs hs"
  shows "file_covers dig (kept_file anch d') vs hs"
  using assms kept_after_write(1) [OF assms(1-4) _ assms(6)] by (cases c) auto

lemma inv_down: "signer_inv dig anch S \<Longrightarrow> file_covers dig (kept_file anch d) (sg_votes S) (sg_blocks S) \<Longrightarrow>
    signer_inv dig anch (S\<lparr> sg_disk := d, sg_mem := None \<rparr>)"
  by (simp add: signer_inv_def)

lemma attach_merges:
  assumes "digest32 dig" "signer_inv dig anch S" "sg_mem S = Some sp" "sp_bound sp = Some b"
    and "anchor_file (sg_disk S) = Some bs" "decode_record dig bs = Some (wm, Some b, rc)" "merge_recommit (sp_recommit sp) rc = Some recommit"
    and "attach_anchor_path dig ios sp accept (sg_disk S) = (r, d)"
  shows "signer_inv dig anch (S\<lparr> sg_disk := d, sg_mem := map_option snd r \<rparr>)"
proof -
  let ?vs = "sg_votes S" and ?hs = "sg_blocks S" and ?m = "max_marks (sp_wm sp) wm"
  define sp' where "sp' = sp\<lparr> sp_wm := ?m, sp_recommit := recommit, sp_mirror := True \<rparr>"
  have inv: "file_covers dig (kept_file anch (sg_disk S)) ?vs ?hs" "sp_ok sp" "(anch \<longrightarrow> sp_mirror sp) \<longrightarrow> covers_all (sp_wm sp) ?vs ?hs"
    using assms(2,3) by (simp_all add: signer_inv_def)
  have cov: "covers_all ?m ?vs ?hs"
    by (rule anchor_covers [OF inv(1,3) assms(5,6)])
  have m: "marks_ok ?m" and rc: "pred_option recommit_ok recommit"
    using inv(2) decode_ok [OF assms(6)] marks_ok_max merge_recommit_ok [OF assms(7)] unfolding sp_ok_def by blast+
  then have ok': "sp_ok sp'"
    using inv(2) by (simp add: sp_ok_def sp'_def)
  define db ab where behind: "db = (?m \<noteq> sp_wm sp \<or> recommit \<noteq> sp_recommit sp)" "ab = (?m \<noteq> wm \<or> recommit \<noteq> rc)"
  obtain k d1 where w1: "(if db then write_record dig (fst ios) sp ?m recommit (sg_disk S) else (True, sg_disk S)) = (k, d1)"
    by fastforce
  obtain l d2 where w2: "(if ab then write_record dig (snd ios) sp' ?m recommit d1 else (True, d1)) = (l, d2)"
    by fastforce
  have c1: "file_covers dig (kept_file anch d1) ?vs ?hs"
    by (rule kept_after_optional_write [OF assms(1) inv(2) m rc w1 inv(1) cov])
  have c2: "file_covers dig (kept_file anch d2) ?vs ?hs"
    by (rule kept_after_optional_write [OF assms(1) ok' m rc w2 c1 cov])
  have "(r, d) = (if db \<and> \<not> accept then (None, sg_disk S) else if \<not> k then (None, d1) else if \<not> l then (None, d2)
      else (Some (if db then DataDirRolledForward else if ab then AnchorRaised else InSync, sp'), d2))"
    using assms(8) unfolding attach_anchor_path_def assms(4-7) option.case prod.case Let_def behind [symmetric] w1 sp'_def [symmetric] w2
    by (cases k; cases l) (auto split: if_splits)
  then consider "r = None" "d \<in> {sg_disk S, d1, d2}" | a where "r = Some (a, sp')" "d = d2"
    by (simp split: if_splits)
  then show ?thesis
  proof cases
    case 1
    then show ?thesis
      using inv_down [OF assms(2)] inv(1) c1 c2 by auto
  next
    case 2
    then show ?thesis
      using assms(2) ok' cov c2 by (simp add: signer_inv_def) (simp add: sp'_def)
  qed
qed

lemma attach_step:
  assumes "digest32 dig" "signer_inv dig anch S" "sg_mem S = Some sp" "attach_anchor_path dig ios sp accept (sg_disk S) = (r, d)"
  shows "signer_inv dig anch (S\<lparr> sg_disk := d, sg_mem := map_option snd r \<rparr>)"
proof -
  have here: "file_covers dig (kept_file anch (sg_disk S)) (sg_votes S) (sg_blocks S)"
    using assms(2) by (simp add: signer_inv_def)
  have refused: ?thesis if "r = None" "d = sg_disk S"
    using inv_down [OF assms(2) here] that by simp
  show ?thesis
  proof (cases "sp_bound sp"; cases "anchor_file (sg_disk S)")
    fix b
    assume b: "sp_bound sp = Some b" and no: "anchor_file (sg_disk S) = None"
    show ?thesis
    proof (cases "encoded dig (sp_wm sp) (sp_bound sp) (sp_recommit sp)")
      case None
      then show ?thesis
        using assms(4) b no by (intro refused) (simp_all add: attach_anchor_path_def)
    next
      case (Some bs)
      obtain ok g where w: "atomic_write (fst (fst ios)) bs None = (ok, g)"
        by fastforce
      have "map_option snd r = (if ok then Some (sp\<lparr> sp_mirror := True \<rparr>) else None)" "d = (sg_disk S)\<lparr> anchor_file := g \<rparr>"
        using assms(4) b no Some w by (auto simp: attach_anchor_path_def split: if_splits bool.splits)
      then show ?thesis
        using attach_adopts [OF assms(1-3) no Some w] by simp
    qed
  next
    fix b bs
    assume b: "sp_bound sp = Some b" and bs: "anchor_file (sg_disk S) = Some bs"
    show ?thesis
    proof (cases "\<exists>wm rc recommit. decode_record dig bs = Some (wm, Some b, rc) \<and> merge_recommit (sp_recommit sp) rc = Some recommit")
      case True
      then show ?thesis
        using attach_merges [OF assms(1-3) b bs _ _ assms(4)] by blast
    next
      case False
      then show ?thesis
        using assms(4) b bs by (intro refused) (auto simp: attach_anchor_path_def split: option.splits if_splits)
    qed
  qed (rule refused; use assms(4) in \<open>simp add: attach_anchor_path_def\<close>)+
qed

lemma boot_step:
  assumes "signer_inv dig anch S" "binding_ok b" "open_with dig (sg_disk S) (Some b) = Some sp"
  shows "signer_inv dig anch (S\<lparr> sg_mem := Some sp \<rparr>)"
proof -
  note o = open_with_ok [OF assms(3,2)]
  have kept: "file_covers dig (kept_file anch (sg_disk S)) (sg_votes S) (sg_blocks S)"
    using assms(1) by (simp add: signer_inv_def)
  have "covers_all (sp_wm sp) (sg_votes S) (sg_blocks S)" if "\<not> anch"
    using kept o(3) that by (auto simp: file_covers_def kept_file_def is_record_def)
  then show ?thesis
    using assms(1) o(1,2) by (auto simp: signer_inv_def)
qed

lemma merge_bound_effect:
  assumes "digest32 dig" "binding_ok b" "marks_ok incoming" "pred_option recommit_ok rc"
    and "merge_bound dig io b incoming rc d = (r, d')"
  obtains "r = None" "d' = d"
    | sp ok where "open_with dig d (Some b) = Some sp" "anchor_file d' = anchor_file d"
      "d' = d \<or> is_record dig (data_file d') (max_marks (sp_wm sp) incoming)"
      "r = (if ok then Some (max_marks (sp_wm sp) incoming) else None)"
      "ok \<longrightarrow> is_record dig (data_file d') (max_marks (sp_wm sp) incoming)"
proof (cases "open_with dig d (Some b)")
  case None
  then show ?thesis
    using assms(5) that(1) by (simp add: merge_bound_def)
next
  case (Some sp)
  let ?m = "max_marks (sp_wm sp) incoming"
  note ok = open_with_ok [OF Some assms(2)]
  show ?thesis
  proof (cases "merge_recommit (sp_recommit sp) rc")
    case None
    then show ?thesis
      using assms(5) Some that(1) by (simp add: merge_bound_def)
  next
    case (Some recommit)
    obtain k e where w: "write_record dig (io, Written) sp ?m recommit d = (k, e)"
      by fastforce
    have res: "r = (if k then Some ?m else None)" "d' = e"
      using assms(5) Some w \<open>open_with dig d (Some b) = Some sp\<close> by (simp_all add: merge_bound_def split: bool.splits if_splits)
    have "marks_ok ?m" "pred_option recommit_ok recommit"
      using ok(1) assms(3,4) marks_ok_max merge_recommit_ok [OF Some] unfolding sp_ok_def by blast+
    note e = write_record_effect [OF assms(1) ok(1) this w]
    have "d' = d \<or> is_record dig (data_file d') ?m" "anchor_file d' = anchor_file d"
      using e(2,3) ok(2) res(2) by (cases d; cases e; auto)+
    then show ?thesis
      using that(2) [OF \<open>open_with dig d (Some b) = Some sp\<close>, of k] res e(1) by simp
  qed
qed

lemma merge_step:
  assumes "digest32 dig" "binding_ok b" "signer_inv dig anch S" "sg_mem S = None" "marks_ok incoming" "pred_option recommit_ok rc"
    and "merge_bound dig io b incoming rc (sg_disk S) = (r, d)"
  shows "signer_inv dig anch (S\<lparr> sg_disk := d \<rparr>)"
  using assms(1,2,5,6,7)
proof (cases rule: merge_bound_effect)
  case 1
  then show ?thesis
    using assms(3) by simp
next
  case (2 sp ok)
  let ?vs = "sg_votes S" and ?hs = "sg_blocks S"
  have kept: "file_covers dig (kept_file anch (sg_disk S)) ?vs ?hs"
    using assms(3) by (simp add: signer_inv_def)
  have "covers_all (sp_wm sp) ?vs ?hs" if "\<not> anch"
    using kept open_with_ok(3) [OF 2(1) assms(2)] that by (auto simp: file_covers_def kept_file_def is_record_def)
  then have "file_covers dig (kept_file anch d) ?vs ?hs"
    using kept 2(2,3) covers_max file_covers_record unfolding kept_file_def by (cases anch) auto
  then show ?thesis
    using assms(3,4) by (simp add: signer_inv_def)
qed

lemma backup_step:
  assumes "digest32 dig" "binding_ok b" "signer_inv dig anch S" "sg_mem S = None" "import_bound dig io b bs (sg_disk S) = (r, d)"
  shows "signer_inv dig anch (S\<lparr> sg_disk := d \<rparr>)"
proof (cases "\<exists>wm rc. decode_record dig bs = Some (wm, Some b, rc)")
  case True
  then obtain wm rc where dec: "decode_record dig bs = Some (wm, Some b, rc)"
    by blast
  then have "merge_bound dig io b wm rc (sg_disk S) = (r, d)"
    using assms(5) by (simp add: import_bound_def)
  then show ?thesis
    by (rule merge_step [OF assms(1-4) decode_ok(1,3) [OF dec]])
next
  case False
  then have "d = sg_disk S"
    using assms(5) by (auto simp: import_bound_def split: option.splits if_splits)
  then show ?thesis
    using assms(3) by simp
qed

lemma floor_step:
  assumes "digest32 dig" "binding_ok b" "signer_inv dig anch S" "sg_mem S = None" "min_slot \<le> u64_max"
    and "initialize_floor dig io b min_slot (sg_disk S) = (r, d)"
  shows "signer_inv dig anch (S\<lparr> sg_disk := d \<rparr>)"
proof (cases "min_slot = 0 \<or> min_slot = u64_max")
  case True
  then show ?thesis
    using assms(3,6) by (auto simp: initialize_floor_def)
next
  case False
  let ?e = "(min_slot - 1) div SLOTS_PER_EPOCH"
  have "?e \<le> min_slot - 1"
    by (rule div_le_dividend)
  then have small: "min_slot - 1 < u64_max" "?e < u64_max"
    using False assms(5) by linarith+
  have "merge_bound dig io b \<lparr> proposal_slot = Some (min_slot - 1), attestation_slot = Some (min_slot - 1), wm_source = Some ?e, wm_target = Some ?e \<rparr>
      (Some \<lparr> epoch_floor = Some ?e, intent = None \<rparr>) (sg_disk S) = (r, d)"
    using assms(6) False by (simp add: initialize_floor_def Let_def)
  from merge_step [OF assms(1-4) _ _ this] show ?thesis
    using small by (simp add: marks_ok_def recommit_ok_def)
qed

text \<open>A guard refuses every slot that its mark has reached, before anything is written.\<close>

lemma guards_below:
  "mark_ge (proposal_slot (sp_wm sp)) sl \<Longrightarrow> \<exists>w. guard_proposal dig io sp sl d = (Some (RefusedProposal sl w), sp, d)"
  "mark_ge (attestation_slot (sp_wm sp)) sl \<Longrightarrow> \<exists>w. guard_attestation dig io sp sl se te d = (Some (RefusedSlot sl w), sp, d)"
  by (auto simp: guard_proposal_def guard_attestation_def mark_hit_def mark_ge_def)

lemma floor_marks:
  assumes "digest32 dig" "binding_ok b" "min_slot \<le> u64_max" "initialize_floor dig ow b min_slot d = (Some wm, d1)"
    and "open_with dig d1 (Some b) = Some sp" "sl < min_slot"
  shows "mark_ge (proposal_slot (sp_wm sp)) sl" "mark_ge (attestation_slot (sp_wm sp)) sl"
proof -
  let ?e = "(min_slot - 1) div SLOTS_PER_EPOCH"
  let ?f = "\<lparr> proposal_slot = Some (min_slot - 1), attestation_slot = Some (min_slot - 1), wm_source = Some ?e, wm_target = Some ?e \<rparr>"
  have ok: "min_slot \<noteq> 0" "min_slot \<noteq> u64_max"
    and m: "merge_bound dig ow b ?f (Some \<lparr> epoch_floor = Some ?e, intent = None \<rparr>) d = (Some wm, d1)"
    using assms(4) by (auto simp: initialize_floor_def Let_def split: if_splits)
  have "?e \<le> min_slot - 1"
    by (rule div_le_dividend)
  then have small: "min_slot - 1 < u64_max" "?e < u64_max"
    using ok assms(3) by linarith+
  then have pre: "marks_ok ?f" "pred_option recommit_ok (Some \<lparr> epoch_floor = Some ?e, intent = None \<rparr>)"
    by (simp_all add: marks_ok_def recommit_ok_def)
  have "\<exists>old :: protection. is_record dig (data_file d1) (max_marks (sp_wm old) ?f)"
    using assms(1,2) pre m
  proof (cases rule: merge_bound_effect)
    case (2 old ok)
    then show ?thesis
      by (intro exI [of _ old]) (simp split: if_splits)
  qed simp
  then obtain old :: protection where "is_record dig (data_file d1) (max_marks (sp_wm old) ?f)"
    by blast
  then have wm: "sp_wm sp = max_marks (sp_wm old) ?f"
    using open_with_ok(3) [OF assms(5,2)] by (auto simp: is_record_def)
  have "mark_ge (max_mark m (Some (min_slot - 1))) sl" for m
    using assms(6) by (intro mark_ge_max disjI2) (simp add: mark_ge_def)
  then show "mark_ge (proposal_slot (sp_wm sp)) sl" "mark_ge (attestation_slot (sp_wm sp)) sl"
    using wm by (simp_all add: max_marks_def)
qed

text \<open>A merged export protects whatever either record protected.\<close>

lemma merge_records_covers:
  assumes "digest32 dig" "binding_ok b" "merge_records dig b l r = Some bs"
    and "is_record dig (Some l) wm" "covers_all wm vs hs"
  shows "file_covers dig (Some bs) vs hs"
proof -
  obtain lw lr rw rr rc where dec: "decode_record dig l = Some (lw, Some b, lr)" "decode_record dig r = Some (rw, Some b, rr)"
      "merge_recommit lr rr = Some rc"
    and bs: "encoded dig (max_marks lw rw) (Some b) rc = Some bs"
    using assms(3) by (auto simp: merge_records_def encoded_def split: bind_splits if_splits option.splits)
  note okl = decode_ok [OF dec(1)] and okr = decode_ok [OF dec(2)]
  have "is_record dig (Some bs) (max_marks lw rw)"
    by (rule encoded_is_record [OF assms(1) marks_ok_max [OF okl(1) okr(1)] _ merge_recommit_ok [OF dec(3) okl(3) okr(3)] bs])
      (simp add: assms(2))
  moreover have "covers_all (max_marks lw rw) vs hs"
    using assms(4,5) dec(1) covers_max by (auto simp: is_record_def)
  ultimately show ?thesis
    by (rule file_covers_record)
qed

lemma guarded_inv:
  assumes "guarded_run dig b anch S" "digest32 dig" "binding_ok b"
  shows "signer_inv dig anch S"
  using assms(1)
proof (induction rule: guarded_run.induct)
  case fresh
  then show ?case
    by (auto simp: signer_inv_def votes_ordered_def blocks_ordered_def file_covers_def kept_file_def)
next
  case (boot S sp)
  then show ?case
    using boot_step assms(3) by blast
next
  case (attach S sp ios accept r d)
  then show ?case
    using attach_step assms(2) by blast
next
  case (vote S sp v io r sp' d)
  then show ?case
    using vote_step assms(2) by blast
next
  case (propose S sp h io r sp' d)
  then show ?case
    using block_step assms(2) by blast
next
  case (recommit S sp i io r sp' d)
  then show ?case
    using recommit_step assms(2) by blast
next
  case (published S sp seen io ok sp' d)
  then show ?case
    using published_step assms(2) by blast
next
  case (crash S)
  then show ?case
    by (simp add: signer_inv_def)
next
  case (backup S ow bs r d)
  then show ?case
    using backup_step assms(2,3) by blast
next
  case (floor_set S min_slot ow r d)
  then show ?case
    using floor_step assms(2,3) by blast
next
  case (restore S f)
  then show ?case
    by (simp add: signer_inv_def kept_file_def)
qed

text \<open>What a guarded signer releases: no two votes conflict, and no two blocks share a slot.\<close>

lemma guarded_votes:
  assumes "guarded_run dig b anch S" "digest32 dig" "binding_ok b" "u \<in> set (sg_votes S)" "v \<in> set (sg_votes S)"
  shows "\<not> is_double_vote u v \<and> \<not> surrounds u v \<and> \<not> surrounds v u"
proof -
  have "sorted_wrt (\<lambda>a c. slot a < slot c \<and> source_epoch a \<le> source_epoch c \<and> target_epoch a < target_epoch c) (sg_votes S)"
    using guarded_inv [OF assms(1-3)] by (simp add: signer_inv_def votes_ordered_def)
  then have "u = v \<or> source_epoch u \<le> source_epoch v \<and> target_epoch u < target_epoch v \<or>
      source_epoch v \<le> source_epoch u \<and> target_epoch v < target_epoch u"
    using assms(4,5) unfolding sorted_wrt_iff_nth_less in_set_conv_nth by (metis linorder_neqE_nat)
  then show ?thesis
    by (auto simp: is_double_vote_def surrounds_def)
qed

lemma guarded_blocks:
  assumes "guarded_run dig b anch S" "digest32 dig" "binding_ok b" "h \<in> set (sg_blocks S)" "k \<in> set (sg_blocks S)" "block_slot h = block_slot k"
  shows "h = k"
proof -
  have "sorted_wrt (\<lambda>a c. block_slot a < block_slot c) (sg_blocks S)"
    using guarded_inv [OF assms(1-3)] by (simp add: signer_inv_def blocks_ordered_def)
  then show ?thesis
    using assms(4-6) unfolding sorted_wrt_iff_nth_less in_set_conv_nth by (metis linorder_neqE_nat nat_neq_iff)
qed

text \<open>The mark that stands for none is the one value the guard cannot remember.\<close>

lemma largest_mark_forgotten: "read_mark (mark_bytes (Some u64_max)) = None"
  by (simp add: read_mark_def mark_bytes_def NONE_MARK_def le_bytes_roundtrip u64_max_def Let_def)

section \<open>A concrete signer\<close>

definition demo_key :: sp_binding where
  "demo_key = \<lparr> validator_pubkey_sha3 = replicate 32 1, genesis_digest = replicate 32 2 \<rparr>"

definition guarded_vote :: "u64 \<Rightarrow> attestation_data" where
  "guarded_vote e = \<lparr> slot = 32 * e, head = replicate 32 0, source_epoch = e - 1, source_root = replicate 32 0,
     target_epoch = e, target_root = replicate 32 0 \<rparr>"

text \<open>Two epochs of duty with a refused write in between.\<close>

lemma demo_guarded:
  "\<exists>S. guarded_run dig demo_key False S \<and> sg_votes S = [guarded_vote 5, guarded_vote 6]"
proof -
  let ?S = "\<lparr> sg_disk = \<lparr> data_file = None, anchor_file = None \<rparr>, sg_mem = None, sg_votes = [], sg_blocks = [] \<rparr>"
  let ?sp = "\<lambda>wm. \<lparr> sp_wm = wm, sp_bound = Some demo_key, sp_recommit = None, sp_mirror = False \<rparr>"
  let ?wm = "\<lambda>e. \<lparr> proposal_slot = None, attestation_slot = Some (32 * e), wm_source = Some (e - 1), wm_target = Some e \<rparr>"
  let ?file = "\<lambda>e. \<lparr> data_file = Some (encode_record dig (?wm e) (Some demo_key)), anchor_file = None \<rparr>"
  let ?at = "\<lambda>e vs. \<lparr> sg_disk = ?file e, sg_mem = Some (?sp (?wm e)), sg_votes = vs, sg_blocks = [] \<rparr>"
  have "open_with dig (sg_disk ?S) (Some demo_key) = Some (?sp no_watermarks)"
    by (simp add: open_with_def)
  note up = guarded_run.boot [OF guarded_run.fresh [of dig demo_key False] this]
  have duty: "slot (guarded_vote e) < u64_max" "source_epoch (guarded_vote e) < u64_max" "target_epoch (guarded_vote e) < u64_max"
    if "e < 100" for e
    using that by (simp_all add: guarded_vote_def u64_max_def)
  note guards = guard_attestation_def mark_hit_def commit_marks_def write_record_def encoded_def guarded_vote_def
  have "guard_attestation dig (Written, Written) (?sp no_watermarks) (slot (guarded_vote 5)) (source_epoch (guarded_vote 5))
      (target_epoch (guarded_vote 5)) (sg_disk (?S\<lparr> sg_mem := Some (?sp no_watermarks) \<rparr>)) = (None, ?sp (?wm 5), ?file 5)"
    by (simp add: guards)
  from guarded_run.vote [OF up _ _ duty this] have one: "guarded_run dig demo_key False (?at 5 [guarded_vote 5])"
    by simp
  have "guard_attestation dig (FailedOld, Written) (?sp (?wm 5)) (slot (guarded_vote 6)) (source_epoch (guarded_vote 6))
      (target_epoch (guarded_vote 6)) (sg_disk (?at 5 [guarded_vote 5])) = (Some RefusedIo, ?sp (?wm 5), ?file 5)"
    by (simp add: guards)
  from guarded_run.vote [OF one _ _ duty this] have again: "guarded_run dig demo_key False (?at 5 [guarded_vote 5])"
    by simp
  have "guard_attestation dig (Written, Written) (?sp (?wm 5)) (slot (guarded_vote 6)) (source_epoch (guarded_vote 6))
      (target_epoch (guarded_vote 6)) (sg_disk (?at 5 [guarded_vote 5])) = (None, ?sp (?wm 6), ?file 6)"
    by (simp add: guards)
  from guarded_run.vote [OF again _ _ duty this] have "guarded_run dig demo_key False (?at 6 [guarded_vote 5, guarded_vote 6])"
    by simp
  then show ?thesis
    by (intro exI [of _ "?at 6 [guarded_vote 5, guarded_vote 6]"]) simp
qed

section \<open>Property\<close>

text \<open>C40. A recovery floor is kept: once the floor has been set, whatever record was on the disk before, the node that
  boots from that disk refuses every proposal and every attestation for a slot below it, with the error that names
  the slot, and neither its record nor the disk changes.\<close>

theorem floor_refuses:
  assumes "digest32 dig" "binding_ok b" "min_slot \<le> u64_max" "initialize_floor dig ow b min_slot d = (Some wm, d1)"
    and "open_with dig d1 (Some b) = Some sp" "sl < min_slot"
  shows "(\<exists>w. guard_proposal dig io sp sl d1 = (Some (RefusedProposal sl w), sp, d1)) \<and>
    (\<exists>w. guard_attestation dig io sp sl se te d1 = (Some (RefusedSlot sl w), sp, d1))"
  using floor_marks [OF assms] guards_below by blast

theorem floor_refuses_witness:
  "\<exists>wm d1 sp. initialize_floor (\<lambda>_. replicate 32 0) Written demo_key 100
      \<lparr> data_file = Some (encode_record (\<lambda>_. replicate 32 0) (no_watermarks\<lparr> proposal_slot := Some 40 \<rparr>) (Some demo_key)), anchor_file = None \<rparr>
      = (Some wm, d1) \<and> open_with (\<lambda>_. replicate 32 0) d1 (Some demo_key) = Some sp \<and>
    (\<exists>w. guard_proposal (\<lambda>_. replicate 32 0) (Written, Written) sp 99 d1 = (Some (RefusedProposal 99 w), sp, d1))"
proof -
  let ?dig = "\<lambda>_ :: bytes. replicate 32 0 :: hash32"
  let ?d = "\<lparr> data_file = Some (encode_record ?dig (no_watermarks\<lparr> proposal_slot := Some 40 \<rparr>) (Some demo_key)), anchor_file = None \<rparr>"
  let ?wm = "\<lparr> proposal_slot = Some 99, attestation_slot = Some 99, wm_source = Some 3, wm_target = Some 3 \<rparr>"
  let ?p = "\<lparr> epoch_floor = Some 3, intent = None \<rparr>"
  let ?d1 = "?d\<lparr> data_file := Some (encode_v3 ?dig ?wm demo_key ?p) \<rparr>"
  let ?sp = "\<lambda>wm r. \<lparr> sp_wm = wm, sp_bound = Some demo_key, sp_recommit = r, sp_mirror = False \<rparr>"
  have ok: "digest32 ?dig" "binding_ok demo_key" "100 \<le> u64_max"
    by (simp_all add: digest32_def binding_ok_def demo_key_def u64_max_def)
  have "decode_record ?dig (encode_record ?dig (no_watermarks\<lparr> proposal_slot := Some 40 \<rparr>) (Some demo_key))
      = Some (no_watermarks\<lparr> proposal_slot := Some 40 \<rparr>, Some demo_key, None)"
    by (rule decode_encode [OF ok(1)]) (simp_all add: marks_ok_def u64_max_def ok(2))
  then have "open_with ?dig ?d (Some demo_key) = Some (?sp (no_watermarks\<lparr> proposal_slot := Some 40 \<rparr>) None)"
    by (simp add: open_with_def)
  then have floor: "initialize_floor ?dig Written demo_key 100 ?d = (Some ?wm, ?d1)"
    by (simp add: initialize_floor_def merge_bound_def merge_recommit_def max_marks_def write_record_def encoded_def
        SLOTS_PER_EPOCH_def u64_max_def Let_def)
  have "decode_record ?dig (encode_v3 ?dig ?wm demo_key ?p) = Some (?wm, Some demo_key, Some ?p)"
    by (rule decode_encode_v3 [OF ok(1) _ ok(2)]) (simp_all add: marks_ok_def recommit_ok_def u64_max_def)
  then have up: "open_with ?dig ?d1 (Some demo_key) = Some (?sp ?wm (Some ?p))"
    by (simp add: open_with_def)
  show ?thesis
    using floor up floor_refuses [OF ok floor up, of 99 "(Written, Written)"] by auto
qed

end
