(* ===== verification/Spec2Isabelle.thy ===== *)
theory Spec2Isabelle
  imports Accountability Forkchoice Fee_Market Delegation Committees Beacon Slashing Weak_Subjectivity State_Tree Ffg
    Slash_Protection
begin

text \<open>
  Verification of the consensus core of the Bloch proof-of-stake chain.

  \<^bold>\<open>The program.\<close>  The crate \<^verbatim>\<open>bloch-pos-committee\<close> holds the rules every node computes alike, as pure
  functions; \<^verbatim>\<open>bloch-pos-node\<close> runs them over a network and a disk; \<^verbatim>\<open>bloch-ffg\<close> is the finality gadget
  of a fixed committee.  In each epoch the randomness beacon mixes the reveals of the proposers, the
  sampler and the shuffle turn the mix and the stakes into committees, the committees sign votes,
  fork choice follows the latest votes, and the finality fold turns the votes of an epoch into
  justified and finalized checkpoints.  Stake enters through deposits and delegations, earns issuance
  and fees, and leaves through exits, or through slashing when two signed messages conflict.  A node
  that comes back after an absence starts from a weak-subjectivity checkpoint.  A validator's own node
  keeps a record of what it has signed, so that it never signs a conflicting pair.  The root of a
  sparse Merkle tree commits the state.

  \<^bold>\<open>Theories.\<close>  Paths are relative to \<^verbatim>\<open>src/crates/bloch-pos-committee/src\<close> unless they name a crate.

  \<^item> \<open>Bloch_Prelude\<close>: machine integers, checked and saturating arithmetic, bytes, digests, and the
    locales \<open>machine\<close>, \<open>progress_machine\<close>, \<open>fallible_machine\<close> and \<open>fallible_progress\<close> for folds of a step
    over a list of events.
  \<^item> \<open>Ordered_Map\<close>: \<^verbatim>\<open>BTreeMap\<close> as a strictly sorted association list and \<^verbatim>\<open>HashMap\<close> as one without
    repeated keys; both interpret the locale \<open>key_store\<close>.
  \<^item> \<open>Quorum\<close>: the locale \<open>two_thirds_quorum\<close> with the overlap of two quorums.  The stake rule of
    \<open>Finality\<close> and the committee of \<open>Ffg\<close> interpret it.
  \<^item> \<open>Params\<close> (\<^verbatim>\<open>params.rs\<close>) and \<open>Attestation\<close> (\<^verbatim>\<open>attestation.rs\<close>): constants, the vote, its signing
    roots and the two slashing predicates.
  \<^item> \<open>Finality\<close> (\<^verbatim>\<open>finality.rs\<close>): \<open>process_epoch\<close> and the replay \<open>from_history\<close> on the record
    \<open>finality_state\<close>.  Shown: exact justification, order freedom, invariant, monotone finality, totality,
    leak and recovery, the frozen set, the refusals.
  \<^item> \<open>Accountability\<close>: two replays that weigh every epoch with one stake map and disagree convict a third of
    that stake; the same between a replay from genesis and a node that starts at a checkpoint of it.
  \<^item> \<open>Forkchoice\<close> (\<^verbatim>\<open>forkchoice.rs\<close>): the store of latest votes, the linear-time head with its bottom-up
    weights, and the reference descent.  Shown: the two agree and return on acyclic trees, and the
    production head returns on every input.
  \<^item> \<open>Sampling\<close>, \<open>Committees\<close>, \<open>Beacon\<close> (\<^verbatim>\<open>sample.rs\<close>, \<^verbatim>\<open>schedule.rs\<close>, \<^verbatim>\<open>committees.rs\<close>, \<^verbatim>\<open>beacon.rs\<close>): the
    draw of proposers, the partition of an epoch with its memo, the hash-chain beacon.
  \<^item> \<open>Header\<close> and \<open>Kes\<close> (\<^verbatim>\<open>header.rs\<close>, \<^verbatim>\<open>kes.rs\<close>): the header codec and identifiers; the key tree,
    signature codec, verification and history of forward-secure keys, and the signature policies.
  \<^item> \<open>Staking\<close> and \<open>Delegation\<close> (\<^verbatim>\<open>staking.rs\<close>, \<^verbatim>\<open>delegation.rs\<close>): deposits, the activation queue, exits
    and withdrawals; warm-up and cool-down under the churn limit, caps, accounting.
  \<^item> \<open>Tokenomics\<close>, \<open>Rewards\<close>, \<open>Fee_Market\<close> (\<^verbatim>\<open>tokenomics_v4.rs\<close>, \<^verbatim>\<open>rewards.rs\<close>, \<^verbatim>\<open>fee_market.rs\<close>): the
    emission curves and the supply cap, the split of issuance, gas and the base fee.
  \<^item> \<open>Slashing\<close> (\<^verbatim>\<open>slashing.rs\<close>): evidence, the judgement of votes and of proposals, penalty, ejection and
    the correlation window.
  \<^item> \<open>Weak_Subjectivity\<close> (\<^verbatim>\<open>ws.rs\<close>): checkpoints, signed envelopes, the window and the anchored start.
  \<^item> \<open>State_Tree\<close> (\<^verbatim>\<open>state_root.rs\<close>): the sparse Merkle tree with its proofs.  It interprets the locale
    \<open>committed_map\<close>: the incremental tree refines a finite map with the root as a commitment.
  \<^item> \<open>Ffg\<close> (\<^verbatim>\<open>bloch-ffg/src/lib.rs\<close>): the committee of 21 seats, its quorum, vacancies and replacement.
  \<^item> \<open>Slash_Protection\<close> (\<^verbatim>\<open>bloch-pos-node/src/slashprot.rs\<close>): the record of what a key has signed, the
    guards, the host anchor and the recovery operations.  \<open>guarded_run\<close> is every order of boots, duties,
    failed writes, crashes and recoveries.
  \<^item> This theory joins the parts.  With one stake map, a broken promise of finality leaves a third of the
    stake punishable by the slashing pipeline, and a node that starts from a weak-subjectivity checkpoint
    agrees with the nodes that replayed from genesis.  Nobody who signs behind the slashing protection
    can be slashed.

  \<^bold>\<open>How the code is read.\<close>  A struct is a record, an enum a datatype, a method a function from the state to
  the state, with a result of option or sum type where the code returns an error.  Unsigned integers are
  natural numbers.  The release profile turns arithmetic overflow into a panic; where the code can reach
  one, the model returns \<^term>\<open>None\<close>, and the totality lemmas show when it does not.  Debug assertions are
  off in that profile and are not part of the model.  SHA3, SHAKE, SHA-256 and the signature verifiers are
  parameters; what a property needs of them is among its hypotheses.  A property that rests on collision
  resistance names the inputs: it holds unless two different inputs of an explicit finite list have one
  digest.

  \<^bold>\<open>One stake map.\<close>  The safety results across nodes assume \<open>steady_run\<close>: every epoch of both runs weighs its
  votes with the same map of stakes.  The documentation of \<^verbatim>\<open>finality.rs\<close> records why this cannot be
  dropped: leak ledgers depend on the votes a node has heard, and where they drift apart each side
  counts its quorum against a total of its own.

  \<^bold>\<open>Bounds and termination.\<close>  Loops are recursive functions with termination proofs.  The walk of
  \<open>head_inner\<close> is bounded as in the code by the number of blocks, which is enough for an acyclic tree
  (\<open>Forkchoice\<close>).  \<open>head_reference\<close> and the rejection loop \<open>draw_below\<close> may run forever on a cyclic tree
  or an unlucky stream and are partial functions; the properties show that they return, on acyclic
  trees and on streams that hold an accepted word.  The recursions of the tree stop at depth 256, the
  number of bits of a key.

  \<^bold>\<open>Not modelled.\<close>
  \<^item> \<^verbatim>\<open>transition.rs\<close> and \<^verbatim>\<open>interfaces.rs\<close>, apart from the interfaces used here: the block transition
    sequences the rules above over a state of some forty components.  What is proved here holds of
    each rule on its own inputs, not of the order in which a block applies them.  With it stay outside
    the encodings of these components in \<^verbatim>\<open>state_root.rs\<close> and the settlement of the second layer
    (\<^verbatim>\<open>l2_settlement.rs\<close>, \<^verbatim>\<open>prova.rs\<close>, \<^verbatim>\<open>derive.rs\<close>, \<^verbatim>\<open>bloch-l2-proof\<close>), which also rests on a foreign proof verifier.
  \<^item> \<^verbatim>\<open>gossip.rs\<close>, \<^verbatim>\<open>wire_alloc.rs\<close> and the engine, network, storage, RPC, key and command-line modules of
    \<^verbatim>\<open>bloch-pos-node\<close>: concurrent I/O around the rules.  Of the node only the slashing protection is
    modelled; that one process at a time uses a data directory, which its lock ensures, is assumed there.
  \<^item> The cryptographic crates, which are parameters.
  \<^item> The crates beside this consensus: the contract machine, which its source says is not wired into
    consensus, the finality certificates, the proof of work and node of the previous chain, the shielded
    pool, the wallets, and the services and tools.
  \<^item> Counters of instrumentation, the step counters of the tests, and a few queries and constants that no
    modelled rule reads.
\<close>

section \<open>Faults are punished\<close>

text \<open>The votes of one validator in \<open>A\<close> hold evidence that the slashing pipeline accepts in any state in which the
  validator has not been slashed and the evidence has not been applied, whatever the exposure that fits the counters.\<close>

definition punishable :: "judge \<Rightarrow> u64 \<Rightarrow> (u32 \<times> attestation_data) set \<Rightarrow> u32 \<Rightarrow> bool" where
  "punishable j start A v \<longleftrightarrow> (\<exists>ev.
     (v, att_data (first_vote ev)) \<in> A \<and> (v, att_data (second_vote ev)) \<in> A \<and>
     (\<forall>x s. exposure_fits x s \<and> \<not> is_ejected s v \<and> \<not> is_applied s (evidence_id (judge_sha3 j) ev) \<longrightarrow>
       (\<exists>out s'. process_with_effective_exposure j start ev x s = Some (Inr out, s') \<and> slashed_fairly s s' v x out)))"

lemma punishableI:
  assumes "(v, d) \<in> A" "(v, d') \<in> A" "slashable d d'"
    and "\<forall>(v, d) \<in> A. verify_offender_signature j v (epoch_of (slot d)) (signing_root (judge_sha3 j) d) (sg v d) = Some True"
  shows "punishable j start A v"
proof -
  let ?att = "\<lambda>e. \<lparr> att_data = e, att_validator = v, att_signature = sg v e \<rparr>"
  let ?ev = "\<lparr> first_vote = ?att d, second_vote = ?att d' \<rparr>"
  have signed: "\<forall>e \<in> {d, d'}. verify_offender_signature j v (epoch_of (slot e)) (signing_root (judge_sha3 j) e) (sg v e) = Some True"
    using bspec [OF assms(4,1)] bspec [OF assms(4,2)] by simp
  have "\<exists>out s'. process_with_effective_exposure j start ?ev x s = Some (Inr out, s') \<and> slashed_fairly s s' v x out"
    if "exposure_fits x s \<and> \<not> is_ejected s v \<and> \<not> is_applied s (evidence_id (judge_sha3 j) ?ev)" for x s
    by (rule conflicting_votes_slashed [OF assms(3) [unfolded slashable_def] _ signed]) (use that in simp_all)
  then show ?thesis
    unfolding punishable_def using assms(1,2) by (intro exI [of _ ?ev] conjI allI impI) simp_all
qed

text \<open>C2. A broken promise of finality is punishable, as long as there is one stake map: when two nodes replay from one
  genesis, every epoch of both weighs its votes with the same stake map, and they disagree on a finalized checkpoint,
  then there are validators with a third of that stake for each of whom two of the counted votes, all of them signed,
  make evidence that the slashing pipeline accepts, in any state in which the validator has not been slashed yet,
  ejecting the validator and taking at least five percent.  Without the one stake map the statement is false of the
  network: leak ledgers that have drifted apart let disjoint sets of honest validators finalize.  The pipeline is that
  of the slashing state; from which epoch on a block may carry evidence is decided by the transition.\<close>

theorem safety_fault_is_punished:
  assumes "new_state genesis = Inr st" "om_wf m"
    and "from_history g genesis ha = Inr sa" "steady_run g m st ha"
    and "from_history g genesis hb = Inr sb" "steady_run g m st hb"
    and "epoch (finalized sa) \<le> epoch (current_justified sb)" "\<not> is_justified sb (finalized sa)"
    and "\<forall>(v, d) \<in> history_votes ha \<union> history_votes hb.
      verify_offender_signature j v (epoch_of (slot d)) (signing_root (judge_sha3 j) d) (sg v d) = Some True"
  shows "\<exists>V \<subseteq> set (keys_of m). sum_list (values_of m) \<le> 3 * sum (get_or 0 m) V \<and>
    (\<forall>v \<in> V. punishable j start (history_votes ha \<union> history_votes hb) v)"
proof -
  let ?A = "history_votes ha \<union> history_votes hb"
  have "third_slashable m ?A"
    using finalized_safe [OF assms(2) accounted_from_history [OF assms(3,1,4)]
      accounted_from_history [OF assms(5,1,6)] assms(7)] assms(8) by (elim disjE) simp_all
  then obtain V where V: "V \<subseteq> set (keys_of m)" "sum_list (values_of m) \<le> 3 * sum (get_or 0 m) V"
      "\<forall>v \<in> V. \<exists>d d'. (v, d) \<in> ?A \<and> (v, d') \<in> ?A \<and> slashable d d'"
    unfolding third_slashable_def by (elim exE conjE) 
  have "punishable j start ?A v" if v: "v \<in> V" for v
    using bspec [OF V(3) v] punishableI [OF _ _ _ assms(9)] by (elim exE conjE)
  then show ?thesis
    using V(1,2) by (intro exI [of _ V] conjI ballI)
qed

definition demo_court :: judge where
  "demo_court = demo_judge\<lparr> judge_keys := (judge_keys demo_judge)\<lparr> pubkey := \<lambda>_. Some [7] \<rparr> \<rparr>"

theorem safety_fault_is_punished_witness:
  "\<exists>V \<subseteq> {0, 1, 2}. (30 :: nat) \<le> 3 * sum (get_or 0 [(0, 10), (1, 10), (2, 10)]) V \<and>
    (\<forall>v \<in> V. punishable demo_court u64_max (history_votes demo_history \<union> history_votes demo_fork) v)"
proof -
  let ?g = shipped_gates and ?m = "[(0, 10), (1, 10), (2, 10)] :: (u32, u64) btree_map"
  let ?a = "from_history ?g demo_genesis demo_history" and ?b = "from_history ?g demo_genesis demo_fork"
  have runs: "\<not> isl (new_state demo_genesis)" "\<not> isl ?a" "\<not> isl ?b"
    "steady_run ?g ?m demo_start demo_history" "steady_run ?g ?m demo_start demo_fork"
    by code_simp+
  have ends: "epoch (finalized (projr ?a)) \<le> epoch (current_justified (projr ?b))"
    "\<not> is_justified (projr ?b) (finalized (projr ?a))"
    by code_simp+
  have start: "new_state demo_genesis = Inr demo_start" and wf: "om_wf ?m"
    using Inr_projr [OF runs(1)] by (simp_all add: demo_start_def om_wf_def)
  have "verify_offender_signature demo_court v e r [7] = Some True" for v e r
    by (simp add: verify_offender_signature_def demo_court_def demo_judge_def verify_validator_def verify_validator_in_def
        signing_mode_of_def kes_period_def shipped_kes_schedule_def epoch_gate_active_def policy_verifier_consensus_def
        policy_verifier_def)
  then show ?thesis
    using safety_fault_is_punished [OF start wf Inr_projr [OF runs(2)] runs(4) Inr_projr [OF runs(3)] runs(5)
      ends, of demo_court "\<lambda>_ _. [7]" u64_max] by simp
qed

section \<open>Nodes that start late agree\<close>

text \<open>C4. Starting from a weak-subjectivity checkpoint is safe: let one node replay from genesis and justify a later
  checkpoint, and another start at that checkpoint, and let every epoch of both weigh its votes with the same stake
  map.  A checkpoint that the first finalizes from the anchor on is justified at the second once that has moved past
  it, and a checkpoint that the second finalizes is justified at the first, or validators with a third of the stake
  have signed a slashable pair of votes.\<close>

theorem anchored_node_agrees:
  assumes "new_state genesis = Inr st" "om_wf m"
    and "from_history g genesis ha = Inr sa" "steady_run g m st ha"
    and "epoch genesis < ws_epoch cp" "is_justified sa (as_finality_checkpoint cp)"
    and "anchor cp = Inr sw" "run_until_error (fold_step g) sw hb = Inr sb" "steady_run g m sw hb"
  shows "(ws_epoch cp \<le> epoch (finalized sa) \<and> epoch (finalized sa) \<le> epoch (current_justified sb) \<longrightarrow>
      is_justified sb (finalized sa) \<or> third_slashable m (history_votes ha \<union> history_votes hb)) \<and>
    (epoch (finalized sb) \<le> epoch (current_justified sa) \<longrightarrow>
      is_justified sa (finalized sb) \<or> third_slashable m (history_votes ha \<union> history_votes hb))"
proof -
  have "from_history g (as_finality_checkpoint cp) hb = Inr sb"
    using assms(7,8) by (simp add: from_history_def anchor_def)
  note b = accounted_from_history [OF this assms(7) [unfolded anchor_def] assms(9)]
  have "epoch (as_finality_checkpoint cp) = ws_epoch cp"
    by (simp add: as_finality_checkpoint_def checkpoint.defs)
  then show ?thesis
    using anchored_safe [OF assms(2) accounted_from_history [OF assms(3,1,4)] b assms(6)] by simp
qed

definition demo_long_history :: "epoch_votes list" where
  "demo_long_history = demo_history @ [demo_votes 3 [(0, Finality.demo_vote 2 [2] 3 [3]), (1, Finality.demo_vote 2 [2] 3 [3])]]"

definition demo_checkpoint :: ws_checkpoint where
  "demo_checkpoint = (genesis_anchor 7 (replicate 32 1) (replicate 32 2) (replicate 32 3) 0)\<lparr> ws_epoch := 1, block_root := [1] \<rparr>"

theorem anchored_node_agrees_witness:
  "let sa = projr (from_history shipped_gates demo_genesis demo_long_history);
       sb = projr (run_until_error (fold_step shipped_gates) (projr (anchor demo_checkpoint)) (drop 1 demo_long_history));
       A = history_votes demo_long_history \<union> history_votes (drop 1 demo_long_history);
       m = [(0, 10), (1, 10), (2, 10)]
   in epoch (finalized sa) = 2 \<and> epoch (finalized sb) = 2 \<and>
     (is_justified sb (finalized sa) \<or> third_slashable m A) \<and> (is_justified sa (finalized sb) \<or> third_slashable m A)"
proof -
  let ?g = shipped_gates and ?m = "[(0, 10), (1, 10), (2, 10)] :: (u32, u64) btree_map" and ?h = demo_long_history
  let ?a = "from_history ?g demo_genesis ?h" and ?w = "anchor demo_checkpoint"
  let ?b = "run_until_error (fold_step ?g) (projr ?w) (drop 1 ?h)"
  have runs: "\<not> isl (new_state demo_genesis)" "\<not> isl ?a" "\<not> isl ?w" "\<not> isl ?b"
    and steady: "steady_run ?g ?m (projr (new_state demo_genesis)) ?h" "steady_run ?g ?m (projr ?w) (drop 1 ?h)"
    by code_simp+
  have ends: "epoch demo_genesis < ws_epoch demo_checkpoint" "is_justified (projr ?a) (as_finality_checkpoint demo_checkpoint)"
    "epoch (finalized (projr ?a)) = 2" "epoch (finalized (projr ?b)) = 2" "epoch (current_justified (projr ?a)) = 3"
    "epoch (current_justified (projr ?b)) = 3" "ws_epoch demo_checkpoint = 1"
    by code_simp+
  have "om_wf ?m"
    by (simp add: om_wf_def)
  from anchored_node_agrees [OF Inr_projr [OF runs(1)] this Inr_projr [OF runs(2)] steady(1) ends(1,2) Inr_projr [OF runs(3)]
      Inr_projr [OF runs(4)] steady(2)]
  show ?thesis
    unfolding Let_def using ends by simp
qed

section \<open>Honest validators are not\<close>

text \<open>C3. A validator behind its slashing protection cannot be slashed: whatever it was asked to sign, through boots,
  failed writes, crashes, imported backups and recovery floors in any order, and with the host anchor even through replaced data directories, no evidence
  made of votes or blocks that it released is accepted, and the slashing state stays as it is.  Duties lie below
  the largest 64-bit value, which the record on disk reserves for none.\<close>

theorem guarded_never_slashed:
  assumes "digest32 dig" "binding_ok b" "guarded_run dig b anch S"
  shows "(att_data (first_vote ev) \<in> set (sg_votes S) \<and> att_data (second_vote ev) \<in> set (sg_votes S) \<longrightarrow>
      (\<exists>e. process_with_effective_exposure j v2 ev x s = Some (Inl e, s) \<and> e \<in> {DifferentValidators, NotConflicting})) \<and>
    (prop_header p \<in> set (sg_blocks S) \<and> prop_header q \<in> set (sg_blocks S) \<longrightarrow>
      (\<exists>e. process_proposer_with_effective_exposure j v2 p q x s = Some (Inl e, s) \<and> e \<in> {DifferentValidators, NotConflicting}))"
proof (intro conjI impI; elim conjE)
  assume "att_data (first_vote ev) \<in> set (sg_votes S)" "att_data (second_vote ev) \<in> set (sg_votes S)"
  note safe = guarded_votes [OF assms(3,1,2) this]
  have "offense_of ev = Inl DifferentValidators \<or> offense_of ev = Inl NotConflicting"
    unfolding offense_of_def Let_def using safe by simp
  then show "\<exists>e. process_with_effective_exposure j v2 ev x s = Some (Inl e, s) \<and> e \<in> {DifferentValidators, NotConflicting}"
    unfolding process_with_effective_exposure_def by (elim disjE) simp_all
next
  assume "prop_header p \<in> set (sg_blocks S)" "prop_header q \<in> set (sg_blocks S)"
  note same = guarded_blocks [OF assms(3,1,2) this]
  show "\<exists>e. process_proposer_with_effective_exposure j v2 p q x s = Some (Inl e, s) \<and> e \<in> {DifferentValidators, NotConflicting}"
    unfolding process_proposer_with_effective_exposure_def Let_def using same
    by (cases "block_slot (prop_header p) = block_slot (prop_header q)") simp_all
qed

theorem guarded_never_slashed_witness:
  "\<exists>S. guarded_run (\<lambda>_. replicate 32 0) demo_key False S \<and> sg_votes S = [guarded_vote 5, guarded_vote 6] \<and>
    (\<exists>e. process_with_effective_exposure demo_judge u64_max
       \<lparr> first_vote = \<lparr> att_data = guarded_vote 5, att_validator = 3, att_signature = [7] \<rparr>,
         second_vote = \<lparr> att_data = guarded_vote 6, att_validator = 3, att_signature = [7] \<rparr> \<rparr>
       demo_exposure new_slashing_state = Some (Inl e, new_slashing_state) \<and> e \<in> {DifferentValidators, NotConflicting})"
proof -
  obtain S where S: "guarded_run (\<lambda>_. replicate 32 0) demo_key False S" "sg_votes S = [guarded_vote 5, guarded_vote 6]"
    using demo_guarded by blast
  have ok: "digest32 (\<lambda>_. replicate 32 0)" "binding_ok demo_key"
    by (simp_all add: digest32_def binding_ok_def demo_key_def)
  let ?ev = "\<lparr> first_vote = \<lparr> att_data = guarded_vote 5, att_validator = 3, att_signature = [7] \<rparr>,
    second_vote = \<lparr> att_data = guarded_vote 6, att_validator = 3, att_signature = [7] \<rparr> \<rparr>"
  have "att_data (first_vote ?ev) \<in> set (sg_votes S) \<and> att_data (second_vote ?ev) \<in> set (sg_votes S)"
    by (simp add: S(2))
  then show ?thesis
    using guarded_never_slashed [OF ok S(1), THEN conjunct1, THEN mp, of ?ev] S by blast
qed

end
